(* ===== verification/Prelude.thy ===== *)
theory Prelude
  imports "HOL-Library.Word" "HOL-Library.Monad_Syntax"
begin

text \<open>
  Shared vocabulary of the development: the machine types of the Rust sources, a panic as
  \<^const>\<open>None\<close>, the checked, saturating and wrapping integer operations of the standard library,
  slices, big- and little-endian byte conversions, decimal printing, and a locale for machines
  whose operations keep an invariant and do not panic.

  Conventions.
  \<^item> \<open>u8\<close>, \<open>u16\<close> and \<open>u32\<close> are words. \<open>u64\<close> and \<open>usize\<close> (a 64-bit target) are natural numbers
    whose operations check the limit \<open>U64_MAX\<close> explicitly: plain Rust \<open>+\<close> and \<open>-\<close> panic on overflow
    in a build with overflow checks, which is what \<open>add64\<close> and \<open>sub64\<close> do. Where a theorem shows
    that an operation does not panic, a build without the checks computes the same result.
  \<^item> A computation that may panic has type \<open>'a run\<close>; \<^const>\<open>None\<close> is the panic (an explicit
    \<open>panic\<close>, a failed \<open>assert\<close>/\<open>expect\<close>, a slice out of range, an arithmetic overflow).
  \<^item> A Rust \<open>Result<T, E>\<close> is a sum \<open>'e + 't\<close> with \<^const>\<open>Inl\<close> the error.
  \<^item> A \<open>Bytes\<close> or \<open>Vec<u8>\<close> value is the byte sequence it dereferences to.
\<close>

section \<open>Machine types\<close>

type_synonym byte = "8 word"
type_synonym u16 = "16 word"
type_synonym u32 = "32 word"
type_synonym bytes = "byte list"
type_synonym 'a run = "'a option"

type_synonym octets4 = "byte \<times> byte \<times> byte \<times> byte"
type_synonym octets6 = "byte \<times> byte \<times> byte \<times> byte \<times> byte \<times> byte"

abbreviation U64_MAX :: nat where "U64_MAX \<equiv> 18446744073709551615"
abbreviation U32_MAX :: nat where "U32_MAX \<equiv> 4294967295"
abbreviation U16_MAX :: nat where "U16_MAX \<equiv> 65535"

named_theorems run_simps \<open>operations of the standard library that do not panic under a bound\<close>
named_theorems byte_simps \<open>byte conversions\<close>

section \<open>Integer operations of the standard library\<close>

definition add64 :: "nat \<Rightarrow> nat \<Rightarrow> nat option" where
  "add64 a b = (if a + b \<le> U64_MAX then Some (a + b) else None)"

definition sub64 :: "nat \<Rightarrow> nat \<Rightarrow> nat option" where
  "sub64 a b = (if b \<le> a then Some (a - b) else None)"

definition add32 :: "nat \<Rightarrow> nat \<Rightarrow> nat option" where
  "add32 a b = (if a + b \<le> U32_MAX then Some (a + b) else None)"

definition saturating_add :: "nat \<Rightarrow> nat \<Rightarrow> nat" where
  "saturating_add a b = min (a + b) U64_MAX"

definition saturating_mul :: "nat \<Rightarrow> nat \<Rightarrow> nat" where
  "saturating_mul a b = min (a * b) U64_MAX"

definition abs_diff :: "nat \<Rightarrow> nat \<Rightarrow> nat" where
  "abs_diff a b = (if a \<le> b then b - a else a - b)"

definition ensure :: "bool \<Rightarrow> unit run" where
  "ensure b = (if b then Some () else None)"

section \<open>Slices and byte conversions\<close>

definition slice :: "nat \<Rightarrow> nat \<Rightarrow> 'a list \<Rightarrow> 'a list run" where
  "slice a b xs = (if a \<le> b \<and> b \<le> length xs then Some (take (b - a) (drop a xs)) else None)"

definition slice_from :: "nat \<Rightarrow> 'a list \<Rightarrow> 'a list run" where
  "slice_from a xs = (if a \<le> length xs then Some (drop a xs) else None)"

definition slice_to :: "nat \<Rightarrow> 'a list \<Rightarrow> 'a list run" where
  "slice_to b xs = (if b \<le> length xs then Some (take b xs) else None)"

definition splice2 :: "nat \<Rightarrow> 'a list \<Rightarrow> 'a list \<Rightarrow> 'a list" where
  "splice2 i ys xs = take i xs @ ys @ drop (i + length ys) xs"

definition be16 :: "u16 \<Rightarrow> bytes" where
  "be16 w = [of_nat (unat w div 256), of_nat (unat w)]"

definition be32 :: "u32 \<Rightarrow> bytes" where
  "be32 w = [of_nat (unat w div 16777216), of_nat (unat w div 65536),
             of_nat (unat w div 256), of_nat (unat w)]"

definition from_be16 :: "byte \<Rightarrow> byte \<Rightarrow> u16" where
  "from_be16 h l = of_nat (256 * unat h + unat l)"

definition from_be32 :: "byte \<Rightarrow> byte \<Rightarrow> byte \<Rightarrow> byte \<Rightarrow> u32" where
  "from_be32 a b c d = of_nat (((unat a * 256 + unat b) * 256 + unat c) * 256 + unat d)"

definition le16 :: "u16 \<Rightarrow> bytes" where
  "le16 w = rev (be16 w)"

definition le32 :: "u32 \<Rightarrow> bytes" where
  "le32 w = rev (be32 w)"

definition octets4_bytes :: "octets4 \<Rightarrow> bytes" where
  "octets4_bytes = (\<lambda>(a, b, c, d). [a, b, c, d])"

definition octets6_bytes :: "octets6 \<Rightarrow> bytes" where
  "octets6_bytes = (\<lambda>(a, b, c, d, e, f). [a, b, c, d, e, f])"

section \<open>Printing numbers\<close>

text \<open>The \<open>Display\<close> of an unsigned integer: its decimal digits.\<close>

fun string_of_nat :: "nat \<Rightarrow> string" where
  "string_of_nat n =
     (if n < 10 then [char_of (48 + n)]
      else string_of_nat (n div 10) @ [char_of (48 + n mod 10)])"

declare string_of_nat.simps [simp del]

section \<open>Running a sequence of operations\<close>

primrec run_all :: "('s \<Rightarrow> 'o \<Rightarrow> 's run) \<Rightarrow> 's \<Rightarrow> 'o list \<Rightarrow> 's run" where
  "run_all step s [] = Some s"
| "run_all step s (x # xs) = do { s' \<leftarrow> step s x; run_all step s' xs }"

lemma run_all_append: "run_all step s (xs @ ys) = do { s' \<leftarrow> run_all step s xs; run_all step s' ys }"
  by (induction xs arbitrary: s) (auto split: Option.bind_split)

section \<open>Lemmas on integers\<close>

lemma add64_Some [run_simps]: "a + b \<le> U64_MAX \<Longrightarrow> add64 a b = Some (a + b)"
  by (simp add: add64_def)

lemma add64_eq_Some_iff: "add64 a b = Some c \<longleftrightarrow> c = a + b \<and> a + b \<le> U64_MAX"
  by (auto simp: add64_def)

lemma sub64_Some [run_simps]: "b \<le> a \<Longrightarrow> sub64 a b = Some (a - b)"
  by (simp add: sub64_def)

lemma sub64_eq_Some_iff: "sub64 a b = Some c \<longleftrightarrow> c = a - b \<and> b \<le> a"
  by (auto simp: sub64_def)

lemma add32_Some [run_simps]: "a + b \<le> U32_MAX \<Longrightarrow> add32 a b = Some (a + b)"
  by (simp add: add32_def)

lemma add32_eq_Some_iff: "add32 a b = Some c \<longleftrightarrow> c = a + b \<and> a + b \<le> U32_MAX"
  by (auto simp: add32_def)

lemma saturating_add_exact [run_simps]: "a + b \<le> U64_MAX \<Longrightarrow> saturating_add a b = a + b"
  by (simp add: saturating_add_def)

lemma saturating_add_le [simp]: "saturating_add a b \<le> U64_MAX"
  by (simp add: saturating_add_def)

lemma abs_diff_commute: "abs_diff a b = abs_diff b a"
  by (simp add: abs_diff_def)

lemma abs_diff_Suc [simp]: "abs_diff (Suc a) (Suc b) = abs_diff a b"
  by (simp add: abs_diff_def)

lemma ensure_True [simp]: "ensure True = Some ()"
  by (simp add: ensure_def)

lemma ensure_eq_Some_iff [simp]: "ensure b = Some u \<longleftrightarrow> b"
  by (simp add: ensure_def)

lemma ensure_Some [run_simps]: "b \<Longrightarrow> ensure b = Some ()"
  by (simp add: ensure_def)

section \<open>Lemmas on words and bytes\<close>

lemma unat_byte_less: "unat (b :: 8 word) < 256"
proof -
  have "unat b < 2 ^ LENGTH(8)" by (rule unsigned_less)
  then show ?thesis by simp
qed

lemma unat_u16_less: "unat (b :: 16 word) < 65536"
proof -
  have "unat b < 2 ^ LENGTH(16)" by (rule unsigned_less)
  then show ?thesis by simp
qed

lemma unat_u32_less: "unat (b :: 32 word) < 4294967296"
proof -
  have "unat b < 2 ^ LENGTH(32)" by (rule unsigned_less)
  then show ?thesis by simp
qed

lemma unat_of_nat8: "unat (of_nat n :: 8 word) = n mod 256"
  by (simp only: unat_of_nat) simp

lemma unat_of_nat16: "unat (of_nat n :: 16 word) = n mod 65536"
  by (simp only: unat_of_nat) simp

lemma unat_of_nat32: "unat (of_nat n :: 32 word) = n mod 4294967296"
  by (simp only: unat_of_nat) simp

lemma unat_from_be16 [byte_simps]: "unat (from_be16 h l) = 256 * unat h + unat l"
  using unat_byte_less [of h] unat_byte_less [of l]
  unfolding from_be16_def unat_of_nat16 by simp

lemma unat_from_be32:
  "unat (from_be32 a b c d) = ((unat a * 256 + unat b) * 256 + unat c) * 256 + unat d"
  using unat_byte_less [of a] unat_byte_less [of b] unat_byte_less [of c] unat_byte_less [of d]
  unfolding from_be32_def unat_of_nat32 by simp

lemma from_be16_be16 [byte_simps]: "from_be16 (of_nat (unat w div 256)) (of_nat (unat w)) = w"
  unfolding word_unat_eq_iff unat_from_be16 unat_of_nat8
  using unat_u16_less [of w] by simp

lemma radix_256:
  "(((n div 16777216) * 256 + (n div 65536) mod 256) * 256 + (n div 256) mod 256) * 256
     + n mod 256 = (n :: nat)"
proof -
  have "n div 65536 = n div 256 div 256" and "n div 16777216 = n div 256 div 256 div 256"
    by (simp_all add: div_mult2_eq [symmetric])
  then show ?thesis by (simp only: div_mult_mod_eq)
qed

lemma from_be32_be32 [byte_simps]:
  "from_be32 (of_nat (unat w div 16777216)) (of_nat (unat w div 65536))
     (of_nat (unat w div 256)) (of_nat (unat w)) = w"
proof -
  have "unat w div 16777216 < 256" using unat_u32_less [of w] by simp
  then show ?thesis
    unfolding word_unat_eq_iff unat_from_be32 unat_of_nat8
    using radix_256 [of "unat w"] by simp
qed

lemma from_be32_eq: "[a, b, c, d] = be32 w \<Longrightarrow> from_be32 a b c d = w"
  unfolding be32_def by (elim list.inject [THEN iffD1, elim_format] conjE) (simp only: from_be32_be32)

lemma be16_from_be16: "be16 (from_be16 h l) = [h, l]"
proof -
  have "of_nat ((256 * unat h + unat l) div 256) = h" and "of_nat (256 * unat h + unat l) = l"
    unfolding word_unat_eq_iff unat_of_nat8
    using unat_byte_less [of h] unat_byte_less [of l] by simp_all
  then show ?thesis unfolding be16_def unat_from_be16 by simp
qed

lemma length_be16 [simp]: "length (be16 w) = 2"
  by (simp add: be16_def)

lemma length_be32 [simp]: "length (be32 w) = 4"
  by (simp add: be32_def)

lemma length_octets4_bytes [simp]: "length (octets4_bytes x) = 4"
  by (cases x) (simp add: octets4_bytes_def)

lemma length_octets6_bytes [simp]: "length (octets6_bytes x) = 6"
  by (cases x) (simp add: octets6_bytes_def)

section \<open>Lemmas on slices\<close>

lemma slice_Some [run_simps]:
  "a \<le> b \<Longrightarrow> b \<le> length xs \<Longrightarrow> slice a b xs = Some (take (b - a) (drop a xs))"
  by (simp add: slice_def)

lemma slice_from_Some [run_simps]: "a \<le> length xs \<Longrightarrow> slice_from a xs = Some (drop a xs)"
  by (simp add: slice_from_def)

lemma slice_to_Some [run_simps]: "b \<le> length xs \<Longrightarrow> slice_to b xs = Some (take b xs)"
  by (simp add: slice_to_def)

lemma length_splice2: "i + length ys \<le> length xs \<Longrightarrow> length (splice2 i ys xs) = length xs"
  by (simp add: splice2_def)

section \<open>Machines that keep an invariant and do not panic\<close>

text \<open>Steps that make a measure smaller, as long as it is not zero, lead to zero.\<close>

lemma measure_reaches:
  fixes m :: "'s \<Rightarrow> nat"
  assumes "\<And>s. P s \<Longrightarrow> 0 < m s \<Longrightarrow> \<exists>s'. step\<^sup>*\<^sup>* s s' \<and> P s' \<and> m s' < m s" and "P s"
  shows "\<exists>s'. step\<^sup>*\<^sup>* s s' \<and> P s' \<and> m s' = 0"
  using assms(2)
proof (induction "m s" arbitrary: s rule: less_induct)
  case less
  show ?case
  proof (cases "m s = 0")
    case False
    then obtain s1 where s1: "step\<^sup>*\<^sup>* s s1" "P s1" "m s1 < m s" using assms(1) [OF less.prems] by auto
    from less.hyps [OF s1(3,2)] show ?thesis using s1(1) by (meson rtranclp_trans)
  qed (use less.prems in blast)
qed

text \<open>
  The contract several components share: under a precondition an operation does not panic and
  keeps the invariant. The locale lifts it to every sequence of operations.
\<close>

locale safe_machine =
  fixes step :: "'s \<Rightarrow> 'o \<Rightarrow> 's run"
    and inv :: "'s \<Rightarrow> bool"
    and pre :: "'s \<Rightarrow> 'o \<Rightarrow> bool"
  assumes step_total: "inv s \<Longrightarrow> pre s x \<Longrightarrow> \<exists>s'. step s x = Some s'"
    and step_inv: "inv s \<Longrightarrow> pre s x \<Longrightarrow> step s x = Some s' \<Longrightarrow> inv s'"
begin

primrec enabled :: "'s \<Rightarrow> 'o list \<Rightarrow> bool" where
  "enabled s [] = True"
| "enabled s (x # xs) = (pre s x \<and> (\<forall>s'. step s x = Some s' \<longrightarrow> enabled s' xs))"

lemma run_safe:
  "inv s \<Longrightarrow> enabled s xs \<Longrightarrow> \<exists>s'. run_all step s xs = Some s' \<and> inv s'"
proof (induction xs arbitrary: s)
  case Nil
  then show ?case by simp
next
  case (Cons x xs)
  from Cons.prems obtain s' where s': "step s x = Some s'"
    using step_total by fastforce
  with Cons.prems have "inv s'" and "enabled s' xs"
    using step_inv by auto
  then show ?case using Cons.IH s' by simp
qed

lemma run_safe_each:
  assumes "\<And>s x. x \<in> set xs \<Longrightarrow> pre s x" and "inv s"
  shows "\<exists>s'. run_all step s xs = Some s' \<and> inv s'"
proof -
  have "enabled s xs" for s
    using assms(1) by (induction xs arbitrary: s) simp_all
  then show ?thesis using assms(2) by (rule run_safe [rotated])
qed

lemma run_safe_always: "(\<And>s x. pre s x) \<Longrightarrow> inv s \<Longrightarrow> \<exists>s'. run_all step s xs = Some s' \<and> inv s'"
  by (rule run_safe_each)

end

text \<open>
  Machines whose operations consume a budget: the bytes written to a connection, whose sequence
  numbers are 64 bits wide.
\<close>

locale budget_machine =
  fixes step :: "'s \<Rightarrow> 'o \<Rightarrow> 's run"
    and inv :: "'s \<Rightarrow> bool"
    and used :: "'s \<Rightarrow> nat"
    and cost :: "'o \<Rightarrow> nat"
    and good :: "'o \<Rightarrow> bool"
    and budget :: nat
  assumes step_budget: "inv s \<Longrightarrow> good x \<Longrightarrow> used s + cost x \<le> budget \<Longrightarrow>
    \<exists>s'. step s x = Some s' \<and> inv s' \<and> used s' \<le> used s + cost x"
begin

lemma run_budget:
  assumes "inv s" and "\<And>x. x \<in> set xs \<Longrightarrow> good x" and "used s + sum_list (map cost xs) \<le> budget"
  shows "\<exists>s'. run_all step s xs = Some s' \<and> inv s' \<and> used s' \<le> used s + sum_list (map cost xs)"
  using assms
proof (induction xs arbitrary: s)
  case Nil
  then show ?case by simp
next
  case (Cons x xs)
  obtain s1 where s1: "step s x = Some s1" "inv s1" "used s1 \<le> used s + cost x"
    using step_budget [of s x] Cons.prems by auto
  moreover have "used s1 + sum_list (map cost xs) \<le> budget" using Cons.prems(3) s1(3) by simp
  ultimately show ?case using Cons.IH [of s1] Cons.prems(2) by fastforce
qed

end

sublocale budget_machine \<subseteq> safe_machine step inv "\<lambda>s x. good x \<and> used s + cost x \<le> budget"
  by unfold_locales (use step_budget in fastforce)+

end
