(* ===== verification/Byte_Stream.thy ===== *)
theory Byte_Stream
  imports Prelude
begin

text \<open>
  \<open>src/byte_stream.rs\<close>: the bounded in-memory byte stream between an application and the TCP
  sender, and between the reassembler and an application. A queue of chunks, counters of the bytes
  buffered, pushed and popped, and the closed and error flags.
\<close>

section \<open>Model\<close>

record ByteStream =
  bs_capacity :: nat
  bs_chunks :: "bytes list"
  bs_buffered :: nat
  bs_closed :: bool
  bs_error :: bool
  bs_pushed :: nat
  bs_popped :: nat

definition ByteStream_new :: "nat \<Rightarrow> ByteStream" where
  "ByteStream_new capacity =
     \<lparr> bs_capacity = capacity, bs_chunks = [], bs_buffered = 0, bs_closed = False,
       bs_error = False, bs_pushed = 0, bs_popped = 0 \<rparr>"

definition ByteStream_available_capacity :: "ByteStream \<Rightarrow> nat run" where
  "ByteStream_available_capacity self = sub64 (bs_capacity self) (bs_buffered self)"

definition ByteStream_push :: "ByteStream \<Rightarrow> bytes \<Rightarrow> (ByteStream \<times> nat) run" where
  "ByteStream_push self data =
     (if bs_closed self \<or> bs_error self then Some (self, 0)
      else do {
        available \<leftarrow> ByteStream_available_capacity self;
        let accepted = min (length data) available;
        if accepted > 0 then do {
          chunk \<leftarrow> (if accepted = length data then Some data else slice_to accepted data);
          buffered \<leftarrow> add64 (bs_buffered self) accepted;
          pushed \<leftarrow> add64 (bs_pushed self) accepted;
          Some (self\<lparr> bs_chunks := bs_chunks self @ [chunk], bs_buffered := buffered,
                      bs_pushed := pushed \<rparr>, accepted)
        } else Some (self, accepted)
      })"

definition ByteStream_close :: "ByteStream \<Rightarrow> ByteStream" where
  "ByteStream_close self = self\<lparr> bs_closed := True \<rparr>"

definition ByteStream_is_closed :: "ByteStream \<Rightarrow> bool" where
  "ByteStream_is_closed self = bs_closed self"

definition ByteStream_set_error :: "ByteStream \<Rightarrow> ByteStream" where
  "ByteStream_set_error self = self\<lparr> bs_error := True \<rparr>"

definition ByteStream_has_error :: "ByteStream \<Rightarrow> bool" where
  "ByteStream_has_error self = bs_error self"

definition ByteStream_capacity :: "ByteStream \<Rightarrow> nat" where
  "ByteStream_capacity self = bs_capacity self"

definition ByteStream_peek :: "ByteStream \<Rightarrow> bytes" where
  "ByteStream_peek self = (case bs_chunks self of [] \<Rightarrow> [] | front # _ \<Rightarrow> front)"

definition ByteStream_pop :: "ByteStream \<Rightarrow> nat \<Rightarrow> (ByteStream \<times> bytes) run" where
  "ByteStream_pop self len =
     (case bs_chunks self of
        [] \<Rightarrow> Some (self, [])
      | front # rest \<Rightarrow>
          (let popped = min len (length front) in
           if popped = 0 then Some (self\<lparr> bs_chunks := front # rest \<rparr>, [])
           else do {
             buffered \<leftarrow> sub64 (bs_buffered self) popped;
             total \<leftarrow> add64 (bs_popped self) popped;
             let self = self\<lparr> bs_chunks := rest, bs_buffered := buffered, bs_popped := total \<rparr>;
             if popped = length front then Some (self, front)
             else do {
               prefix \<leftarrow> slice_to popped front;
               suffix \<leftarrow> slice_from popped front;
               Some (self\<lparr> bs_chunks := suffix # rest \<rparr>, prefix)
             }
           }))"

definition ByteStream_bytes_buffered :: "ByteStream \<Rightarrow> nat" where
  "ByteStream_bytes_buffered self = bs_buffered self"

definition ByteStream_bytes_pushed :: "ByteStream \<Rightarrow> nat" where
  "ByteStream_bytes_pushed self = bs_pushed self"

definition ByteStream_bytes_popped :: "ByteStream \<Rightarrow> nat" where
  "ByteStream_bytes_popped self = bs_popped self"

definition ByteStream_is_finished :: "ByteStream \<Rightarrow> bool" where
  "ByteStream_is_finished self = (bs_closed self \<and> bs_buffered self = 0)"

lemmas stream_accessors =
  ByteStream_is_closed_def ByteStream_has_error_def ByteStream_capacity_def
  ByteStream_bytes_buffered_def ByteStream_bytes_pushed_def ByteStream_bytes_popped_def

section \<open>Invariant and abstraction\<close>

text \<open>What a reader can still read, and how many bytes a writer can still write.\<close>

definition bs_contents :: "ByteStream \<Rightarrow> bytes" where
  "bs_contents s = concat (bs_chunks s)"

definition bs_room :: "ByteStream \<Rightarrow> nat" where
  "bs_room s = (if bs_closed s \<or> bs_error s then 0 else bs_capacity s - bs_buffered s)"

definition bs_wf :: "ByteStream \<Rightarrow> bool" where
  "bs_wf s \<longleftrightarrow>
     bs_buffered s = length (bs_contents s) \<and> bs_buffered s \<le> bs_capacity s \<and>
     (\<forall>c \<in> set (bs_chunks s). c \<noteq> []) \<and> bs_pushed s = bs_popped s + bs_buffered s \<and>
     bs_capacity s \<le> U64_MAX \<and> bs_pushed s \<le> U64_MAX"

text \<open>Appending a chunk to the queue, the effect of a push that accepts it whole.\<close>

definition bs_append :: "ByteStream \<Rightarrow> bytes \<Rightarrow> ByteStream" where
  "bs_append s d =
     (if d = [] then s
      else s\<lparr> bs_chunks := bs_chunks s @ [d], bs_buffered := bs_buffered s + length d,
              bs_pushed := bs_pushed s + length d \<rparr>)"

lemma bs_append_simps [simp]:
  "bs_capacity (bs_append s d) = bs_capacity s"
  "bs_closed (bs_append s d) = bs_closed s"
  "bs_error (bs_append s d) = bs_error s"
  "bs_popped (bs_append s d) = bs_popped s"
  "bs_buffered (bs_append s d) = bs_buffered s + length d"
  "bs_pushed (bs_append s d) = bs_pushed s + length d"
  "bs_contents (bs_append s d) = bs_contents s @ d"
  by (simp_all add: bs_append_def bs_contents_def)

lemma bs_append_Nil [simp]: "bs_append s [] = s"
  by (simp add: bs_append_def)

lemma bs_wf_new: "capacity \<le> U64_MAX \<Longrightarrow> bs_wf (ByteStream_new capacity)"
  by (simp add: bs_wf_def ByteStream_new_def bs_contents_def)

lemma bs_contents_new [simp]: "bs_contents (ByteStream_new capacity) = []"
  by (simp add: ByteStream_new_def bs_contents_def)

lemma bs_wf_close [simp]: "bs_wf (ByteStream_close s) = bs_wf s"
  by (simp add: bs_wf_def ByteStream_close_def bs_contents_def)

lemma bs_wf_set_error [simp]: "bs_wf (ByteStream_set_error s) = bs_wf s"
  by (simp add: bs_wf_def ByteStream_set_error_def bs_contents_def)

lemma bs_contents_flags [simp]:
  "bs_contents (ByteStream_close s) = bs_contents s"
  "bs_contents (ByteStream_set_error s) = bs_contents s"
  by (simp_all add: bs_contents_def ByteStream_close_def ByteStream_set_error_def)

lemma bs_wf_append:
  "bs_wf s \<Longrightarrow> length d \<le> bs_capacity s - bs_buffered s \<Longrightarrow> bs_pushed s + length d \<le> U64_MAX
     \<Longrightarrow> bs_wf (bs_append s d)"
  by (cases "d = []")
    (auto simp: bs_wf_def bs_append_def bs_contents_def)

section \<open>Push and pop\<close>

lemma push_eq:
  assumes "bs_wf s" and "bs_pushed s + min (length d) (bs_room s) \<le> U64_MAX"
  shows "ByteStream_push s d =
           Some (bs_append s (take (bs_room s) d), min (length d) (bs_room s))"
proof -
  have "bs_buffered s + min (length d) (bs_capacity s - bs_buffered s) \<le> U64_MAX"
    using assms(1) by (auto simp: bs_wf_def)
  then show ?thesis
    using assms
    by (auto simp: ByteStream_push_def ByteStream_available_capacity_def bs_room_def bs_wf_def
        bs_append_def Let_def run_simps min_def)
qed

lemma push_wf:
  assumes "bs_wf s" and "bs_pushed s + min (length d) (bs_room s) \<le> U64_MAX"
  shows "bs_wf (bs_append s (take (bs_room s) d))"
  using assms by (intro bs_wf_append) (auto simp: bs_room_def split: if_splits)

lemma pop_spec:
  assumes "bs_wf s"
  shows "\<exists>s' d. ByteStream_pop s n = Some (s', d) \<and> bs_wf s' \<and>
    bs_contents s = d @ bs_contents s' \<and> length d \<le> n \<and>
    bs_popped s' = bs_popped s + length d \<and> bs_pushed s' = bs_pushed s \<and>
    bs_capacity s' = bs_capacity s \<and> bs_closed s' = bs_closed s \<and> bs_error s' = bs_error s \<and>
    bs_buffered s' = bs_buffered s - length d \<and>
    (0 < n \<longrightarrow> bs_contents s \<noteq> [] \<longrightarrow> d \<noteq> []) \<and> (d = [] \<longrightarrow> s' = s)"
proof (cases "bs_chunks s")
  case Nil
  then show ?thesis using assms by (simp add: ByteStream_pop_def bs_contents_def)
next
  case (Cons front rest)
  let ?p = "min n (length front)"
  have front: "front \<noteq> []" "bs_contents s = front @ concat rest"
    using assms Cons by (auto simp: bs_wf_def bs_contents_def)
  show ?thesis
  proof (cases "?p = 0")
    case True
    then have "n = 0" using front(1) by (simp add: min_def split: if_splits)
    have "ByteStream_pop s n = Some (s\<lparr>bs_chunks := front # rest\<rparr>, [])"
      using Cons True by (simp add: ByteStream_pop_def)
    moreover have "s\<lparr>bs_chunks := front # rest\<rparr> = s" using Cons by simp
    ultimately have "ByteStream_pop s n = Some (s, [])" by (simp only:)
    then show ?thesis using assms \<open>n = 0\<close> by simp
  next
    case False
    have "sub64 (bs_buffered s) ?p = Some (bs_buffered s - ?p)"
      and "add64 (bs_popped s) ?p = Some (bs_popped s + ?p)"
      using assms front(2) by (auto simp: bs_wf_def intro!: run_simps)
    with False Cons front assms show ?thesis
      by (cases "?p = length front")
        (auto simp: ByteStream_pop_def Let_def run_simps bs_wf_def bs_contents_def min_def
          split: if_splits)
  qed
qed

section \<open>Sequences of stream operations\<close>

text \<open>
  An execution of a stream: the operations its two ends may call, with the bytes accepted from the
  writer and the bytes handed to the reader recorded.
\<close>

datatype stream_op = SPush bytes | SPop nat | SClose | SSetError

fun stream_step :: "ByteStream \<times> bytes \<times> bytes \<Rightarrow> stream_op \<Rightarrow> (ByteStream \<times> bytes \<times> bytes) run"
where
  "stream_step (s, w, r) (SPush d) =
     do { (s', n) \<leftarrow> ByteStream_push s d; Some (s', w @ take n d, r) }"
| "stream_step (s, w, r) (SPop n) =
     do { (s', d) \<leftarrow> ByteStream_pop s n; Some (s', w, r @ d) }"
| "stream_step (s, w, r) SClose = Some (ByteStream_close s, w, r)"
| "stream_step (s, w, r) SSetError = Some (ByteStream_set_error s, w, r)"

fun stream_inv :: "ByteStream \<times> bytes \<times> bytes \<Rightarrow> bool" where
  "stream_inv (s, w, r) =
     (bs_wf s \<and> w = r @ bs_contents s \<and> bs_pushed s = length w \<and> bs_popped s = length r)"

fun stream_pre :: "ByteStream \<times> bytes \<times> bytes \<Rightarrow> stream_op \<Rightarrow> bool" where
  "stream_pre (s, w, r) (SPush d) = (bs_pushed s + length d \<le> U64_MAX)"
| "stream_pre (s, w, r) _ = True"

fun op_bytes :: "stream_op \<Rightarrow> nat" where
  "op_bytes (SPush d) = length d"
| "op_bytes _ = 0"

lemma stream_step_safe:
  assumes "stream_inv t" and "stream_pre t x"
  shows "\<exists>t'. stream_step t x = Some t' \<and> stream_inv t' \<and>
    bs_pushed (fst t') \<le> bs_pushed (fst t) + op_bytes x \<and>
    bs_capacity (fst t') = bs_capacity (fst t)"
proof -
  obtain s w r where t: "t = (s, w, r)" by (cases t)
  show ?thesis
  proof (cases x)
    case (SPush d)
    have "ByteStream_push s d =
        Some (bs_append s (take (bs_room s) d), min (length d) (bs_room s))"
      using assms t SPush by (intro push_eq) auto
    moreover have "bs_wf (bs_append s (take (bs_room s) d))"
      using assms t SPush by (intro push_wf) auto
    moreover have "take (min (length d) (bs_room s)) d = take (bs_room s) d"
      by (simp add: min_def)
    ultimately show ?thesis using assms t SPush by auto
  next
    case (SPop n)
    then show ?thesis using assms t pop_spec [of s n] by auto
  next
    case SClose
    then show ?thesis using assms t by (simp add: ByteStream_close_def bs_wf_def bs_contents_def)
  next
    case SSetError
    then show ?thesis
      using assms t by (simp add: ByteStream_set_error_def bs_wf_def bs_contents_def)
  qed
qed

interpretation stream: safe_machine stream_step stream_inv stream_pre
proof unfold_locales
  fix s x s'
  assume a: "stream_inv s" "stream_pre s x"
  show "\<exists>s'. stream_step s x = Some s'" using stream_step_safe [OF a] by blast
  assume "stream_step s x = Some s'"
  then show "stream_inv s'" using stream_step_safe [OF a] by auto
qed

lemma stream_enabled:
  "stream_inv t \<Longrightarrow> bs_pushed (fst t) + sum_list (map op_bytes ops) \<le> U64_MAX \<Longrightarrow>
     stream.enabled t ops"
proof (induction ops arbitrary: t)
  case Nil
  then show ?case by simp
next
  case (Cons x ops)
  have pre: "stream_pre t x" using Cons.prems by (cases t; cases x) auto
  then show ?case using Cons stream_step_safe [OF Cons.prems(1) pre] by fastforce
qed

lemma stream_step_capacity:
  "stream_step t x = Some t' \<Longrightarrow> bs_capacity (fst t') = bs_capacity (fst t)"
  by (cases t; cases x)
    (auto simp: ByteStream_push_def ByteStream_pop_def ByteStream_close_def Let_def
      ByteStream_set_error_def split: Option.bind_splits if_splits list.splits)

lemma stream_run_capacity:
  "run_all stream_step t ops = Some t' \<Longrightarrow> bs_capacity (fst t') = bs_capacity (fst t)"
  by (induction ops arbitrary: t)
    (auto simp: stream_step_capacity split: Option.bind_splits)

text \<open>
  C29. A byte stream is a bounded FIFO: whatever sequence of pushes, pops, closes and errors is
  applied to a new stream, nothing panics while fewer than \<open>2\<^sup>6\<^sup>4\<close> bytes are offered; the bytes read
  followed by the bytes still buffered are exactly the bytes accepted, in order; the counters count
  them; and the buffer never exceeds the capacity.
\<close>

theorem byte_stream_fifo:
  assumes "capacity \<le> U64_MAX" and "sum_list (map op_bytes ops) \<le> U64_MAX"
  shows "\<exists>s w r. run_all stream_step (ByteStream_new capacity, [], []) ops = Some (s, w, r) \<and>
    w = r @ bs_contents s \<and> length (bs_contents s) \<le> capacity \<and>
    ByteStream_bytes_pushed s = length w \<and> ByteStream_bytes_popped s = length r \<and>
    ByteStream_bytes_buffered s = length (bs_contents s)"
proof -
  let ?t = "(ByteStream_new capacity, [], [])"
  have inv: "stream_inv ?t"
    using assms(1) by (simp add: bs_wf_new) (simp add: ByteStream_new_def)
  have en: "stream.enabled ?t ops"
    using assms(2) by (intro stream_enabled inv) (simp add: ByteStream_new_def)
  obtain s w r where t': "run_all stream_step ?t ops = Some (s, w, r)" "stream_inv (s, w, r)"
    using stream.run_safe [OF inv en] by (metis prod_cases3)
  moreover have "bs_capacity s = capacity"
    using stream_run_capacity [OF t'(1)] by (simp add: ByteStream_new_def)
  ultimately show ?thesis by (auto simp: bs_wf_def stream_accessors)
qed

theorem byte_stream_fifo_witness:
  "\<exists>s w r. run_all stream_step (ByteStream_new 4, [], []) [SPush [1, 2, 3], SPop 2, SPush [4, 5, 6, 7]]
     = Some (s, w, r) \<and> w = [1, 2, 3, 4, 5, 6] \<and> r = [1, 2] \<and> w = r @ bs_contents s"
  using byte_stream_fifo [of 4 "[SPush [1, 2, 3], SPop 2, SPush [4, 5, 6, 7]]"]
  by (simp add: ByteStream_new_def ByteStream_push_def ByteStream_pop_def Let_def add64_def sub64_def
      ByteStream_available_capacity_def slice_to_def slice_from_def bs_contents_def)

end
