(* ===== verification/Ordered_Map.thy ===== *)
theory Ordered_Map
  imports Prelude
begin

text \<open>
  The part of \<open>std::collections::BTreeMap\<close> the sources use, with \<open>u64\<close> keys: an association list
  with strictly increasing keys. The locale \<open>ordered_map\<close> is its interface; \<open>fragment_map\<close> extends
  it with the facts a client needs that stores byte fragments under their start index.
\<close>

section \<open>Model\<close>

type_synonym 'v btree = "(nat \<times> 'v) list"

definition bt_get :: "'v btree \<Rightarrow> nat \<Rightarrow> 'v option" where
  "bt_get m k = map_of m k"

fun bt_insert :: "nat \<Rightarrow> 'v \<Rightarrow> 'v btree \<Rightarrow> 'v btree" where
  "bt_insert k v [] = [(k, v)]"
| "bt_insert k v ((k', v') # m) =
     (if k < k' then (k, v) # (k', v') # m
      else if k = k' then (k, v) # m
      else (k', v') # bt_insert k v m)"

fun bt_remove :: "nat \<Rightarrow> 'v btree \<Rightarrow> 'v btree" where
  "bt_remove k [] = []"
| "bt_remove k ((k', v') # m) = (if k = k' then m else (k', v') # bt_remove k m)"

text \<open>\<open>first_key_value()\<close>, \<open>range(..=c).next_back()\<close> and \<open>range(a..b).next()\<close>.\<close>

definition bt_first :: "'v btree \<Rightarrow> (nat \<times> 'v) option" where
  "bt_first m = (case m of [] \<Rightarrow> None | e # _ \<Rightarrow> Some e)"

fun bt_prev :: "nat \<Rightarrow> 'v btree \<Rightarrow> (nat \<times> 'v) option" where
  "bt_prev c [] = None"
| "bt_prev c ((k, v) # m) =
     (if k \<le> c then (case bt_prev c m of None \<Rightarrow> Some (k, v) | Some e \<Rightarrow> Some e) else None)"

fun bt_next :: "nat \<Rightarrow> nat \<Rightarrow> 'v btree \<Rightarrow> (nat \<times> 'v) option" where
  "bt_next a b [] = None"
| "bt_next a b ((k, v) # m) =
     (if k < a then bt_next a b m else if k < b then Some (k, v) else None)"

definition bt_sorted :: "'v btree \<Rightarrow> bool" where
  "bt_sorted m = sorted_wrt (<) (map fst m)"

section \<open>The interface\<close>

locale ordered_map =
  fixes get :: "'m \<Rightarrow> nat \<Rightarrow> 'v option"
    and insert :: "nat \<Rightarrow> 'v \<Rightarrow> 'm \<Rightarrow> 'm"
    and remove :: "nat \<Rightarrow> 'm \<Rightarrow> 'm"
    and first :: "'m \<Rightarrow> (nat \<times> 'v) option"
    and prev :: "nat \<Rightarrow> 'm \<Rightarrow> (nat \<times> 'v) option"
    and "next" :: "nat \<Rightarrow> nat \<Rightarrow> 'm \<Rightarrow> (nat \<times> 'v) option"
    and invar :: "'m \<Rightarrow> bool"
  assumes get_insert: "invar m \<Longrightarrow> get (insert k v m) = (get m)(k \<mapsto> v)"
    and get_remove: "invar m \<Longrightarrow> get (remove k m) = (get m)(k := None)"
    and invar_insert: "invar m \<Longrightarrow> invar (insert k v m)"
    and invar_remove: "invar m \<Longrightarrow> invar (remove k m)"
    and first_None: "first m = None \<Longrightarrow> get m = Map.empty"
    and first_Some: "invar m \<Longrightarrow> first m = Some (k, v) \<Longrightarrow>
          get m k = Some v \<and> (\<forall>k'. get m k' \<noteq> None \<longrightarrow> k \<le> k')"
    and prev_None: "invar m \<Longrightarrow> prev c m = None \<Longrightarrow> k \<le> c \<Longrightarrow> get m k = None"
    and prev_Some: "invar m \<Longrightarrow> prev c m = Some (k, v) \<Longrightarrow>
          get m k = Some v \<and> k \<le> c \<and> (\<forall>k' \<le> c. get m k' \<noteq> None \<longrightarrow> k' \<le> k)"
    and next_None: "invar m \<Longrightarrow> next a b m = None \<Longrightarrow> a \<le> k \<Longrightarrow> k < b \<Longrightarrow> get m k = None"
    and next_Some: "invar m \<Longrightarrow> next a b m = Some (k, v) \<Longrightarrow>
          get m k = Some v \<and> a \<le> k \<and> k < b \<and> (\<forall>k'. a \<le> k' \<longrightarrow> k' < k \<longrightarrow> get m k' = None)"

section \<open>Fragments\<close>

text \<open>
  A map of fragments holds non-empty, pairwise disjoint byte strings under their start indices;
  \<open>covered\<close> says that an index lies in one of them.
\<close>

definition frags_ok :: "(nat \<Rightarrow> 'a list option) \<Rightarrow> bool" where
  "frags_ok g \<longleftrightarrow>
     (\<forall>k d. g k = Some d \<longrightarrow> d \<noteq> []) \<and>
     (\<forall>k d k'. g k = Some d \<longrightarrow> g k' \<noteq> None \<longrightarrow> k < k' \<longrightarrow> k + length d \<le> k')"

definition covered :: "(nat \<Rightarrow> 'a list option) \<Rightarrow> nat \<Rightarrow> bool" where
  "covered g i \<longleftrightarrow> (\<exists>k d. g k = Some d \<and> k \<le> i \<and> i < k + length d)"

text \<open>\<open>boundary g c\<close>: no fragment starts before \<open>c\<close> and reaches beyond it.\<close>

definition boundary :: "(nat \<Rightarrow> 'a list option) \<Rightarrow> nat \<Rightarrow> bool" where
  "boundary g c \<longleftrightarrow> (\<forall>k d. g k = Some d \<longrightarrow> k < c \<longrightarrow> k + length d \<le> c)"

lemma frags_ok_empty [simp]: "frags_ok Map.empty"
  by (simp add: frags_ok_def)

lemma covered_empty [simp]: "\<not> covered Map.empty i"
  by (simp add: covered_def)

lemma frags_ok_nonempty: "frags_ok g \<Longrightarrow> g k = Some d \<Longrightarrow> d \<noteq> []"
  by (auto simp: frags_ok_def)

lemma frags_ok_disjoint:
  "frags_ok g \<Longrightarrow> g k = Some d \<Longrightarrow> g k' = Some d' \<Longrightarrow> k < k' \<Longrightarrow> k + length d \<le> k'"
  unfolding frags_ok_def by blast

lemma frags_ok_insert:
  assumes "frags_ok g" and "d \<noteq> []"
    and "\<And>k e. g k = Some e \<Longrightarrow> k \<noteq> c \<Longrightarrow> k + length e \<le> c \<or> c + length d \<le> k"
  shows "frags_ok (g(c \<mapsto> d))"
proof -
  have "k + length x \<le> k'" if "(g(c \<mapsto> d)) k = Some x" "(g(c \<mapsto> d)) k' = Some y" "k < k'" for k k' x y
  proof (cases "k = c \<or> k' = c")
    case True
    then show ?thesis using that assms(3) [of k x] assms(3) [of k' y] by (auto split: if_splits)
  next
    case False
    then have "g k = Some x" and "g k' = Some y" using that by auto
    then show ?thesis using that(3) by (rule frags_ok_disjoint [OF assms(1)])
  qed
  then show ?thesis using assms(1,2) by (auto simp: frags_ok_def)
qed

lemma frags_ok_remove: "frags_ok g \<Longrightarrow> frags_ok (g(c := None))"
  by (auto simp: frags_ok_def)

lemma covered_insert:
  "g c = None \<Longrightarrow> covered (g(c \<mapsto> d)) i \<longleftrightarrow> covered g i \<or> (c \<le> i \<and> i < c + length d)"
  by (auto simp: covered_def)

lemma covered_remove:
  assumes "frags_ok g" and "g c = Some d"
  shows "covered (g(c := None)) i \<longleftrightarrow> covered g i \<and> \<not> (c \<le> i \<and> i < c + length d)"
proof -
  have "\<not> (k \<le> i \<and> i < k + length e \<and> c \<le> i \<and> i < c + length d)"
    if "g k = Some e" "k \<noteq> c" for k e
    using that assms frags_ok_disjoint [OF assms(1), of k e c d] frags_ok_disjoint [OF assms(1), of c d k e]
    by (cases "k < c") auto
  moreover have "k \<noteq> c" if "g k = Some e" "k \<le> i" "i < k + length e" "\<not> (c \<le> i \<and> i < c + length d)" for k e
    using that assms(2) by auto
  ultimately show ?thesis unfolding covered_def fun_upd_apply
    by (metis assms(2) option.distinct(1))
qed

lemma covered_start: "frags_ok g \<Longrightarrow> g k = Some d \<Longrightarrow> covered g k"
  unfolding covered_def frags_ok_def by fastforce

lemma boundary_end:
  assumes "frags_ok g" and "g k = Some d"
  shows "boundary g (k + length d)"
proof -
  have "k' + length d' \<le> k + length d" if "g k' = Some d'" "k' < k + length d" for k' d'
  proof (cases "k' = k")
    case True
    with that assms(2) show ?thesis by simp
  next
    case False
    with that assms have "k' < k" using frags_ok_disjoint [OF assms, of k' d'] by force
    then show ?thesis using frags_ok_disjoint [OF assms(1) that(1) assms(2)] by simp
  qed
  then show ?thesis by (simp add: boundary_def)
qed

locale fragment_map = ordered_map get insert remove first prev "next" invar
  for get :: "'m \<Rightarrow> nat \<Rightarrow> 'a list option"
    and insert remove first prev and "next" :: "nat \<Rightarrow> nat \<Rightarrow> 'm \<Rightarrow> (nat \<times> 'a list) option"
    and invar
begin

text \<open>The first cursor of a scan: past the fragment that covers the start, if there is one.\<close>

lemma scan_start_None:
  assumes "invar m" and "prev c m = None"
  shows "boundary (get m) c" and "get m c = None"
  using prev_None [OF assms] by (auto simp: boundary_def)

lemma scan_start_Some:
  assumes "invar m" and "frags_ok (get m)" and "prev c m = Some (k, d)"
  shows "boundary (get m) (max c (k + length d))"
    and "\<And>i. c \<le> i \<Longrightarrow> i < k + length d \<Longrightarrow> covered (get m) i"
proof -
  note prev = prev_Some [OF assms(1,3)]
  show "boundary (get m) (max c (k + length d))"
  proof (cases "k + length d \<le> c")
    case True
    have "k' + length d' \<le> c" if "get m k' = Some d'" "k' < c" for k' d'
    proof (cases "k' = k")
      case True
      with prev that \<open>k + length d \<le> c\<close> show ?thesis by simp
    next
      case False
      with prev that have "k' < k" by (metis le_neq_implies_less less_imp_le option.distinct(1))
      then show ?thesis using frags_ok_disjoint [OF assms(2) that(1)] prev by fastforce
    qed
    then show ?thesis using True by (simp add: boundary_def max_def)
  next
    case False
    then show ?thesis using boundary_end [OF assms(2)] prev by (simp add: max_def)
  qed
  show "covered (get m) i" if "c \<le> i" "i < k + length d" for i
    unfolding covered_def using that prev by (intro exI [of _ k] exI [of _ d]) simp
qed

text \<open>Between the cursor and the next fragment nothing is stored.\<close>

lemma gap_free:
  assumes "invar m" and "boundary (get m) c" and "next c b m = Some (k, d)"
    and "get m k' = Some d'"
  shows "k' + length d' \<le> c \<or> k \<le> k'"
proof (cases "k' < c")
  case True
  then show ?thesis using assms(2,4) by (auto simp: boundary_def)
next
  case False
  then show ?thesis using next_Some [OF assms(1,3)] assms(4) by (metis not_le option.distinct(1))
qed

lemma gap_free_end:
  assumes "invar m" and "boundary (get m) c" and "next c b m = None" and "get m k' = Some d'"
  shows "k' + length d' \<le> c \<or> b \<le> k'"
proof (cases "k' < c")
  case True
  then show ?thesis using assms(2,4) by (auto simp: boundary_def)
next
  case False
  then show ?thesis using next_None [OF assms(1,3), of k'] assms(4) by force
qed

end

section \<open>Sorted association lists implement the interface\<close>

lemma bt_sorted_Cons [simp]:
  "bt_sorted ((k, v) # m) \<longleftrightarrow> bt_sorted m \<and> (\<forall>k' \<in> fst ` set m. k < k')"
  by (auto simp: bt_sorted_def)

lemma bt_sorted_Nil [simp]: "bt_sorted []"
  by (simp add: bt_sorted_def)

lemma bt_get_Cons [simp]: "bt_get ((k, v) # m) = (bt_get m)(k \<mapsto> v)"
  by (auto simp: bt_get_def)

lemma bt_get_Nil [simp]: "bt_get [] = Map.empty"
  by (auto simp: bt_get_def)

lemma bt_get_in: "bt_get m k = Some v \<Longrightarrow> (k, v) \<in> set m"
  by (auto simp: bt_get_def dest: map_of_SomeD)

lemma bt_get_iff: "bt_sorted m \<Longrightarrow> bt_get m k = Some v \<longleftrightarrow> (k, v) \<in> set m"
  by (induction m) (force simp: bt_get_def)+

lemma bt_get_less: "\<forall>k' \<in> fst ` set m. k < k' \<Longrightarrow> k'' \<le> k \<Longrightarrow> bt_get m k'' = None"
  by (induction m) (auto simp: bt_get_def)

lemma bt_get_insert: "bt_get (bt_insert k v m) = (bt_get m)(k \<mapsto> v)"
  by (induction k v m rule: bt_insert.induct) auto

lemma bt_get_remove: "bt_sorted m \<Longrightarrow> bt_get (bt_remove k m) = (bt_get m)(k := None)"
  by (induction k m rule: bt_remove.induct) (auto simp: fun_eq_iff bt_get_less)

lemma set_bt_insert: "fst ` set (bt_insert k v m) = insert k (fst ` set m)"
  by (induction k v m rule: bt_insert.induct) auto

lemma bt_sorted_insert: "bt_sorted m \<Longrightarrow> bt_sorted (bt_insert k v m)"
  by (induction k v m rule: bt_insert.induct) (auto simp: set_bt_insert)

lemma set_bt_remove: "set (bt_remove k m) \<subseteq> set m"
  by (induction k m rule: bt_remove.induct) auto

lemma bt_sorted_remove: "bt_sorted m \<Longrightarrow> bt_sorted (bt_remove k m)"
  by (induction k m rule: bt_remove.induct) (use set_bt_remove in fastforce)+

lemma bt_prev_None: "bt_sorted m \<Longrightarrow> bt_prev c m = None \<Longrightarrow> k \<le> c \<Longrightarrow> bt_get m k = None"
  by (induction c m rule: bt_prev.induct) (auto simp: bt_get_less split: if_splits option.splits)

lemma bt_prev_Some:
  "bt_sorted m \<Longrightarrow> bt_prev c m = Some (k, v) \<Longrightarrow>
     bt_get m k = Some v \<and> k \<le> c \<and> (\<forall>k' \<le> c. bt_get m k' \<noteq> None \<longrightarrow> k' \<le> k)"
proof (induction c m rule: bt_prev.induct)
  case (1 c)
  then show ?case by simp
next
  case (2 c k0 v0 m)
  show ?case
  proof (cases "bt_prev c m")
    case None
    then show ?thesis using 2 bt_prev_None [of m c] by (auto split: if_splits)
  next
    case (Some e)
    with 2 have "bt_get m k = Some v" and *: "k \<le> c" "\<forall>k' \<le> c. bt_get m k' \<noteq> None \<longrightarrow> k' \<le> k"
      by (auto split: if_splits)
    moreover from this(1) have "k0 < k" using 2(2) bt_get_in by fastforce
    ultimately show ?thesis by auto
  qed
qed

lemma bt_next_None:
  "bt_sorted m \<Longrightarrow> bt_next a b m = None \<Longrightarrow> a \<le> k \<Longrightarrow> k < b \<Longrightarrow> bt_get m k = None"
  by (induction a b m rule: bt_next.induct) (auto simp: bt_get_less split: if_splits)

lemma bt_next_Some:
  "bt_sorted m \<Longrightarrow> bt_next a b m = Some (k, v) \<Longrightarrow>
     bt_get m k = Some v \<and> a \<le> k \<and> k < b \<and> (\<forall>k'. a \<le> k' \<longrightarrow> k' < k \<longrightarrow> bt_get m k' = None)"
proof (induction a b m rule: bt_next.induct)
  case (1 a b)
  then show ?case by simp
next
  case (2 a b k0 v0 m)
  show ?case
  proof (cases "k0 < a")
    case True
    with 2 show ?thesis by auto
  next
    case False
    with 2(2,3) show ?thesis by (auto simp: bt_get_less split: if_splits)
  qed
qed

interpretation bt: fragment_map bt_get bt_insert bt_remove bt_first bt_prev bt_next bt_sorted
proof unfold_locales
  fix m :: "'a list btree" and k v
  show "bt_get m = Map.empty" if "bt_first m = None"
    using that by (cases m) (auto simp: bt_first_def)
  show "bt_get m k = Some v \<and> (\<forall>k'. bt_get m k' \<noteq> None \<longrightarrow> k \<le> k')"
    if "bt_sorted m" "bt_first m = Some (k, v)"
    using that by (cases m) (auto simp: bt_first_def dest!: bt_get_in)
qed (simp_all add: bt_get_insert bt_get_remove bt_sorted_insert bt_sorted_remove bt_prev_None
    bt_prev_Some bt_next_None bt_next_Some)

text \<open>The fragments of a sorted map fit between its bounds.\<close>

lemma bt_total_length:
  assumes "bt_sorted m" and "frags_ok (bt_get m)"
    and "\<And>k d. (k, d) \<in> set m \<Longrightarrow> lo \<le> k \<and> k + length d \<le> hi" and "lo \<le> hi"
  shows "lo + sum_list (map (\<lambda>e. length (snd e)) m) \<le> hi"
  using assms
proof (induction m arbitrary: lo)
  case Nil
  then show ?case by simp
next
  case (Cons e m)
  obtain k d where e: "e = (k, d)" by (cases e)
  have notin: "bt_get m k = None"
    using Cons.prems(1) e by (intro bt_get_less [of _ k]) auto
  have ok: "frags_ok (bt_get m)"
  proof -
    have "(bt_get (e # m))(k := None) = bt_get m" using notin e by auto
    then show ?thesis using frags_ok_remove [OF Cons.prems(2), of k] by simp
  qed
  have "k + length d \<le> k'" if "(k', d') \<in> set m" for k' d'
    using that Cons.prems(1,2) e by (intro frags_ok_disjoint [OF Cons.prems(2)])
      (force simp: bt_get_iff)+
  then have "(k + length d) + sum_list (map (\<lambda>e. length (snd e)) m) \<le> hi"
    using Cons.prems ok e by (intro Cons.IH) auto
  moreover have "lo \<le> k" using Cons.prems(3) e by auto
  ultimately show ?case using e by simp
qed

end
