(* ===== verification/Stream_Reassembler.thy ===== *)
theory Stream_Reassembler
  imports Byte_Stream Ordered_Map
begin

text \<open>
  \<open>src/reassembler.rs\<close>: the reassembler of a TCP byte stream. It keeps an output stream, the
  fragments received out of order in an ordered map under their stream index, and the index of the
  end of the stream once it is known. The debug assertions of the source are part of the model: a
  failed one is a panic.
\<close>

section \<open>Model\<close>

datatype ReassemblerError =
    IndexOverflow
  | InconsistentEof nat nat \<comment> \<open>existing, received\<close>
  | SegmentBeyondEof nat nat nat \<comment> \<open>eof, segment start, segment end\<close>
  | BufferedDataBeyondEof nat nat \<comment> \<open>eof, buffered end\<close>

fun ReassemblerError_fmt :: "ReassemblerError \<Rightarrow> string" where
  "ReassemblerError_fmt IndexOverflow = ''reassembler index calculation overflowed''"
| "ReassemblerError_fmt (InconsistentEof ex rc) =
     ''inconsistent EOF indices: existing='' @ string_of_nat ex @ '', received='' @ string_of_nat rc"
| "ReassemblerError_fmt (SegmentBeyondEof e st en) =
     ''segment ['' @ string_of_nat st @ '', '' @ string_of_nat en @ '') extends beyond EOF ''
       @ string_of_nat e"
| "ReassemblerError_fmt (BufferedDataBeyondEof e be) =
     ''buffered data ends at '' @ string_of_nat be @ '', beyond EOF '' @ string_of_nat e"

record Reassembler =
  ra_output :: ByteStream
  ra_pending :: "bytes btree"
  ra_eof :: "nat option"

definition Reassembler_bytes_pending :: "Reassembler \<Rightarrow> nat" where
  "Reassembler_bytes_pending self = sum_list (map (\<lambda>e. length (snd e)) (ra_pending self))"

text \<open>\<open>debug_check_invariants\<close>: the loop over the pending fragments, then the joint capacity and EOF.\<close>

fun pending_invariants :: "nat \<Rightarrow> nat \<Rightarrow> nat option \<Rightarrow> nat option \<Rightarrow> bytes btree \<Rightarrow> bool" where
  "pending_invariants first_unassembled first_unacceptable eof_index previous_end [] = True"
| "pending_invariants first_unassembled first_unacceptable eof_index previous_end ((start, data) # m) =
     (let stop = saturating_add start (length data) in
      data \<noteq> [] \<and> first_unassembled \<le> start \<and> stop \<le> first_unacceptable \<and>
      (case previous_end of None \<Rightarrow> True | Some pe \<Rightarrow> pe \<le> start) \<and>
      (case eof_index of None \<Rightarrow> True | Some e \<Rightarrow> stop \<le> e) \<and>
      pending_invariants first_unassembled first_unacceptable eof_index (Some stop) m)"

definition Reassembler_debug_check_invariants :: "Reassembler \<Rightarrow> unit run" where
  "Reassembler_debug_check_invariants self =
     (let out = ra_output self;
          first_unassembled = ByteStream_bytes_pushed out;
          first_unacceptable =
            saturating_add (ByteStream_bytes_popped out) (ByteStream_capacity out)
      in ensure
        (pending_invariants first_unassembled first_unacceptable (ra_eof self) None (ra_pending self) \<and>
         saturating_add (ByteStream_bytes_buffered out) (Reassembler_bytes_pending self)
           \<le> ByteStream_capacity out \<and>
         (case ra_eof self of None \<Rightarrow> True
          | Some eof_index \<Rightarrow> ByteStream_bytes_pushed out \<le> eof_index)))"

definition Reassembler_new :: "nat \<Rightarrow> Reassembler run" where
  "Reassembler_new capacity = do {
     let reassembler = \<lparr> ra_output = ByteStream_new capacity, ra_pending = [], ra_eof = None \<rparr>;
     _ \<leftarrow> Reassembler_debug_check_invariants reassembler;
     Some reassembler
   }"

definition Reassembler_insert_gap ::
  "Reassembler \<Rightarrow> nat \<Rightarrow> bytes \<Rightarrow> nat \<Rightarrow> nat \<Rightarrow> Reassembler run" where
  "Reassembler_insert_gap self original_start original_data gap_start gap_end =
     (if gap_start \<ge> gap_end then Some self
      else do {
        slice_start \<leftarrow> sub64 gap_start original_start;
        slice_end \<leftarrow> sub64 gap_end original_start;
        gap \<leftarrow> slice slice_start slice_end original_data;
        let previous = bt_get (ra_pending self) gap_start;
        let self = self\<lparr> ra_pending := bt_insert gap_start gap (ra_pending self) \<rparr>;
        _ \<leftarrow> ensure (previous = None);
        Some self
      })"

text \<open>The \<open>while cursor < end\<close> loop of \<open>insert_missing_gaps\<close>. It ends on a well-formed pending map.\<close>

partial_function (option) Reassembler_gap_loop ::
  "Reassembler \<Rightarrow> nat \<Rightarrow> bytes \<Rightarrow> nat \<Rightarrow> nat \<Rightarrow> Reassembler run" where
  "Reassembler_gap_loop self start data stop cursor =
     (if cursor < stop then
        (case bt_next cursor stop (ra_pending self) of
           Some (next_start, next_data) \<Rightarrow> do {
             let next_end = saturating_add next_start (length next_data);
             self \<leftarrow> (if cursor < next_start
                       then Reassembler_insert_gap self start data cursor next_start
                       else Some self);
             Reassembler_gap_loop self start data stop (min (max cursor next_end) stop)
           }
         | None \<Rightarrow> Reassembler_insert_gap self start data cursor stop)
      else Some self)"

declare Reassembler_gap_loop.simps [code]

definition Reassembler_insert_missing_gaps :: "Reassembler \<Rightarrow> nat \<Rightarrow> bytes \<Rightarrow> Reassembler run" where
  "Reassembler_insert_missing_gaps self start data =
     (if data = [] then Some self
      else do {
        stop \<leftarrow> add64 start (length data);
        let cursor = start;
        let cursor =
          (case bt_prev cursor (ra_pending self) of
             Some (previous_start, previous_data) \<Rightarrow>
               (let previous_end = saturating_add previous_start (length previous_data) in
                if previous_end > cursor then min previous_end stop else cursor)
           | None \<Rightarrow> cursor);
        Reassembler_gap_loop self start data stop cursor
      })"

definition Reassembler_trim_stale_prefix :: "Reassembler \<Rightarrow> nat \<Rightarrow> nat \<Rightarrow> Reassembler run" where
  "Reassembler_trim_stale_prefix self start next_required = do {
     data \<leftarrow> bt_get (ra_pending self) start;
     let self = self\<lparr> ra_pending := bt_remove start (ra_pending self) \<rparr>;
     let stop = saturating_add start (length data);
     if stop \<le> next_required then Some self
     else do {
       suffix_start \<leftarrow> sub64 next_required start;
       suffix \<leftarrow> slice_from suffix_start data;
       Some (self\<lparr> ra_pending := bt_insert next_required suffix (ra_pending self) \<rparr>)
     }
   }"

text \<open>The \<open>loop\<close> of \<open>flush_contiguous\<close>.\<close>

partial_function (option) Reassembler_flush_contiguous :: "Reassembler \<Rightarrow> Reassembler run" where
  "Reassembler_flush_contiguous self =
     (let next_required = ByteStream_bytes_pushed (ra_output self) in
      case bt_first (ra_pending self) of
        None \<Rightarrow> Some self
      | Some (start, _) \<Rightarrow>
          (if start < next_required then do {
             self \<leftarrow> Reassembler_trim_stale_prefix self start next_required;
             Reassembler_flush_contiguous self
           }
           else if start \<noteq> next_required then Some self
           else do {
             data \<leftarrow> bt_get (ra_pending self) start;
             let self = self\<lparr> ra_pending := bt_remove start (ra_pending self) \<rparr>;
             (out, accepted) \<leftarrow> ByteStream_push (ra_output self) data;
             let self = self\<lparr> ra_output := out \<rparr>;
             _ \<leftarrow> ensure (accepted \<le> length data);
             if accepted < length data then do {
               remainder_start \<leftarrow> add64 start accepted;
               remainder \<leftarrow> slice_from accepted data;
               Some (self\<lparr> ra_pending := bt_insert remainder_start remainder (ra_pending self) \<rparr>)
             }
             else Reassembler_flush_contiguous self
           }))"

declare Reassembler_flush_contiguous.simps [code]

fun pending_within_eof :: "nat \<Rightarrow> bytes btree \<Rightarrow> ReassemblerError + unit" where
  "pending_within_eof received_eof [] = Inr ()"
| "pending_within_eof received_eof ((start, data) # m) =
     (case add64 start (length data) of
        None \<Rightarrow> Inl IndexOverflow
      | Some stop \<Rightarrow>
          (if stop > received_eof then Inl (BufferedDataBeyondEof received_eof stop)
           else pending_within_eof received_eof m))"

definition Reassembler_record_and_validate_eof ::
  "Reassembler \<Rightarrow> nat \<Rightarrow> bool \<Rightarrow> ReassemblerError + Reassembler" where
  "Reassembler_record_and_validate_eof self received_eof is_last_substring =
     (if \<not> is_last_substring then Inr self
      else case ra_eof self of
        Some existing \<Rightarrow>
          (if existing \<noteq> received_eof then Inl (InconsistentEof existing received_eof) else Inr self)
      | None \<Rightarrow>
          (if ByteStream_bytes_pushed (ra_output self) > received_eof
           then Inl (BufferedDataBeyondEof received_eof (ByteStream_bytes_pushed (ra_output self)))
           else case pending_within_eof received_eof (ra_pending self) of
             Inl e \<Rightarrow> Inl e
           | Inr _ \<Rightarrow> Inr (self\<lparr> ra_eof := Some received_eof \<rparr>)))"

definition Reassembler_close_if_complete :: "Reassembler \<Rightarrow> Reassembler" where
  "Reassembler_close_if_complete self =
     (case ra_eof self of
        Some eof_index \<Rightarrow>
          (if ByteStream_bytes_pushed (ra_output self) = eof_index
           then self\<lparr> ra_output := ByteStream_close (ra_output self) \<rparr> else self)
      | None \<Rightarrow> self)"

text \<open>The part of \<open>try_insert\<close> after the EOF checks: clip to the window, store, flush, close.\<close>

definition Reassembler_store :: "Reassembler \<Rightarrow> nat \<Rightarrow> bytes \<Rightarrow> nat \<Rightarrow> Reassembler run" where
  "Reassembler_store self first_index data original_end = do {
     let first_unassembled = ByteStream_bytes_pushed (ra_output self);
     let first_unacceptable = saturating_add (ByteStream_bytes_popped (ra_output self))
           (ByteStream_capacity (ra_output self));
     let clipped_start = max first_index first_unassembled;
     let clipped_end = min original_end first_unacceptable;
     self \<leftarrow> (if clipped_start < clipped_end then do {
         data_start \<leftarrow> sub64 clipped_start first_index;
         data_end \<leftarrow> sub64 clipped_end first_index;
         clipped_data \<leftarrow> slice data_start data_end data;
         self \<leftarrow> (if clipped_start = ByteStream_bytes_pushed (ra_output self)
                   then do { (out, _) \<leftarrow> ByteStream_push (ra_output self) clipped_data;
                             Some (self\<lparr> ra_output := out \<rparr>) }
                   else Reassembler_insert_missing_gaps self clipped_start clipped_data);
         Reassembler_flush_contiguous self
       } else Some self);
     let self = Reassembler_close_if_complete self;
     _ \<leftarrow> Reassembler_debug_check_invariants self;
     Some self
   }"

definition Reassembler_try_insert ::
  "Reassembler \<Rightarrow> nat \<Rightarrow> bytes \<Rightarrow> bool \<Rightarrow> (Reassembler \<times> (ReassemblerError + unit)) run" where
  "Reassembler_try_insert self first_index data is_last_substring =
     (case add64 first_index (length data) of
        None \<Rightarrow> Some (self, Inl IndexOverflow)
      | Some original_end \<Rightarrow>
          (case Reassembler_record_and_validate_eof self original_end is_last_substring of
             Inl e \<Rightarrow> Some (self, Inl e)
           | Inr self \<Rightarrow>
               (if (case ra_eof self of None \<Rightarrow> False | Some eof_index \<Rightarrow> original_end > eof_index)
                then Some (self,
                       Inl (SegmentBeyondEof (the (ra_eof self)) first_index original_end))
                else do {
                  self \<leftarrow> Reassembler_store self first_index data original_end;
                  Some (self, Inr ())
                })))"

definition Reassembler_insert :: "Reassembler \<Rightarrow> nat \<Rightarrow> bytes \<Rightarrow> bool \<Rightarrow> Reassembler run" where
  "Reassembler_insert self first_index data is_last_substring = do {
     (self, result) \<leftarrow> Reassembler_try_insert self first_index data is_last_substring;
     (case result of Inl _ \<Rightarrow> None | Inr _ \<Rightarrow> Some self)
   }"

section \<open>Filling the gaps between the stored fragments\<close>

text \<open>\<open>d\<close> is the piece of \<open>data\<close> (which starts at index \<open>start\<close>) at index \<open>k\<close>, within \<open>a..b\<close>.\<close>

definition piece_of :: "nat \<Rightarrow> bytes \<Rightarrow> nat \<Rightarrow> nat \<Rightarrow> nat \<Rightarrow> bytes \<Rightarrow> bool" where
  "piece_of start data a b k d \<longleftrightarrow>
     a \<le> k \<and> k + length d \<le> b \<and> d = take (length d) (drop (k - start) data)"

lemma piece_of_mono: "piece_of start data a b k d \<Longrightarrow> a' \<le> a \<Longrightarrow> b \<le> b' \<Longrightarrow> piece_of start data a' b' k d"
  by (auto simp: piece_of_def)

lemma insert_gap_spec:
  fixes r :: Reassembler
  defines "g \<equiv> bt_get (ra_pending r)"
  assumes "bt_sorted (ra_pending r)" and "frags_ok g"
    and "start \<le> a" and "a < b" and "b \<le> start + length data"
    and free: "\<And>k d. g k = Some d \<Longrightarrow> k + length d \<le> a \<or> b \<le> k"
  shows "\<exists>m. Reassembler_insert_gap r start data a b = Some (r\<lparr>ra_pending := m\<rparr>) \<and>
    bt_sorted m \<and> frags_ok (bt_get m) \<and>
    bt_get m = g(a \<mapsto> take (b - a) (drop (a - start) data)) \<and>
    (\<forall>i. covered (bt_get m) i \<longleftrightarrow> covered g i \<or> (a \<le> i \<and> i < b))"
proof -
  let ?gap = "take (b - a) (drop (a - start) data)"
  let ?m = "bt_insert a ?gap (ra_pending r)"
  have len: "length ?gap = b - a" using assms(4-6) by simp
  have none: "g a = None"
    using free [of a] frags_ok_nonempty [OF assms(3)] assms(5) by (cases "g a") fastforce+
  have "slice (a - start) (b - start) data = Some ?gap"
    using assms(4-6) by (simp add: slice_def le_diff_conv diff_le_mono)
  then have "Reassembler_insert_gap r start data a b = Some (r\<lparr>ra_pending := ?m\<rparr>)"
    using assms(4-6) none unfolding g_def
    by (simp add: Reassembler_insert_gap_def run_simps Let_def)
  moreover have get: "bt_get ?m = g(a \<mapsto> ?gap)"
    using assms(2) by (simp add: bt.get_insert g_def)
  moreover have "frags_ok (g(a \<mapsto> ?gap))"
    using assms(3) len assms(5) free by (intro frags_ok_insert) force+
  moreover have "covered (g(a \<mapsto> ?gap)) i \<longleftrightarrow> covered g i \<or> (a \<le> i \<and> i < b)" for i
    using covered_insert [where g = g, OF none, of ?gap i] len assms(5) by auto
  ultimately show ?thesis using assms(2) by (auto simp: bt.invar_insert simp del: fun_upd_apply)
qed

text \<open>One iteration that meets a stored fragment: the gap before it is filled, the cursor moves past it.\<close>

lemma gap_loop_step:
  fixes r :: Reassembler and start cursor :: nat and data :: bytes
  defines "g \<equiv> bt_get (ra_pending r)" and "stop \<equiv> start + length data"
  assumes "bt_sorted (ra_pending r)" and "frags_ok g" and "boundary g cursor"
    and "start \<le> cursor" and "cursor < stop"
    and bound: "\<And>k d. g k = Some d \<Longrightarrow> k + length d \<le> U64_MAX"
    and nxt: "bt_next cursor stop (ra_pending r) = Some (ns, nd)"
  shows "\<exists>m. Reassembler_gap_loop r start data stop cursor =
      Reassembler_gap_loop (r\<lparr>ra_pending := m\<rparr>) start data stop (min (ns + length nd) stop) \<and>
    bt_sorted m \<and> frags_ok (bt_get m) \<and> bt_get m ns = Some nd \<and>
    (\<forall>k d. bt_get m k = Some d \<longrightarrow> g k = Some d \<or> piece_of start data cursor stop k d) \<and>
    (\<forall>i. covered (bt_get m) i \<longleftrightarrow> covered g i \<or> (cursor \<le> i \<and> i < ns))"
proof -
  note next_ = bt.next_Some [OF assms(3) nxt]
  have ns: "g ns = Some nd" "cursor \<le> ns" "ns < stop" using next_ by (auto simp: g_def)
  have nd: "nd \<noteq> []" using frags_ok_nonempty [OF assms(4) ns(1)] .
  have unfold: "Reassembler_gap_loop r start data stop cursor =
      (if cursor < ns then Reassembler_insert_gap r start data cursor ns else Some r) \<bind>
      (\<lambda>self. Reassembler_gap_loop self start data stop (min (ns + length nd) stop))"
    using assms(7) nxt bound [OF ns(1)] ns nd
    by (subst Reassembler_gap_loop.simps) (simp add: run_simps Let_def max_def)
  show ?thesis
  proof (cases "cursor < ns")
    case True
    obtain m where m: "Reassembler_insert_gap r start data cursor ns = Some (r\<lparr>ra_pending := m\<rparr>)"
      "bt_sorted m" "frags_ok (bt_get m)"
      "bt_get m = g(cursor \<mapsto> take (ns - cursor) (drop (cursor - start) data))"
      "\<forall>i. covered (bt_get m) i \<longleftrightarrow> covered g i \<or> (cursor \<le> i \<and> i < ns)"
      using insert_gap_spec [of r start cursor ns data] assms(3,4,6,7) True ns
        bt.gap_free [OF assms(3) _ nxt, folded g_def, OF assms(5)]
      by (auto simp: g_def stop_def)
    moreover have "piece_of start data cursor stop cursor (take (ns - cursor) (drop (cursor - start) data))"
      using ns(2,3) assms(6) by (simp add: piece_of_def stop_def)
    ultimately show ?thesis using unfold True ns(1) by (intro exI [of _ m]) (auto split: if_splits)
  next
    case False
    then show ?thesis using unfold assms(3,4) ns(1,2)
      by (intro exI [of _ "ra_pending r"]) (auto simp: g_def)
  qed
qed

lemma gap_loop_last:
  fixes r :: Reassembler and start cursor :: nat and data :: bytes
  defines "g \<equiv> bt_get (ra_pending r)" and "stop \<equiv> start + length data"
  assumes "bt_sorted (ra_pending r)" and "frags_ok g" and "boundary g cursor" and "start \<le> cursor" and "cursor < stop"
    and "bt_next cursor stop (ra_pending r) = None"
  shows "\<exists>m. Reassembler_gap_loop r start data stop cursor = Some (r\<lparr>ra_pending := m\<rparr>) \<and>
    bt_sorted m \<and> frags_ok (bt_get m) \<and>
    (\<forall>k d. bt_get m k = Some d \<longrightarrow> g k = Some d \<or> piece_of start data cursor stop k d) \<and>
    (\<forall>i. covered (bt_get m) i \<longleftrightarrow> covered g i \<or> (cursor \<le> i \<and> i < stop))"
proof -
  have "Reassembler_gap_loop r start data stop cursor = Reassembler_insert_gap r start data cursor stop"
    using assms(7,8) by (simp add: Reassembler_gap_loop.simps)
  moreover obtain m where "Reassembler_insert_gap r start data cursor stop = Some (r\<lparr>ra_pending := m\<rparr>)"
    "bt_sorted m" "frags_ok (bt_get m)"
    "bt_get m = g(cursor \<mapsto> take (stop - cursor) (drop (cursor - start) data))"
    "\<forall>i. covered (bt_get m) i \<longleftrightarrow> covered g i \<or> (cursor \<le> i \<and> i < stop)"
    using insert_gap_spec [of r start cursor stop data] assms(3-7)
      bt.gap_free_end [OF assms(3) assms(5) [unfolded g_def] assms(8)] by (auto simp: stop_def g_def)
  ultimately show ?thesis
    using assms(6,7) by (intro exI [of _ m]) (auto simp: piece_of_def stop_def)
qed

text \<open>Filling up to a fragment at \<open>ns\<close> and then from its end is filling everything.\<close>

lemma filled_trans:
  fixes g m m' :: "nat \<Rightarrow> bytes option"
  assumes "g ns = Some nd" and "cursor \<le> ns" and "ns < stop" and "cursor \<le> c" and "c = min (ns + length nd) stop"
    and "\<forall>k d. m k = Some d \<longrightarrow> g k = Some d \<or> piece_of start data cursor stop k d"
    and "\<forall>i. covered m i \<longleftrightarrow> covered g i \<or> (cursor \<le> i \<and> i < ns)"
    and "\<forall>k d. m' k = Some d \<longrightarrow> m k = Some d \<or> piece_of start data c stop k d"
    and "\<forall>i. covered m' i \<longleftrightarrow> covered m i \<or> (c \<le> i \<and> i < stop)"
  shows "m' k = Some d \<Longrightarrow> g k = Some d \<or> piece_of start data cursor stop k d"
    and "covered m' i \<longleftrightarrow> covered g i \<or> (cursor \<le> i \<and> i < stop)"
proof -
  show "g k = Some d \<or> piece_of start data cursor stop k d" if "m' k = Some d"
    using assms(4,6,8) that piece_of_mono [of start data c stop k d cursor stop] by auto
  have "covered g i" if "ns \<le> i" "i < ns + length nd" for i
    using assms(1) that by (auto simp: covered_def)
  then show "covered m' i \<longleftrightarrow> covered g i \<or> (cursor \<le> i \<and> i < stop)"
    using assms(2,3,5,7,9) by (auto simp: min_def split: if_splits)
qed

lemma gap_loop_spec:
  fixes r :: Reassembler and start cursor :: nat and data :: bytes
  defines "g \<equiv> bt_get (ra_pending r)" and "stop \<equiv> start + length data"
  assumes "bt_sorted (ra_pending r)" and "frags_ok g" and "cursor < stop \<Longrightarrow> boundary g cursor"
    and "start \<le> cursor" and "cursor \<le> stop"
    and "\<And>k d. g k = Some d \<Longrightarrow> k + length d \<le> U64_MAX" and stop_max: "stop \<le> U64_MAX"
  shows "\<exists>m. Reassembler_gap_loop r start data stop cursor = Some (r\<lparr>ra_pending := m\<rparr>) \<and>
    bt_sorted m \<and> frags_ok (bt_get m) \<and>
    (\<forall>k d. bt_get m k = Some d \<longrightarrow> g k = Some d \<or> piece_of start data cursor stop k d) \<and>
    (\<forall>i. covered (bt_get m) i \<longleftrightarrow> covered g i \<or> (cursor \<le> i \<and> i < stop))"
  using assms(3-8) unfolding g_def
proof (induction "stop - cursor" arbitrary: r cursor rule: less_induct)
  case less
  let ?g = "bt_get (ra_pending r)"
  show ?case
  proof (cases "cursor < stop")
    case False
    then have "Reassembler_gap_loop r start data stop cursor = Some (r\<lparr>ra_pending := ra_pending r\<rparr>)"
      by (simp add: Reassembler_gap_loop.simps)
    then show ?thesis using less.prems False by (intro exI [of _ "ra_pending r"]) auto
  next
    case True
    note bnd = less.prems(3) [OF True]
    show ?thesis
    proof (cases "bt_next cursor stop (ra_pending r)")
      case None
      then show ?thesis using gap_loop_last [of r cursor start data] less.prems(1,2,4) True bnd by (simp add: stop_def)
    next
      case (Some nx)
      obtain ns nd where nx: "nx = (ns, nd)" by (cases nx)
      have ns: "?g ns = Some nd" "cursor \<le> ns" "ns < stop"
        using bt.next_Some [OF less.prems(1) Some [unfolded nx]] by auto
      have nd: "nd \<noteq> []" using frags_ok_nonempty [OF less.prems(2) ns(1)] .
      let ?c = "min (ns + length nd) stop"
      obtain m where m: "Reassembler_gap_loop r start data stop cursor =
          Reassembler_gap_loop (r\<lparr>ra_pending := m\<rparr>) start data stop ?c"
        "bt_sorted m" "frags_ok (bt_get m)" "bt_get m ns = Some nd"
        "\<forall>k d. bt_get m k = Some d \<longrightarrow> ?g k = Some d \<or> piece_of start data cursor stop k d"
        "\<forall>i. covered (bt_get m) i \<longleftrightarrow> covered ?g i \<or> (cursor \<le> i \<and> i < ns)"
        using gap_loop_step [of r cursor start data ns nd] less.prems(1,2,4,6) True bnd Some nx
        by (auto simp: stop_def)
      have bound: "k + length d \<le> U64_MAX" if "bt_get m k = Some d" for k d
        using m(5) [rule_format, OF that] less.prems(6) [of k d] stop_max by (auto simp: piece_of_def)
      have c1: "stop - ?c < stop - cursor"
        using ns(2,3) nd [folded length_greater_0_conv] by linarith
      have c: "start \<le> ?c" "?c \<le> stop" "?c < stop \<Longrightarrow> boundary (bt_get m) ?c"
        using ns(2,3) less.prems(4) boundary_end [OF m(3,4)] by (auto simp: min_def)
      obtain m' where m': "Reassembler_gap_loop (r\<lparr>ra_pending := m\<rparr>) start data stop ?c =
          Some (r\<lparr>ra_pending := m'\<rparr>)" "bt_sorted m'" "frags_ok (bt_get m')"
        "\<forall>k d. bt_get m' k = Some d \<longrightarrow> bt_get m k = Some d \<or> piece_of start data ?c stop k d"
        "\<forall>i. covered (bt_get m') i \<longleftrightarrow> covered (bt_get m) i \<or> (?c \<le> i \<and> i < stop)"
        using less.hyps [OF c1, of "r\<lparr>ra_pending := m\<rparr>"] m(2,3) c bound by auto
      have "cursor \<le> ?c" using ns(2,3) by simp
      note t = filled_trans [OF ns this refl m(5,6) m'(4,5)]
      show ?thesis using m(1) m'(1-3) t by auto
    qed
  qed
qed

lemma insert_missing_gaps_spec:
  fixes r :: Reassembler and start :: nat and data :: bytes
  defines "g \<equiv> bt_get (ra_pending r)" and "stop \<equiv> start + length data"
  assumes "bt_sorted (ra_pending r)" and "frags_ok g" and "data \<noteq> []" and "stop \<le> U64_MAX"
    and bound: "\<And>k d. g k = Some d \<Longrightarrow> k + length d \<le> U64_MAX"
  shows "\<exists>m. Reassembler_insert_missing_gaps r start data = Some (r\<lparr>ra_pending := m\<rparr>) \<and>
    bt_sorted m \<and> frags_ok (bt_get m) \<and>
    (\<forall>k d. bt_get m k = Some d \<longrightarrow> g k = Some d \<or> piece_of start data start stop k d) \<and>
    (\<forall>i. covered (bt_get m) i \<longleftrightarrow> covered g i \<or> (start \<le> i \<and> i < stop))"
proof -
  have "\<exists>c. Reassembler_insert_missing_gaps r start data = Reassembler_gap_loop r start data stop c \<and>
      start \<le> c \<and> c \<le> stop \<and> (c < stop \<longrightarrow> boundary g c) \<and> (\<forall>i. start \<le> i \<longrightarrow> i < c \<longrightarrow> covered g i)"
  proof (cases "bt_prev start (ra_pending r)")
    case None
    then show ?thesis
      using assms(5,6) bt.scan_start_None [OF assms(3) None]
      by (intro exI [of _ start]) (simp add: Reassembler_insert_missing_gaps_def stop_def add64_def g_def)
  next
    case (Some e)
    obtain k d where e: "e = (k, d)" by (cases e)
    note prev = bt.prev_Some [OF assms(3) Some [unfolded e]]
    note scan = bt.scan_start_Some [OF assms(3) assms(4) [unfolded g_def] Some [unfolded e], folded g_def]
    have "saturating_add k (length d) = k + length d"
      using bound [of k d] prev by (simp add: g_def run_simps)
    then show ?thesis
      using assms(5,6) Some e scan
      by (intro exI [of _ "if k + length d > start then min (k + length d) stop else start"])
        (auto simp: Reassembler_insert_missing_gaps_def stop_def add64_def Let_def max_def min_def
          split: if_splits)
  qed
  then obtain c where c: "Reassembler_insert_missing_gaps r start data = Reassembler_gap_loop r start data stop c"
    "start \<le> c" "c \<le> stop" "c < stop \<longrightarrow> boundary g c" "\<And>i. start \<le> i \<Longrightarrow> i < c \<Longrightarrow> covered g i"
    by blast
  obtain m where m: "Reassembler_gap_loop r start data stop c = Some (r\<lparr>ra_pending := m\<rparr>)"
    "bt_sorted m" "frags_ok (bt_get m)"
    "\<forall>k d. bt_get m k = Some d \<longrightarrow> g k = Some d \<or> piece_of start data c stop k d"
    "\<forall>i. covered (bt_get m) i \<longleftrightarrow> covered g i \<or> (c \<le> i \<and> i < stop)"
    using gap_loop_spec [of r c start data] assms(3,4,6) c(2-4) bound by (auto simp: g_def stop_def)
  have "g k = Some d \<or> piece_of start data start stop k d" if "bt_get m k = Some d" for k d
    using m(4) that c(2) piece_of_mono [of start data c stop k d start stop] by auto
  moreover have "covered (bt_get m) i \<longleftrightarrow> covered g i \<or> (start \<le> i \<and> i < stop)" for i
    using m(5) c(2,3) c(5) [of i] by (cases "i < c") auto
  ultimately show ?thesis using c(1) m(1-3) by auto
qed

section \<open>Flushing\<close>

text \<open>\<open>byte_at g i b\<close>: a fragment of \<open>g\<close> stores the byte \<open>b\<close> at stream index \<open>i\<close>.\<close>

definition byte_at :: "(nat \<Rightarrow> bytes option) \<Rightarrow> nat \<Rightarrow> byte \<Rightarrow> bool" where
  "byte_at g i b \<longleftrightarrow> (\<exists>k d. g k = Some d \<and> k \<le> i \<and> i < k + length d \<and> d ! (i - k) = b)"

lemma covered_byte_at: "covered g i \<longleftrightarrow> (\<exists>b. byte_at g i b)"
  by (auto simp: covered_def byte_at_def)

abbreviation frags :: "Reassembler \<Rightarrow> nat \<Rightarrow> bytes option" where
  "frags r \<equiv> bt_get (ra_pending r)"

abbreviation pushed :: "Reassembler \<Rightarrow> nat" where
  "pushed r \<equiv> bs_pushed (ra_output r)"

text \<open>The first index beyond the receive window.\<close>

definition window_end :: "Reassembler \<Rightarrow> nat" where
  "window_end r = min (bs_popped (ra_output r) + bs_capacity (ra_output r)) U64_MAX"

definition stored_ok :: "Reassembler \<Rightarrow> bool" where
  "stored_ok r \<longleftrightarrow> bs_wf (ra_output r) \<and> bt_sorted (ra_pending r) \<and> frags_ok (frags r) \<and>
     (\<forall>k d. frags r k = Some d \<longrightarrow> k + length d \<le> window_end r)"

text \<open>
  \<open>advances r r'\<close>: \<open>r'\<close> has moved bytes from the front of the fragments of \<open>r\<close> to the output and
  keeps all that lies beyond.
\<close>

definition advances :: "Reassembler \<Rightarrow> Reassembler \<Rightarrow> bool" where
  "advances r r' \<longleftrightarrow> stored_ok r' \<and> ra_eof r' = ra_eof r \<and>
     bs_capacity (ra_output r') = bs_capacity (ra_output r) \<and>
     bs_popped (ra_output r') = bs_popped (ra_output r) \<and>
     bs_closed (ra_output r') = bs_closed (ra_output r) \<and>
     bs_error (ra_output r') = bs_error (ra_output r) \<and>
     (\<exists>add. bs_contents (ra_output r') = bs_contents (ra_output r) @ add \<and>
        pushed r' = pushed r + length add \<and>
        (\<forall>i < length add. byte_at (frags r) (pushed r + i) (add ! i))) \<and>
     (\<forall>i b. pushed r' \<le> i \<longrightarrow> byte_at (frags r') i b = byte_at (frags r) i b) \<and>
     (\<forall>k. pushed r' < k \<longrightarrow> frags r' k = frags r k)"

lemma advances_refl: "stored_ok r \<Longrightarrow> advances r r"
  unfolding advances_def by (intro conjI exI [of _ "[]"]) auto

lemma advances_trans:
  assumes "advances r r1" and "advances r1 r2"
  shows "advances r r2"
proof -
  obtain a1 where a1: "bs_contents (ra_output r1) = bs_contents (ra_output r) @ a1"
      "pushed r1 = pushed r + length a1" "\<forall>i < length a1. byte_at (frags r) (pushed r + i) (a1 ! i)"
    using assms(1) by (auto simp: advances_def)
  obtain a2 where a2: "bs_contents (ra_output r2) = bs_contents (ra_output r1) @ a2"
      "pushed r2 = pushed r1 + length a2" "\<forall>i < length a2. byte_at (frags r1) (pushed r1 + i) (a2 ! i)"
    using assms(2) by (auto simp: advances_def)
  have old: "byte_at (frags r1) i b = byte_at (frags r) i b" if "pushed r1 \<le> i" for i b
    using assms(1) that by (simp add: advances_def)
  have "byte_at (frags r) (pushed r + i) ((a1 @ a2) ! i)" if "i < length (a1 @ a2)" for i
  proof (cases "i < length a1")
    case True
    then show ?thesis using a1(3) by (simp add: nth_append)
  next
    case False
    then show ?thesis
      using a2(3) [rule_format, of "i - length a1"] that old [of "pushed r + i"] a1(2)
      by (simp add: nth_append)
  qed
  moreover have "frags r2 k = frags r k" if "pushed r2 < k" for k
    using assms that a2(2) by (simp add: advances_def)
  moreover have "byte_at (frags r2) i b = byte_at (frags r) i b" if "pushed r2 \<le> i" for i b
    using assms(2) that old [of i b] a2(2) by (simp add: advances_def)
  ultimately show ?thesis
    using assms a1(1,2) a2(1,2) unfolding advances_def
    by (intro conjI exI [of _ "a1 @ a2"]) simp_all
qed

lemma flush_stop:
  assumes "bt_sorted (ra_pending r)" and "\<And>k d. frags r k = Some d \<Longrightarrow> pushed r < k"
  shows "Reassembler_flush_contiguous r = Some r"
proof (cases "ra_pending r")
  case Nil
  then show ?thesis by (simp add: Reassembler_flush_contiguous.simps bt_first_def)
next
  case (Cons e m)
  then have "pushed r < fst e" using assms(2) [of "fst e" "snd e"] by (cases e) simp
  then show ?thesis using Cons
    by (cases e) (simp add: Reassembler_flush_contiguous.simps bt_first_def ByteStream_bytes_pushed_def)
qed

lemma flush_drop:
  assumes "ra_pending r = (start, d) # m" and "start < pushed r" and "start + length d \<le> pushed r"
    and "pushed r \<le> U64_MAX"
  shows "Reassembler_flush_contiguous r = Reassembler_flush_contiguous (r\<lparr>ra_pending := m\<rparr>)"
proof -
  have "Reassembler_trim_stale_prefix r start (pushed r) = Some (r\<lparr>ra_pending := m\<rparr>)"
    using assms by (simp add: Reassembler_trim_stale_prefix_def run_simps)
  then show ?thesis
    using assms(1,2) by (subst Reassembler_flush_contiguous.simps)
      (simp add: bt_first_def ByteStream_bytes_pushed_def Let_def)
qed

lemma flush_trim:
  assumes "ra_pending r = (start, d) # m" and "start < pushed r" and "pushed r < start + length d"
    and "start + length d \<le> U64_MAX" and "\<forall>k \<in> fst ` set m. pushed r < k"
  shows "Reassembler_flush_contiguous r =
    Reassembler_flush_contiguous (r\<lparr>ra_pending := (pushed r, drop (pushed r - start) d) # m\<rparr>)"
proof -
  have "bt_insert (pushed r) x m = (pushed r, x) # m" for x
    using assms(5) by (cases m) auto
  then have "Reassembler_trim_stale_prefix r start (pushed r) =
      Some (r\<lparr>ra_pending := (pushed r, drop (pushed r - start) d) # m\<rparr>)"
    using assms(1-4) by (simp add: Reassembler_trim_stale_prefix_def run_simps)
  then show ?thesis
    using assms(1,2) by (subst Reassembler_flush_contiguous.simps)
      (simp add: bt_first_def ByteStream_bytes_pushed_def Let_def)
qed

text \<open>Room in the output for data that lies in the window.\<close>

lemma room_for:
  assumes "bs_wf (ra_output r)" and "\<not> bs_closed (ra_output r)" and "\<not> bs_error (ra_output r)"
    and "pushed r + length d \<le> window_end r"
  shows "ByteStream_push (ra_output r) d = Some (bs_append (ra_output r) d, length d)"
    and "bs_wf (bs_append (ra_output r) d)"
proof -
  have "length d \<le> bs_capacity (ra_output r) - bs_buffered (ra_output r)"
    and max: "pushed r + length d \<le> U64_MAX"
    using assms(1,4) by (auto simp: window_end_def bs_wf_def)
  then have "length d \<le> bs_room (ra_output r)" using assms(2,3) by (simp add: bs_room_def)
  then show "ByteStream_push (ra_output r) d = Some (bs_append (ra_output r) d, length d)"
    using push_eq [OF assms(1), of d] max by (simp add: min_def)
  show "bs_wf (bs_append (ra_output r) d)"
    using \<open>length d \<le> bs_capacity _ - _\<close> max assms(1) by (intro bs_wf_append)
qed

lemma flush_push:
  assumes "ra_pending r = (pushed r, d) # m" and "bs_wf (ra_output r)"
    and "\<not> bs_closed (ra_output r)" and "\<not> bs_error (ra_output r)"
    and "pushed r + length d \<le> window_end r"
  shows "Reassembler_flush_contiguous r =
    Reassembler_flush_contiguous (r\<lparr>ra_pending := m, ra_output := bs_append (ra_output r) d\<rparr>)"
  using assms(1) room_for(1) [OF assms(2-5)]
  by (subst Reassembler_flush_contiguous.simps) (simp add: bt_first_def ByteStream_bytes_pushed_def Let_def)

lemma byte_at_insert:
  "g c = None \<Longrightarrow> byte_at (g(c \<mapsto> d)) i b \<longleftrightarrow>
     byte_at g i b \<or> (c \<le> i \<and> i < c + length d \<and> d ! (i - c) = b)"
  by (auto simp: byte_at_def)

text \<open>What a well-formed pending map says of its first fragment.\<close>

lemma stored_ok_Cons:
  assumes "stored_ok r" and "ra_pending r = (start, d) # m"
  shows "bt_get m start = None" and "frags r = (bt_get m)(start \<mapsto> d)" and "bt_sorted m"
    and "frags_ok (bt_get m)" and "d \<noteq> []" and "start + length d \<le> window_end r"
    and "\<forall>k \<in> fst ` set m. start + length d \<le> k"
    and "\<And>k e. bt_get m k = Some e \<Longrightarrow> k + length e \<le> window_end r \<and> start + length d \<le> k"
proof -
  have ok: "bt_sorted ((start, d) # m)" "frags_ok (bt_get ((start, d) # m))"
    "\<forall>k d'. bt_get ((start, d) # m) k = Some d' \<longrightarrow> k + length d' \<le> window_end r"
    using assms by (auto simp: stored_ok_def)
  show none: "bt_get m start = None" using ok(1) by (intro bt_get_less [of m start]) auto
  show "frags r = (bt_get m)(start \<mapsto> d)" using assms(2) by simp
  show sorted: "bt_sorted m" using ok(1) by simp
  have "(bt_get ((start, d) # m))(start := None) = bt_get m" using none by auto
  then show "frags_ok (bt_get m)" using frags_ok_remove [OF ok(2), of start] by simp
  show "d \<noteq> []" using frags_ok_nonempty [OF ok(2), of start d] by simp
  show "start + length d \<le> window_end r" using ok(3) by simp
  show *: "\<forall>k \<in> fst ` set m. start + length d \<le> k"
  proof
    fix k assume "k \<in> fst ` set m"
    then obtain e where "bt_get m k = Some e" "start < k"
      using ok(1) sorted by (auto simp: bt_get_iff)
    then show "start + length d \<le> k" using frags_ok_disjoint [OF ok(2), of start d k e] by simp
  qed
  show "k + length e \<le> window_end r \<and> start + length d \<le> k" if "bt_get m k = Some e" for k e
  proof -
    have "k \<noteq> start" using that none by auto
    then have "bt_get ((start, d) # m) k = Some e" using that by simp
    moreover have "k \<in> fst ` set m" using bt_get_in [OF that] by force
    ultimately show ?thesis using ok(3) * by blast
  qed
qed

lemma advances_drop:
  assumes "stored_ok r" and "ra_pending r = (start, d) # m" and "start + length d \<le> pushed r"
  shows "advances r (r\<lparr>ra_pending := m\<rparr>)"
proof -
  note c = stored_ok_Cons [OF assms(1,2)]
  have "byte_at (bt_get m) i b = byte_at (frags r) i b" if "pushed r \<le> i" for i b
    using that assms(3) unfolding c(2) by (subst byte_at_insert [where g = "bt_get m", OF c(1)]) auto
  moreover have "frags r k = bt_get m k" if "pushed r < k" for k
    using that assms(3) unfolding c(2) by auto
  ultimately show ?thesis
    using assms(1) c(3,4,8) by (auto simp: advances_def stored_ok_def window_end_def)
qed

lemma advances_trim:
  assumes "stored_ok r" and "ra_pending r = (start, d) # m" and "start < pushed r"
    and "pushed r < start + length d"
  shows "advances r (r\<lparr>ra_pending := (pushed r, drop (pushed r - start) d) # m\<rparr>)" (is "advances r ?r")
proof -
  note c = stored_ok_Cons [OF assms(1,2)]
  let ?d = "drop (pushed r - start) d"
  have less: "\<forall>k \<in> fst ` set m. pushed r < k" using c(7) assms(4) by auto
  then have none: "bt_get m (pushed r) = None" by (rule bt_get_less) simp
  have at: "byte_at (frags ?r) i b = byte_at (frags r) i b" if "pushed r \<le> i" for i b
  proof -
    have new: "frags ?r = (bt_get m)(pushed r \<mapsto> ?d)" by simp
    show ?thesis
      using that assms(3,4)
      unfolding new c(2) byte_at_insert [where g = "bt_get m", OF c(1)]
        byte_at_insert [where g = "bt_get m", OF none] by auto
  qed
  have "frags_ok ((bt_get m)(pushed r \<mapsto> ?d))"
    using c(4) assms(3,4) by (rule_tac frags_ok_insert) (auto dest: c(8))
  then have "stored_ok ?r"
    using assms(1,3,4) less c(3,6,8) by (auto simp: stored_ok_def window_end_def split: if_splits)
  moreover have "frags r k = frags ?r k" if "pushed r < k" for k
    using that assms(3) unfolding c(2) by auto
  ultimately show ?thesis using at by (auto simp: advances_def)
qed

lemma advances_push:
  assumes "stored_ok r" and "ra_pending r = (pushed r, d) # m"
  shows "advances r (r\<lparr>ra_pending := m, ra_output := bs_append (ra_output r) d\<rparr>)"
proof -
  note c = stored_ok_Cons [OF assms]
  have "bs_wf (bs_append (ra_output r) d)"
    using assms(1) c(6) by (intro bs_wf_append) (auto simp: stored_ok_def window_end_def bs_wf_def)
  moreover have "byte_at (bt_get m) i b = byte_at (frags r) i b" if "pushed r + length d \<le> i" for i b
    using that unfolding c(2) by (subst byte_at_insert [where g = "bt_get m", OF c(1)]) auto
  moreover have "byte_at (frags r) (pushed r + i) (d ! i)" if "i < length d" for i
    using that unfolding c(2) by (subst byte_at_insert [where g = "bt_get m", OF c(1)]) auto
  moreover have "frags r k = bt_get m k" if "pushed r + length d < k" for k
    using that unfolding c(2) by auto
  ultimately show ?thesis
    using assms(1) c(3,4,8) by (auto simp: advances_def stored_ok_def window_end_def)
qed

lemma flush_step:
  assumes "stored_ok r" and "\<not> bs_closed (ra_output r)" and "\<not> bs_error (ra_output r)"
  shows "Reassembler_flush_contiguous r = Some r \<and> (\<forall>k d. frags r k = Some d \<longrightarrow> pushed r < k) \<or>
    (\<exists>r1. Reassembler_flush_contiguous r = Reassembler_flush_contiguous r1 \<and> advances r r1 \<and>
       length (ra_pending r1) < length (ra_pending r))"
proof (cases "ra_pending r")
  case Nil
  then have "Reassembler_flush_contiguous r = Some r" by (intro flush_stop) simp_all
  then show ?thesis using Nil by simp
next
  case (Cons e m)
  obtain start d where "e = (start, d)" by (cases e)
  with Cons have pend: "ra_pending r = (start, d) # m" by simp
  have wf: "bs_wf (ra_output r)" "window_end r \<le> U64_MAX" "pushed r \<le> U64_MAX"
    using assms(1) by (auto simp: stored_ok_def window_end_def bs_wf_def)
  note c = stored_ok_Cons [OF assms(1) pend]
  consider "pushed r < start" | "start = pushed r" | "start + length d \<le> pushed r"
    | "start < pushed r" "pushed r < start + length d"
    by linarith
  then show ?thesis
  proof cases
    case 1
    have "pushed r < k" if "frags r k = Some x" for k x
      using that 1 c(8) [of k x] unfolding c(2) by (auto split: if_splits)
    then show ?thesis using flush_stop [of r] assms(1) by (auto simp: stored_ok_def)
  next
    case 2
    let ?r = "r\<lparr>ra_pending := m, ra_output := bs_append (ra_output r) d\<rparr>"
    show ?thesis
      using flush_push [of r d m] advances_push [of r d m] assms wf 2 pend c(6)
      by (intro disjI2 exI [of _ ?r]) auto
  next
    case 3
    have "0 < length d" using c(5) by simp
    then have "start < pushed r" using 3 by linarith
    then show ?thesis
      using flush_drop [OF pend _ 3 wf(3)] advances_drop [OF assms(1) pend 3] pend
      by (intro disjI2 exI [of _ "r\<lparr>ra_pending := m\<rparr>"]) simp_all
  next
    case 4
    let ?r = "r\<lparr>ra_pending := (pushed r, drop (pushed r - start) d) # m\<rparr>"
    let ?r' = "?r\<lparr>ra_pending := m, ra_output := bs_append (ra_output r) (drop (pushed r - start) d)\<rparr>"
    have adv: "advances r ?r" using advances_trim [OF assms(1) pend 4] .
    then have ok: "stored_ok ?r" by (simp add: advances_def)
    have "Reassembler_flush_contiguous r = Reassembler_flush_contiguous ?r"
      using flush_trim [OF pend 4] c(6,7) 4(2) wf(2) by fastforce
    also have "\<dots> = Reassembler_flush_contiguous ?r'"
      using flush_push [of ?r _ m] assms(2,3) wf(1) stored_ok_Cons(6) [OF ok] by simp
    finally show ?thesis
      using advances_trans [OF adv advances_push [OF ok]] pend by (intro disjI2 exI [of _ ?r']) auto
  qed
qed

lemma flush_spec:
  assumes "stored_ok r" and "\<not> bs_closed (ra_output r)" and "\<not> bs_error (ra_output r)"
  shows "\<exists>r'. Reassembler_flush_contiguous r = Some r' \<and> advances r r' \<and>
    (\<forall>k d. frags r' k = Some d \<longrightarrow> pushed r' < k)"
  using assms
proof (induction "length (ra_pending r)" arbitrary: r rule: less_induct)
  case less
  from flush_step [OF less.prems] show ?case
  proof (elim disjE exE conjE)
    assume "Reassembler_flush_contiguous r = Some r" "\<forall>k d. frags r k = Some d \<longrightarrow> pushed r < k"
    then show ?thesis using advances_refl [OF less.prems(1)] by blast
  next
    fix r1
    assume r1: "Reassembler_flush_contiguous r = Reassembler_flush_contiguous r1" "advances r r1"
      "length (ra_pending r1) < length (ra_pending r)"
    then have "stored_ok r1" "\<not> bs_closed (ra_output r1)" "\<not> bs_error (ra_output r1)"
      using less.prems(2,3) by (auto simp: advances_def)
    from less.hyps [OF r1(3) this] show ?thesis using r1(1,2) advances_trans by metis
  qed
qed

section \<open>Storing a segment\<close>

text \<open>The bytes of a segment by stream index.\<close>

definition data_at :: "nat \<Rightarrow> bytes \<Rightarrow> nat \<Rightarrow> byte \<Rightarrow> bool" where
  "data_at lo d i b \<longleftrightarrow> lo \<le> i \<and> i < lo + length d \<and> d ! (i - lo) = b"

lemma data_at_slice:
  assumes "data_at a (take (b - a) (drop (a - lo) d)) i x" and "lo \<le> a"
  shows "data_at lo d i x"
proof -
  have "drop (a - lo) d ! (i - a) = d ! (a - lo + (i - a))"
    using assms by (intro nth_drop) (auto simp: data_at_def)
  then show ?thesis using assms by (auto simp: data_at_def)
qed

lemma piece_at:
  assumes "piece_of start d start stop k e" and "k \<le> i" and "i < k + length e"
    and "stop = start + length d"
  shows "data_at start d i (e ! (i - k))"
proof -
  have k: "start \<le> k" "k + length e \<le> stop" and e: "e = take (length e) (drop (k - start) d)"
    using assms(1) by (auto simp: piece_of_def)
  have "e ! (i - k) = drop (k - start) d ! (i - k)"
    using assms(2,3) by (subst e) simp
  then show ?thesis using k assms by (auto simp: data_at_def)
qed

text \<open>
  The indices a reassembler holds, in the output or in a fragment, and the invariant of its three
  fields between calls.
\<close>

definition known :: "Reassembler \<Rightarrow> nat set" where
  "known r = {i. i < pushed r \<or> covered (frags r) i}"

definition ra_wf :: "Reassembler \<Rightarrow> bool" where
  "ra_wf r \<longleftrightarrow> stored_ok r \<and> (\<forall>k d. frags r k = Some d \<longrightarrow> pushed r < k) \<and>
     (\<forall>e. ra_eof r = Some e \<longrightarrow> pushed r \<le> e \<and> e \<le> U64_MAX \<and> (\<forall>k d. frags r k = Some d \<longrightarrow> k + length d \<le> e)) \<and>
     (bs_closed (ra_output r) \<longrightarrow> ra_eof r = Some (pushed r))"

definition ra_inv :: "Reassembler \<Rightarrow> bool" where
  "ra_inv r \<longleftrightarrow> ra_wf r \<and> (ra_eof r = Some (pushed r) \<longrightarrow> bs_closed (ra_output r))"

text \<open>\<open>absorbs r lo d r'\<close>: \<open>r'\<close> holds what \<open>r\<close> held and the segment \<open>d\<close> at \<open>lo\<close>, and no more.\<close>

definition absorbs :: "Reassembler \<Rightarrow> nat \<Rightarrow> bytes \<Rightarrow> Reassembler \<Rightarrow> bool" where
  "absorbs r lo d r' \<longleftrightarrow>
     bs_capacity (ra_output r') = bs_capacity (ra_output r) \<and>
     bs_popped (ra_output r') = bs_popped (ra_output r) \<and>
     bs_error (ra_output r') = bs_error (ra_output r) \<and>
     (\<exists>add. bs_contents (ra_output r') = bs_contents (ra_output r) @ add \<and>
        pushed r' = pushed r + length add \<and>
        (\<forall>i < length add. byte_at (frags r) (pushed r + i) (add ! i) \<or>
                          data_at lo d (pushed r + i) (add ! i))) \<and>
     (\<forall>i b. pushed r' \<le> i \<longrightarrow> byte_at (frags r') i b \<longrightarrow> byte_at (frags r) i b \<or> data_at lo d i b) \<and>
     known r' = known r \<union> {lo..<lo + length d}"

lemma known_advances:
  assumes "advances r r'"
  shows "known r' = known r"
proof -
  obtain a where "pushed r' = pushed r + length a"
      "\<forall>i < length a. byte_at (frags r) (pushed r + i) (a ! i)"
    using assms by (auto simp: advances_def)
  then have "covered (frags r) i" if "pushed r \<le> i" "i < pushed r'" for i
    using that covered_byte_at [of "frags r" i] by (metis add_diff_inverse_nat add_less_cancel_left not_le)
  moreover have "covered (frags r') i = covered (frags r) i" if "pushed r' \<le> i" for i
    using that assms by (simp add: covered_byte_at advances_def)
  ultimately show ?thesis using \<open>pushed r' = _\<close>
    unfolding known_def by (auto simp: not_less) (metis le_add1 le_trans not_le)+
qed

lemma stored_ok_output:
  assumes "stored_ok r" and "bs_wf out" and "bs_capacity out = bs_capacity (ra_output r)"
    and "bs_popped out = bs_popped (ra_output r)"
  shows "stored_ok (r\<lparr>ra_output := out\<rparr>)"
  using assms by (auto simp: stored_ok_def window_end_def)

lemma absorbs_push:
  assumes "stored_ok r" and "\<not> bs_closed (ra_output r)" and "\<not> bs_error (ra_output r)"
    and "pushed r + length d \<le> window_end r"
  defines "r1 \<equiv> r\<lparr>ra_output := bs_append (ra_output r) d\<rparr>"
  shows "ByteStream_push (ra_output r) d = Some (ra_output r1, length d)"
    and "stored_ok r1" and "absorbs r (pushed r) d r1"
proof -
  have wf: "bs_wf (ra_output r)" using assms(1) by (simp add: stored_ok_def)
  note room = room_for [OF wf assms(2-4)]
  show "ByteStream_push (ra_output r) d = Some (ra_output r1, length d)"
    using room(1) by (simp add: r1_def)
  show "stored_ok r1" unfolding r1_def using assms(1) room(2) by (rule stored_ok_output) simp_all
  show "absorbs r (pushed r) d r1" unfolding absorbs_def r1_def known_def
    by (intro conjI exI [of _ d]) (auto simp: data_at_def)
qed

lemma absorbs_gaps:
  assumes "stored_ok r" and "pushed r \<le> lo" and "d \<noteq> []" and "lo + length d \<le> window_end r"
  shows "\<exists>m. Reassembler_insert_missing_gaps r lo d = Some (r\<lparr>ra_pending := m\<rparr>) \<and>
    stored_ok (r\<lparr>ra_pending := m\<rparr>) \<and> absorbs r lo d (r\<lparr>ra_pending := m\<rparr>) \<and>
    (\<forall>i b. byte_at (bt_get m) i b \<longrightarrow> byte_at (frags r) i b \<or> data_at lo d i b)"
proof -
  have ok: "bt_sorted (ra_pending r)" "frags_ok (frags r)"
    and win: "frags r k = Some e \<Longrightarrow> k + length e \<le> window_end r" for k e
    using assms(1) by (auto simp: stored_ok_def)
  have max: "window_end r \<le> U64_MAX" by (simp add: window_end_def)
  obtain m where m: "Reassembler_insert_missing_gaps r lo d = Some (r\<lparr>ra_pending := m\<rparr>)"
    "bt_sorted m" "frags_ok (bt_get m)"
    "\<forall>k e. bt_get m k = Some e \<longrightarrow> frags r k = Some e \<or> piece_of lo d lo (lo + length d) k e"
    "\<forall>i. covered (bt_get m) i \<longleftrightarrow> covered (frags r) i \<or> (lo \<le> i \<and> i < lo + length d)"
    using insert_missing_gaps_spec [of r d lo] ok assms(3,4) max win le_trans by blast
  have "k + length e \<le> window_end r" if "bt_get m k = Some e" for k e
    using m(4) that win assms(4) by (fastforce simp: piece_of_def)
  then have "stored_ok (r\<lparr>ra_pending := m\<rparr>)"
    using assms(1) m(2,3) by (auto simp: stored_ok_def window_end_def)
  moreover have at: "byte_at (frags r) i b \<or> data_at lo d i b" if "byte_at (bt_get m) i b" for i b
    using that m(4) piece_at unfolding byte_at_def by metis
  then have "absorbs r lo d (r\<lparr>ra_pending := m\<rparr>)"
    unfolding absorbs_def known_def using m(5)
    by (intro conjI exI [of _ "[]"]) auto
  ultimately show ?thesis using m(1) at by auto
qed

lemma absorbs_advances:
  assumes "absorbs r lo d r1" and "advances r1 r2"
  shows "absorbs r lo d r2"
proof -
  obtain a1 where a1: "bs_contents (ra_output r1) = bs_contents (ra_output r) @ a1"
      "pushed r1 = pushed r + length a1" "\<forall>i < length a1. byte_at (frags r) (pushed r + i) (a1 ! i)
        \<or> data_at lo d (pushed r + i) (a1 ! i)"
    using assms(1) by (auto simp: absorbs_def)
  obtain a2 where a2: "bs_contents (ra_output r2) = bs_contents (ra_output r1) @ a2"
      "pushed r2 = pushed r1 + length a2" "\<forall>i < length a2. byte_at (frags r1) (pushed r1 + i) (a2 ! i)"
    using assms(2) by (auto simp: advances_def)
  have old: "byte_at (frags r) i b \<or> data_at lo d i b"
    if "pushed r1 \<le> i" "byte_at (frags r1) i b" for i b
    using assms(1) that by (simp add: absorbs_def)
  have "byte_at (frags r) (pushed r + i) ((a1 @ a2) ! i) \<or> data_at lo d (pushed r + i) ((a1 @ a2) ! i)"
    if "i < length (a1 @ a2)" for i
  proof (cases "i < length a1")
    case True
    then show ?thesis using a1(3) by (simp add: nth_append)
  next
    case False
    then show ?thesis
      using a2(3) [rule_format, of "i - length a1"] that old [of "pushed r + i"] a1(2)
      by (simp add: nth_append)
  qed
  moreover have "byte_at (frags r) i b \<or> data_at lo d i b"
    if "pushed r2 \<le> i" "byte_at (frags r2) i b" for i b
    using assms(2) that old [of i b] a2(2) by (simp add: advances_def)
  ultimately show ?thesis
    using assms a1(1,2) a2(1,2) known_advances [OF assms(2)] unfolding absorbs_def
    by (intro conjI exI [of _ "a1 @ a2"]) (simp_all add: advances_def)
qed

lemma absorbs_nothing: "absorbs r lo [] r"
  unfolding absorbs_def by (intro conjI exI [of _ "[]"]) simp_all

lemma frags_ok_tail:
  assumes "bt_sorted ((k, d) # m)" and "frags_ok (bt_get ((k, d) # m))"
  shows "frags_ok (bt_get m)" and "\<forall>(k', d') \<in> set m. k + length d \<le> k'"
proof -
  have "(bt_get ((k, d) # m))(k := None) = bt_get m"
    using assms(1) bt_get_less [of m k k] by auto
  then show "frags_ok (bt_get m)" using frags_ok_remove [OF assms(2), of k] by simp
  show "\<forall>(k', d') \<in> set m. k + length d \<le> k'"
  proof safe
    fix k' d' assume "(k', d') \<in> set m"
    then show "k + length d \<le> k'"
      using assms(1) by (intro frags_ok_disjoint [OF assms(2)]) (force simp: bt_get_iff)+
  qed
qed

lemma pending_invariants_ok:
  assumes "bt_sorted m" and "frags_ok (bt_get m)" and "hi \<le> U64_MAX"
    and "\<forall>(k, d) \<in> set m. lo \<le> k \<and> k + length d \<le> hi \<and> (\<forall>e. eof = Some e \<longrightarrow> k + length d \<le> e)"
    and "\<forall>pe. prv = Some pe \<longrightarrow> (\<forall>(k, d) \<in> set m. pe \<le> k)"
  shows "pending_invariants lo hi eof prv m"
  using assms
proof (induction m arbitrary: prv)
  case Nil
  then show ?case by simp
next
  case (Cons e m)
  obtain k d where e: "e = (k, d)" by (cases e)
  note tail = frags_ok_tail [OF Cons.prems(1,2) [unfolded e]]
  have "d \<noteq> []" using frags_ok_nonempty [OF Cons.prems(2), of k d] e by simp
  moreover have "saturating_add k (length d) = k + length d"
    using Cons.prems(3,4) e by (auto intro!: run_simps)
  moreover have "pending_invariants lo hi eof (Some (k + length d)) m"
    using Cons.prems(1,3,4) e tail by (intro Cons.IH) auto
  ultimately show ?case using Cons.prems(4,5) e
    by (auto simp: Let_def split: option.splits)
qed

lemma ra_wf_checked:
  assumes "ra_wf r"
  shows "Reassembler_debug_check_invariants r = Some ()"
proof -
  let ?out = "ra_output r"
  have wf: "bs_wf ?out" "bt_sorted (ra_pending r)" "frags_ok (frags r)"
    using assms by (auto simp: ra_wf_def stored_ok_def)
  have pend: "pushed r \<le> k \<and> k + length d \<le> window_end r \<and> (\<forall>e. ra_eof r = Some e \<longrightarrow> k + length d \<le> e)"
    if "(k, d) \<in> set (ra_pending r)" for k d
  proof -
    have "frags r k = Some d" using that wf(2) by (simp add: bt_get_iff)
    then show ?thesis using assms unfolding ra_wf_def stored_ok_def by fastforce
  qed
  have win: "saturating_add (bs_popped ?out) (bs_capacity ?out) = window_end r"
    by (simp add: saturating_add_def window_end_def)
  have "pushed r + Reassembler_bytes_pending r \<le> window_end r"
    unfolding Reassembler_bytes_pending_def
    using wf pend by (intro bt_total_length) (auto simp: window_end_def bs_wf_def)
  then have "saturating_add (bs_buffered ?out) (Reassembler_bytes_pending r) \<le> bs_capacity ?out"
    using wf(1) by (auto simp: window_end_def bs_wf_def saturating_add_def)
  moreover have "pending_invariants (pushed r) (window_end r) (ra_eof r) None (ra_pending r)"
    using wf pend by (intro pending_invariants_ok) (auto simp: window_end_def)
  moreover have "case ra_eof r of None \<Rightarrow> True | Some e \<Rightarrow> pushed r \<le> e"
    using assms by (auto simp: ra_wf_def split: option.splits)
  ultimately show ?thesis
    by (simp add: Reassembler_debug_check_invariants_def Let_def stream_accessors win run_simps
        split: option.splits)
qed

lemma close_if_complete_inv:
  assumes "ra_wf r"
  shows "ra_inv (Reassembler_close_if_complete r)"
    and "ra_eof (Reassembler_close_if_complete r) = ra_eof r"
proof -
  have "stored_ok (r\<lparr>ra_output := ByteStream_close (ra_output r)\<rparr>)"
    using assms by (intro stored_ok_output) (auto simp: ra_wf_def stored_ok_def ByteStream_close_def bs_wf_def bs_contents_def)
  then show "ra_inv (Reassembler_close_if_complete r)"
    using assms unfolding ra_inv_def ra_wf_def Reassembler_close_if_complete_def
    by (auto simp: ByteStream_close_def stream_accessors split: option.splits)
  show "ra_eof (Reassembler_close_if_complete r) = ra_eof r"
    by (simp add: Reassembler_close_if_complete_def split: option.splits)
qed


lemma absorbs_close:
  "absorbs r lo d r1 \<Longrightarrow> absorbs r lo d (Reassembler_close_if_complete r1)"
  by (simp add: absorbs_def Reassembler_close_if_complete_def ByteStream_close_def known_def
      bs_contents_def split: option.splits)

text \<open>The clipped part of a segment and what a store does with it.\<close>

definition clip_start :: "Reassembler \<Rightarrow> nat \<Rightarrow> nat" where
  "clip_start r first = max first (pushed r)"

definition clip_data :: "Reassembler \<Rightarrow> nat \<Rightarrow> bytes \<Rightarrow> bytes" where
  "clip_data r first d =
     take (min (first + length d) (window_end r) - clip_start r first) (drop (clip_start r first - first) d)"

lemma store_eq:
  assumes "ra_wf r" and "first + length d \<le> U64_MAX"
  shows "Reassembler_store r first d (first + length d) =
    (if clip_data r first d = [] then Some r
     else if clip_start r first = pushed r
       then ByteStream_push (ra_output r) (clip_data r first d) \<bind>
            (\<lambda>(out, _). Reassembler_flush_contiguous (r\<lparr>ra_output := out\<rparr>))
       else Reassembler_insert_missing_gaps r (clip_start r first) (clip_data r first d) \<bind>
            Reassembler_flush_contiguous) \<bind>
    (\<lambda>r. let r = Reassembler_close_if_complete r in
      Reassembler_debug_check_invariants r \<bind> (\<lambda>_. Some r))"
proof -
  let ?hi = "min (first + length d) (window_end r)"
  have sat: "saturating_add (bs_popped (ra_output r)) (bs_capacity (ra_output r)) = window_end r"
    by (simp add: saturating_add_def window_end_def)
  have empty: "clip_data r first d = [] \<longleftrightarrow> \<not> clip_start r first < ?hi"
    by (auto simp: clip_data_def clip_start_def min_def max_def split: if_splits)
  have "slice (clip_start r first - first) (?hi - first) d = Some (clip_data r first d)"
    if "clip_start r first < ?hi"
    using that by (simp add: slice_def clip_data_def clip_start_def diff_le_mono le_diff_conv)
  moreover have "max first (pushed r) = clip_start r first" and "first \<le> clip_start r first"
    by (simp_all add: clip_start_def)
  ultimately show ?thesis unfolding empty Reassembler_store_def Let_def stream_accessors sat
    by (simp add: run_simps case_prod_unfold Option.bind_assoc split: if_splits)
qed

lemma clip_bounds:
  assumes "clip_data r first d \<noteq> []"
  shows "clip_start r first + length (clip_data r first d) = min (first + length d) (window_end r)"
    and "pushed r \<le> clip_start r first" and "first \<le> clip_start r first"
proof -
  have "clip_start r first < min (first + length d) (window_end r)"
    using assms by (auto simp: clip_data_def)
  then show "clip_start r first + length (clip_data r first d) = min (first + length d) (window_end r)"
    by (auto simp: clip_data_def clip_start_def min_def max_def)
  show "pushed r \<le> clip_start r first" and "first \<le> clip_start r first"
    by (simp_all add: clip_start_def)
qed

text \<open>After the fragments have been flushed the invariant holds, but for the close.\<close>

lemma flushed_wf:
  assumes "ra_wf r" and "absorbs r lo d r1" and "advances r1 r2" and "ra_eof r1 = ra_eof r"
    and "\<not> bs_closed (ra_output r1)"
    and "\<forall>k d. frags r2 k = Some d \<longrightarrow> pushed r2 < k"
    and "\<And>e. ra_eof r = Some e \<Longrightarrow> lo + length d \<le> e"
  shows "ra_wf r2"
proof -
  have known: "known r2 = known r \<union> {lo..<lo + length d}"
    using absorbs_advances [OF assms(2,3)] by (simp add: absorbs_def)
  have le: "i < e" if "ra_eof r = Some e" "i \<in> known r2" for i e
  proof (cases "i \<in> {lo..<lo + length d}")
    case True
    then show ?thesis using assms(7) [OF that(1)] by simp
  next
    case False
    then have "i < pushed r \<or> covered (frags r) i" using that(2) known by (auto simp: known_def)
    moreover have "pushed r \<le> e" and "\<forall>k d. frags r k = Some d \<longrightarrow> k + length d \<le> e"
      using that(1) assms(1) by (auto simp: ra_wf_def)
    ultimately show ?thesis unfolding covered_def by (meson le_trans less_le_trans)
  qed
  have "k + length d \<le> e" if "ra_eof r = Some e" "frags r2 k = Some d" for k d e
  proof -
    have "d \<noteq> []" using that(2) assms(3) frags_ok_nonempty by (auto simp: advances_def stored_ok_def)
    then have "k + length d - 1 \<in> known r2"
      using that(2) by (cases d) (auto simp: known_def covered_def intro!: exI [of _ k] exI [of _ d])
    then show ?thesis using le [OF that(1)] \<open>d \<noteq> []\<close> by (fastforce simp: neq_Nil_conv)
  qed
  moreover have "pushed r2 \<le> e" if "ra_eof r = Some e" for e
  proof (cases "pushed r2")
    case (Suc n)
    then have "n \<in> known r2" by (simp add: known_def)
    then show ?thesis using le [OF that] Suc by fastforce
  qed simp
  ultimately show ?thesis using assms by (auto simp: ra_wf_def advances_def)
qed

lemma store_open:
  assumes "ra_wf r" and "clip_data r first d \<noteq> []"
    and "\<And>e. ra_eof r = Some e \<Longrightarrow> first + length d \<le> e"
  shows "\<not> bs_closed (ra_output r)"
proof
  assume "bs_closed (ra_output r)"
  then have "first + length d \<le> pushed r" using assms(1,3) by (auto simp: ra_wf_def)
  then show False using clip_bounds [OF assms(2)] assms(2) by (auto simp: neq_Nil_conv)
qed

lemma store_finish:
  assumes "ra_wf r" and "first + length d \<le> U64_MAX"
    and "(if clip_data r first d = [] then Some r
     else if clip_start r first = pushed r
       then ByteStream_push (ra_output r) (clip_data r first d) \<bind>
            (\<lambda>(out, _). Reassembler_flush_contiguous (r\<lparr>ra_output := out\<rparr>))
       else Reassembler_insert_missing_gaps r (clip_start r first) (clip_data r first d) \<bind>
            Reassembler_flush_contiguous) = Some r1"
    and "ra_wf r1" and "ra_eof r1 = ra_eof r" and "P r1"
    and "\<And>r1. P r1 \<Longrightarrow> P (Reassembler_close_if_complete r1)"
  shows "\<exists>r'. Reassembler_store r first d (first + length d) = Some r' \<and> ra_inv r' \<and>
    ra_eof r' = ra_eof r \<and> P r'"
  unfolding store_eq [OF assms(1,2)] assms(3)
  using close_if_complete_inv [OF assms(4)] assms(5-7) by (simp add: ra_inv_def ra_wf_checked)

lemma store_spec:
  assumes wf: "ra_wf r" and max: "first + length d \<le> U64_MAX" and err: "\<not> bs_error (ra_output r)"
    and eof: "\<And>e. ra_eof r = Some e \<Longrightarrow> first + length d \<le> e"
  shows "\<exists>r'. Reassembler_store r first d (first + length d) = Some r' \<and> ra_inv r' \<and>
    ra_eof r' = ra_eof r \<and> absorbs r (clip_start r first) (clip_data r first d) r'"
proof -
  let ?lo = "clip_start r first" and ?d = "clip_data r first d"
  note finish = store_finish [OF wf max]
  have stored: "stored_ok r" using wf by (simp add: ra_wf_def)
  show ?thesis
  proof (cases "?d = []")
    case True
    then show ?thesis
      using finish [of r "absorbs r ?lo ?d"] wf absorbs_nothing [of r ?lo] absorbs_close by simp
  next
    case False
    note b = clip_bounds [OF False]
    have opn: "\<not> bs_closed (ra_output r)" using store_open [OF wf False eof] .
    obtain r1 where r1: "absorbs r ?lo ?d r1" "stored_ok r1" "ra_eof r1 = ra_eof r"
      "\<not> bs_closed (ra_output r1)" "\<not> bs_error (ra_output r1)"
      "(if ?lo = pushed r
       then ByteStream_push (ra_output r) ?d \<bind> (\<lambda>(out, _). Reassembler_flush_contiguous (r\<lparr>ra_output := out\<rparr>))
       else Reassembler_insert_missing_gaps r ?lo ?d \<bind> Reassembler_flush_contiguous) =
       Reassembler_flush_contiguous r1"
    proof (cases "?lo = pushed r")
      case True
      then show ?thesis
        using that [of "r\<lparr>ra_output := bs_append (ra_output r) ?d\<rparr>"]
          absorbs_push [OF stored opn err, of ?d] b(1) opn err by simp
    next
      case noteq: False
      then show ?thesis
        using that absorbs_gaps [OF stored b(2) False] b(1) opn err by fastforce
    qed
    obtain r2 where r2: "Reassembler_flush_contiguous r1 = Some r2" "advances r1 r2"
      "\<forall>k d. frags r2 k = Some d \<longrightarrow> pushed r2 < k"
      using flush_spec [OF r1(2,4,5)] by blast
    have "ra_wf r2"
      using flushed_wf [OF wf r1(1) r2(2) r1(3,4) r2(3)] eof b(1) by fastforce
    then show ?thesis
      using finish [of r2 "absorbs r ?lo ?d"] absorbs_close False r1(3,6) r2(1,2) absorbs_advances [OF r1(1) r2(2)]
      by (simp add: advances_def)
  qed
qed

lemma store_error:
  assumes wf: "ra_wf r" and max: "first + length d \<le> U64_MAX" and err: "bs_error (ra_output r)"
    and eof: "\<And>e. ra_eof r = Some e \<Longrightarrow> first + length d \<le> e"
  shows "\<exists>r'. Reassembler_store r first d (first + length d) = Some r' \<and> ra_inv r' \<and>
    bs_popped (ra_output r') = bs_popped (ra_output r)"
proof -
  let ?lo = "clip_start r first" and ?d = "clip_data r first d"
  have stored: "stored_ok r" and keys: "\<And>k d. frags r k = Some d \<Longrightarrow> pushed r < k"
    using wf by (auto simp: ra_wf_def)
  obtain r1 where r1: "(if ?d = [] then Some r
     else if ?lo = pushed r
       then ByteStream_push (ra_output r) ?d \<bind> (\<lambda>(out, _). Reassembler_flush_contiguous (r\<lparr>ra_output := out\<rparr>))
       else Reassembler_insert_missing_gaps r ?lo ?d \<bind> Reassembler_flush_contiguous) = Some r1"
     "ra_wf r1" "ra_eof r1 = ra_eof r" "bs_popped (ra_output r1) = bs_popped (ra_output r)"
  proof (cases "?d = [] \<or> ?lo = pushed r")
    case True
    then show ?thesis using that wf stored err flush_stop [of r] keys
      by (auto simp: ByteStream_push_def stored_ok_def)
  next
    case False
    then have d: "?d \<noteq> []" by simp
    note b = clip_bounds [OF d]
    obtain m where m: "Reassembler_insert_missing_gaps r ?lo ?d = Some (r\<lparr>ra_pending := m\<rparr>)"
      "stored_ok (r\<lparr>ra_pending := m\<rparr>)" "absorbs r ?lo ?d (r\<lparr>ra_pending := m\<rparr>)"
      "\<And>i b. byte_at (bt_get m) i b \<Longrightarrow> byte_at (frags r) i b \<or> data_at ?lo ?d i b"
      using absorbs_gaps [OF stored b(2) d] b(1) by auto
    have above: "pushed r < k" if "bt_get m k = Some e" for k e
    proof -
      have "e \<noteq> []" using that m(2) frags_ok_nonempty by (auto simp: stored_ok_def)
      then have "byte_at (bt_get m) k (e ! 0)"
        unfolding byte_at_def using that by (intro exI [of _ k] exI [of _ e]) simp
      from m(4) [OF this] show ?thesis
        using keys b(2) False by (fastforce simp: byte_at_def data_at_def)
    qed
    have "ra_wf (r\<lparr>ra_pending := m\<rparr>)"
      using flushed_wf [OF wf m(3) advances_refl [OF m(2)]] store_open [OF wf d eof] above b(1) eof
      by fastforce
    moreover have "Reassembler_flush_contiguous (r\<lparr>ra_pending := m\<rparr>) = Some (r\<lparr>ra_pending := m\<rparr>)"
      using above m(2) by (intro flush_stop) (auto simp: stored_ok_def)
    ultimately show ?thesis using that False m(1) by simp
  qed
  have "bs_popped (ra_output (Reassembler_close_if_complete r1)) = bs_popped (ra_output r1)" for r1
    by (simp add: Reassembler_close_if_complete_def ByteStream_close_def split: option.splits)
  then show ?thesis
    using store_finish [OF wf max r1(1-3), where P = "\<lambda>r'. bs_popped (ra_output r') = bs_popped (ra_output r)"]
      r1(4) by auto
qed

section \<open>Inserting a segment\<close>

lemma pending_within_eof_iff:
  assumes "\<forall>(k, d) \<in> set m. k + length d \<le> U64_MAX"
  shows "pending_within_eof e m = Inr () \<longleftrightarrow> (\<forall>(k, d) \<in> set m. k + length d \<le> e)"
  using assms by (induction e m rule: pending_within_eof.induct) (auto simp: run_simps)

lemma record_eof_spec:
  assumes "ra_inv r" and "Reassembler_record_and_validate_eof r e fin = Inr r0" and "e \<le> U64_MAX"
  shows "ra_wf r0" and "r0 = (if fin then r\<lparr>ra_eof := Some e\<rparr> else r)"
proof -
  have wf: "ra_wf r" and sorted: "bt_sorted (ra_pending r)"
    and ends: "\<forall>k d. frags r k = Some d \<longrightarrow> k + length d \<le> window_end r"
    using assms(1) by (auto simp: ra_inv_def ra_wf_def stored_ok_def)
  have pend: "\<forall>(k, d) \<in> set (ra_pending r). k + length d \<le> U64_MAX"
    using ends sorted by (fastforce simp: bt_get_iff window_end_def)
  show eq: "r0 = (if fin then r\<lparr>ra_eof := Some e\<rparr> else r)"
    using assms(2)
    by (auto simp: Reassembler_record_and_validate_eof_def split: if_splits option.splits sum.splits)
  show "ra_wf r0"
  proof (cases "fin \<and> ra_eof r = None")
    case True
    then have "pushed r \<le> e" and "pending_within_eof e (ra_pending r) = Inr ()"
      using assms(2) by (auto simp: Reassembler_record_and_validate_eof_def stream_accessors
          split: if_splits sum.splits)
    then have "pushed r \<le> e \<and> (\<forall>k d. frags r k = Some d \<longrightarrow> k + length d \<le> e)"
      using pending_within_eof_iff [OF pend] bt_get_in by fastforce
    then show ?thesis using wf eq True assms(3) unfolding ra_wf_def stored_ok_def window_end_def by simp
  next
    case False
    then have "r0 = r"
      using assms(2) by (auto simp: Reassembler_record_and_validate_eof_def split: if_splits option.splits)
    then show ?thesis using wf by simp
  qed
qed

lemma try_insert_cases:
  assumes "ra_inv r"
  obtains (reject) err where "Reassembler_try_insert r first d fin = Some (r, Inl err)"
  | (store) r0 where "first + length d \<le> U64_MAX" "ra_wf r0"
      "r0 = (if fin then r\<lparr>ra_eof := Some (first + length d)\<rparr> else r)"
      "\<And>e. ra_eof r0 = Some e \<Longrightarrow> first + length d \<le> e"
      "Reassembler_try_insert r first d fin =
         Reassembler_store r0 first d (first + length d) \<bind> (\<lambda>r'. Some (r', Inr ()))"
proof (cases "first + length d \<le> U64_MAX")
  case False
  then have "Reassembler_try_insert r first d fin = Some (r, Inl IndexOverflow)"
    by (simp add: Reassembler_try_insert_def add64_def)
  then show ?thesis by (rule reject)
next
  case True
  then have add: "add64 first (length d) = Some (first + length d)" by (rule run_simps)
  show ?thesis
  proof (cases "Reassembler_record_and_validate_eof r (first + length d) fin")
    case (Inl err)
    then show ?thesis using reject add by (simp add: Reassembler_try_insert_def)
  next
    case (Inr r0)
    note rec = record_eof_spec [OF assms Inr True]
    show ?thesis
    proof (cases "\<exists>e. ra_eof r0 = Some e \<and> e < first + length d")
      case True
      then have "r0 = r" using rec(2) by (auto split: if_splits)
      then show ?thesis using reject add Inr True by (auto simp: Reassembler_try_insert_def)
    next
      case False
      then have "\<not> (case ra_eof r0 of None \<Rightarrow> False | Some e \<Rightarrow> first + length d > e)"
        by (simp split: option.splits)
      then show ?thesis using store [OF True rec] add Inr False
        by (force simp: Reassembler_try_insert_def)
    qed
  qed
qed

lemma try_insert_safe:
  assumes "ra_inv r"
  shows "\<exists>r' res. Reassembler_try_insert r first d fin = Some (r', res) \<and> ra_inv r' \<and>
    bs_popped (ra_output r') = bs_popped (ra_output r) \<and> (\<forall>e. res = Inl e \<longrightarrow> r' = r)"
proof (cases rule: try_insert_cases [OF assms, of first d fin, case_names reject store])
  case (reject err)
  then show ?thesis using assms by auto
next
  case (store r0)
  have "bs_popped (ra_output r0) = bs_popped (ra_output r)" using store(3) by simp
  then have "\<exists>r'. Reassembler_store r0 first d (first + length d) = Some r' \<and> ra_inv r' \<and>
      bs_popped (ra_output r') = bs_popped (ra_output r)"
    using store_spec [OF store(2,1)] store_error [OF store(2,1)] store(4)
    unfolding absorbs_def by metis
  then show ?thesis using store(5) by auto
qed

text \<open>The first index not yet assembled is the least index the reassembler does not hold.\<close>

lemma pushed_least:
  assumes "ra_wf r"
  shows "pushed r = (LEAST i. i \<notin> known r)"
proof (rule Least_equality [symmetric])
  show "pushed r \<notin> known r" using assms by (fastforce simp: known_def ra_wf_def covered_def)
  show "pushed r \<le> i" if "i \<notin> known r" for i using that by (simp add: known_def)
qed

lemma try_insert_refines:
  assumes "ra_inv r" and "\<not> bs_error (ra_output r)"
    and "Reassembler_try_insert r first d fin = Some (r', Inr ())"
  shows "ra_inv r'" and "known r' = known r \<union> ({first..<first + length d} \<inter> {..<window_end r})"
    and "ra_eof r' = (if fin then Some (first + length d) else ra_eof r)"
    and "absorbs r (clip_start r first) (clip_data r first d) r'"
proof -
  have "ra_inv r' \<and> known r' = known r \<union> ({first..<first + length d} \<inter> {..<window_end r}) \<and>
    ra_eof r' = (if fin then Some (first + length d) else ra_eof r) \<and>
    absorbs r (clip_start r first) (clip_data r first d) r'"
  proof (cases rule: try_insert_cases [OF assms(1), of first d fin, case_names reject store])
    case (reject err)
    then show ?thesis using assms(3) by simp
  next
    case (store r0)
    have same: "ra_output r0 = ra_output r" "ra_pending r0 = ra_pending r"
      "clip_start r0 first = clip_start r first" "clip_data r0 first d = clip_data r first d"
      "known r0 = known r" "ra_eof r0 = (if fin then Some (first + length d) else ra_eof r)"
      using store(3) by (auto simp: clip_start_def clip_data_def window_end_def known_def)
    have st: "ra_inv r'" "ra_eof r' = ra_eof r0" "absorbs r (clip_start r first) (clip_data r first d) r'"
    proof -
      have "absorbs r0 lo e r' = absorbs r lo e r'" for lo e
        unfolding absorbs_def same(1,2,5) ..
      then show "ra_inv r'" "ra_eof r' = ra_eof r0" "absorbs r (clip_start r first) (clip_data r first d) r'"
        using store_spec [OF store(2,1)] store(4,5) assms(2,3) same(1,3,4) by auto
    qed
    have "known r \<union> {clip_start r first..<clip_start r first + length (clip_data r first d)} =
        known r \<union> ({first..<first + length d} \<inter> {..<window_end r})"
    proof (cases "clip_data r first d = []")
      case True
      then have "i < pushed r" if "first \<le> i" "i < first + length d" "i < window_end r" for i
        using that by (auto simp: clip_data_def clip_start_def min_def max_def split: if_splits)
      then show ?thesis using True by (auto simp: known_def)
    next
      case False
      show ?thesis unfolding clip_bounds(1) [OF False]
        by (auto simp: known_def clip_start_def)
    qed
    then show ?thesis using st same by (simp add: absorbs_def)
  qed
  then show "ra_inv r'" and "known r' = known r \<union> ({first..<first + length d} \<inter> {..<window_end r})"
    and "ra_eof r' = (if fin then Some (first + length d) else ra_eof r)"
    and "absorbs r (clip_start r first) (clip_data r first d) r'" by blast+
qed


section \<open>Reassembling a stream\<close>

text \<open>
  \<open>fits S r\<close>: the output that has not been read and all fragments of \<open>r\<close> are parts of the stream
  \<open>S\<close>. An execution inserts segments and reads from the output; what was read is recorded.
\<close>

definition fits :: "bytes \<Rightarrow> Reassembler \<Rightarrow> bool" where
  "fits S r \<longleftrightarrow> pushed r \<le> length S \<and>
     bs_contents (ra_output r) = drop (bs_popped (ra_output r)) (take (pushed r) S) \<and>
     (\<forall>i b. byte_at (frags r) i b \<longrightarrow> i < length S \<and> S ! i = b) \<and>
     (\<forall>e. ra_eof r = Some e \<longrightarrow> e = length S)"

datatype reasm_op = RInsert nat bytes bool | RRead nat | RSetError

fun reasm_step :: "Reassembler \<times> bytes \<Rightarrow> reasm_op \<Rightarrow> (Reassembler \<times> bytes) run" where
  "reasm_step (r, out) (RInsert first d fin) =
     do { (r, _) \<leftarrow> Reassembler_try_insert r first d fin; Some (r, out) }"
| "reasm_step (r, out) (RRead n) =
     do { (s, d) \<leftarrow> ByteStream_pop (ra_output r) n; Some (r\<lparr>ra_output := s\<rparr>, out @ d) }"
| "reasm_step (r, out) RSetError = Some (r\<lparr>ra_output := ByteStream_set_error (ra_output r)\<rparr>, out)"

definition reasm_inv :: "Reassembler \<times> bytes \<Rightarrow> bool" where
  "reasm_inv t \<longleftrightarrow> ra_inv (fst t) \<and> bs_popped (ra_output (fst t)) = length (snd t)"

lemma fits_absorbs:
  assumes "fits S r" and "ra_inv r" and "absorbs r lo d r'" and "ra_inv r'"
    and "\<And>i b. data_at lo d i b \<Longrightarrow> i < length S \<and> S ! i = b"
    and "\<And>e. ra_eof r' = Some e \<Longrightarrow> e = length S"
  shows "fits S r'"
proof -
  obtain a where a: "bs_contents (ra_output r') = bs_contents (ra_output r) @ a"
      "pushed r' = pushed r + length a"
      "\<forall>i < length a. byte_at (frags r) (pushed r + i) (a ! i) \<or> data_at lo d (pushed r + i) (a ! i)"
    using assms(3) by (auto simp: absorbs_def)
  have at: "pushed r + i < length S \<and> S ! (pushed r + i) = a ! i" if "i < length a" for i
    using a(3) that assms(1,5) by (fastforce simp: fits_def)
  have len: "pushed r' \<le> length S"
    using at [of "length a - 1"] a(2) assms(1) by (cases a) (auto simp: fits_def)
  have "a = take (length a) (drop (pushed r) S)"
    using at len a(2) by (intro nth_equalityI) auto
  then have "take (pushed r') S = take (pushed r) S @ a" using a(2) by (simp add: take_add)
  moreover have "bs_popped (ra_output r) \<le> pushed r"
    using assms(2) by (simp add: ra_inv_def ra_wf_def stored_ok_def bs_wf_def)
  ultimately have "bs_contents (ra_output r') = drop (bs_popped (ra_output r')) (take (pushed r') S)"
    using a(1) assms(1,3) by (simp add: fits_def absorbs_def)
  moreover have "i < length S \<and> S ! i = b" if "byte_at (frags r') i b" for i b
  proof -
    have "pushed r' \<le> i" using that assms(4) by (fastforce simp: byte_at_def ra_inv_def ra_wf_def)
    then have "byte_at (frags r) i b \<or> data_at lo d i b"
      using that assms(3) by (simp add: absorbs_def)
    then show ?thesis using assms(1,5) by (auto simp: fits_def)
  qed
  ultimately show ?thesis using len assms(6) by (simp add: fits_def)
qed

lemma pop_keeps:
  assumes "ra_inv r"
  shows "\<exists>s d. ByteStream_pop (ra_output r) n = Some (s, d) \<and> ra_inv (r\<lparr>ra_output := s\<rparr>) \<and>
    bs_popped s = bs_popped (ra_output r) + length d \<and> bs_contents (ra_output r) = d @ bs_contents s \<and>
    bs_pushed s = pushed r \<and> bs_error s = bs_error (ra_output r) \<and> bs_closed s = bs_closed (ra_output r) \<and>
    known (r\<lparr>ra_output := s\<rparr>) = known r \<and> bs_capacity s = bs_capacity (ra_output r)"
proof -
  have wf: "bs_wf (ra_output r)" using assms by (simp add: ra_inv_def ra_wf_def stored_ok_def)
  obtain s d where s: "ByteStream_pop (ra_output r) n = Some (s, d)" "bs_wf s"
    "bs_contents (ra_output r) = d @ bs_contents s"
    "bs_popped s = bs_popped (ra_output r) + length d" "bs_pushed s = pushed r"
    "bs_capacity s = bs_capacity (ra_output r)" "bs_closed s = bs_closed (ra_output r)"
    "bs_error s = bs_error (ra_output r)"
    using pop_spec [OF wf, of n] by blast
  have "window_end r \<le> window_end (r\<lparr>ra_output := s\<rparr>)"
    using s(4,6) by (simp add: window_end_def)
  then have "ra_inv (r\<lparr>ra_output := s\<rparr>)"
    using assms s unfolding ra_inv_def ra_wf_def stored_ok_def by (auto intro: le_trans)
  then show ?thesis using s by (auto simp: known_def)
qed

lemma set_error_keeps:
  "ra_inv r \<Longrightarrow> ra_inv (r\<lparr>ra_output := ByteStream_set_error (ra_output r)\<rparr>)"
  using bs_wf_set_error [of "ra_output r"]
  by (simp add: ByteStream_set_error_def ra_inv_def ra_wf_def stored_ok_def window_end_def)

lemma ra_inv_new:
  assumes "capacity \<le> U64_MAX"
  defines "r \<equiv> \<lparr>ra_output = ByteStream_new capacity, ra_pending = [], ra_eof = None\<rparr>"
  shows "Reassembler_new capacity = Some r" and "ra_inv r" and "fits S r" and "known r = {}"
proof -
  show "ra_inv r" using assms bs_wf_new [OF assms(1)]
    by (auto simp: r_def ra_inv_def ra_wf_def stored_ok_def) (simp add: ByteStream_new_def)
  then show "Reassembler_new capacity = Some r"
    using ra_wf_checked [of r] by (simp add: Reassembler_new_def r_def ra_inv_def)
  show "fits S r" by (simp add: r_def fits_def byte_at_def) (simp add: ByteStream_new_def)
  show "known r = {}" by (simp add: r_def known_def covered_def) (simp add: ByteStream_new_def)
qed

interpretation reasm: safe_machine reasm_step reasm_inv "\<lambda>_ _. True"
proof -
  have step: "\<exists>t'. reasm_step t x = Some t' \<and> reasm_inv t'" if inv: "reasm_inv t" for t x
  proof -
    obtain r out where t: "t = (r, out)" by (cases t)
    then have r: "ra_inv r" "bs_popped (ra_output r) = length out"
      using inv by (auto simp: reasm_inv_def)
    show ?thesis
    proof (cases x)
      case (RInsert first d fin)
      then show ?thesis using try_insert_safe [OF r(1), of first d fin] t r
        by (fastforce simp: reasm_inv_def)
    next
      case (RRead n)
      then show ?thesis using pop_keeps [OF r(1), of n] t r by (auto simp: reasm_inv_def)
    next
      case RSetError
      then show ?thesis using set_error_keeps [OF r(1)] t r
        by (simp add: reasm_inv_def ByteStream_set_error_def)
    qed
  qed
  show "safe_machine reasm_step reasm_inv (\<lambda>_ _. True)"
    by unfold_locales (metis step, metis step option.inject)
qed

text \<open>Segments of a stream, and what inserting one does.\<close>

fun segment_of :: "bytes \<Rightarrow> reasm_op \<Rightarrow> bool" where
  "segment_of S (RInsert first d fin) =
     (first + length d \<le> length S \<and> d = take (length d) (drop first S) \<and>
      (fin \<longrightarrow> first + length d = length S))"
| "segment_of S (RRead n) = True"
| "segment_of S RSetError = False"

lemma clip_data_of_stream:
  assumes "segment_of S (RInsert first d fin)" and "data_at (clip_start r first) (clip_data r first d) i b"
  shows "i < length S \<and> S ! i = b"
proof -
  have "data_at first d i b"
    using assms(2) unfolding clip_data_def by (rule data_at_slice) (simp add: clip_start_def)
  then have i: "first \<le> i" "i < first + length d" and b: "d ! (i - first) = b"
    by (auto simp: data_at_def)
  have d: "d = take (length d) (drop first S)" and len: "first + length d \<le> length S"
    using assms(1) by auto
  have "d ! (i - first) = take (length d) (drop first S) ! (i - first)" using d by simp
  then show ?thesis using i b len by simp
qed

text \<open>A segment of the stream is not rejected.\<close>

lemma segment_accepted:
  assumes "ra_inv r" and "fits S r" and "segment_of S (RInsert first d fin)" and "length S \<le> U64_MAX"
  shows "\<exists>r'. Reassembler_try_insert r first d fin = Some (r', Inr ())"
proof -
  have max: "first + length d \<le> U64_MAX" using assms(3,4) by simp
  have sorted: "bt_sorted (ra_pending r)" and ok: "frags_ok (frags r)"
    using assms(1) by (auto simp: ra_inv_def ra_wf_def stored_ok_def)
  have ends: "k + length e \<le> length S" if "(k, e) \<in> set (ra_pending r)" for k e
  proof -
    have get: "frags r k = Some e" using that sorted by (simp add: bt_get_iff)
    then have "e \<noteq> []" using ok frags_ok_nonempty by blast
    then have "byte_at (frags r) (k + length e - 1) (e ! (length e - 1))"
      unfolding byte_at_def using get by (intro exI [of _ k] exI [of _ e]) (auto simp: neq_Nil_conv)
    then show ?thesis using assms(2) \<open>e \<noteq> []\<close> by (fastforce simp: fits_def neq_Nil_conv)
  qed
  have "pending_within_eof (length S) (ra_pending r) = Inr ()"
    using pending_within_eof_iff [of "ra_pending r" "length S"] ends assms(4) by fastforce
  then have "Reassembler_record_and_validate_eof r (first + length d) fin =
      Inr (if fin then r\<lparr>ra_eof := Some (length S)\<rparr> else r)"
    using assms(2,3) by (auto simp: Reassembler_record_and_validate_eof_def fits_def stream_accessors
        split: option.splits)
  then have "\<nexists>err r'. Reassembler_try_insert r first d fin = Some (r', Inl err)"
    using max assms(2,3)
    by (auto simp: Reassembler_try_insert_def run_simps fits_def bind_eq_Some_conv split: option.splits if_splits)
  moreover obtain r' res where "Reassembler_try_insert r first d fin = Some (r', res)"
    using try_insert_safe [OF assms(1), of first d fin] by blast
  ultimately show ?thesis by (cases res) auto
qed

text \<open>One step on a segment of \<open>S\<close>: all that \<open>S\<close> promises is kept, and the segment is now known.\<close>

fun op_range :: "reasm_op \<Rightarrow> nat set" where
  "op_range (RInsert first d fin) = {first..<first + length d}"
| "op_range _ = {}"

fun op_final :: "reasm_op \<Rightarrow> bool" where
  "op_final (RInsert first d fin) = fin"
| "op_final _ = False"

definition reassembling :: "bytes \<Rightarrow> Reassembler \<times> bytes \<Rightarrow> bool" where
  "reassembling S t \<longleftrightarrow> reasm_inv t \<and> fits S (fst t) \<and> \<not> bs_error (ra_output (fst t)) \<and>
     (\<exists>rest. S = snd t @ rest)"

lemma reassembling_step:
  assumes "reassembling S t" and "segment_of S x" and "length S \<le> U64_MAX"
  shows "\<exists>t'. reasm_step t x = Some t' \<and> reassembling S t' \<and>
    known (fst t') = known (fst t) \<union> (op_range x \<inter> {..<window_end (fst t)}) \<and>
    bs_capacity (ra_output (fst t')) = bs_capacity (ra_output (fst t)) \<and>
    (ra_eof (fst t') \<noteq> None \<longleftrightarrow> ra_eof (fst t) \<noteq> None \<or> op_final x)"
proof -
  obtain r out where t: "t = (r, out)" by (cases t)
  have r: "ra_inv r" "bs_popped (ra_output r) = length out" "fits S r" "\<not> bs_error (ra_output r)"
    "\<exists>rest. S = out @ rest"
    using assms(1) t by (auto simp: reassembling_def reasm_inv_def)
  show ?thesis
  proof (cases x)
    case (RInsert first d fin)
    obtain r' where ins: "Reassembler_try_insert r first d fin = Some (r', Inr ())"
      using segment_accepted [OF r(1,3)] assms(2,3) RInsert by blast
    note ref = try_insert_refines [OF r(1,4) ins]
    have seg: "segment_of S (RInsert first d fin)" using assms(2) RInsert by simp
    have "fits S r'"
      using clip_data_of_stream [OF seg] seg ref(3) r(3)
      by (intro fits_absorbs [OF r(3,1) ref(4,1)]) (auto simp: fits_def split: if_splits)
    then show ?thesis using t RInsert ins ref r
      by (auto simp: reassembling_def reasm_inv_def absorbs_def)
  next
    case (RRead n)
    obtain s d where s: "ByteStream_pop (ra_output r) n = Some (s, d)" "ra_inv (r\<lparr>ra_output := s\<rparr>)"
      "bs_popped s = length out + length d" "bs_contents (ra_output r) = d @ bs_contents s"
      "bs_pushed s = pushed r" "bs_error s = bs_error (ra_output r)" "known (r\<lparr>ra_output := s\<rparr>) = known r"
      "bs_capacity s = bs_capacity (ra_output r)"
      using pop_keeps [OF r(1), of n] r(2) by auto
    have c: "d @ bs_contents s = drop (length out) (take (pushed r) S)"
      using r(2,3) s(4) by (simp add: fits_def)
    have le: "length out \<le> pushed r" "pushed r \<le> length S"
      using r(1-3) by (auto simp: ra_inv_def ra_wf_def stored_ok_def bs_wf_def fits_def)
    have all: "out @ d @ bs_contents s = take (pushed r) S"
      using append_take_drop_id [of "length out" "take (pushed r) S"] c r(5) le by (auto simp: min_def)
    then have "bs_contents s = drop (length out + length d) (take (pushed r) S)"
      by (metis append.assoc append_eq_conv_conj length_append)
    then have "fits S (r\<lparr>ra_output := s\<rparr>)" using r(3) s(3,5) by (simp add: fits_def)
    moreover have "S = (out @ d) @ bs_contents s @ drop (pushed r) S"
      using append_take_drop_id [of "pushed r" S, folded all] by simp
    ultimately have "reassembling S (r\<lparr>ra_output := s\<rparr>, out @ d)"
      using s r(4) unfolding reassembling_def reasm_inv_def by (auto simp del: append_assoc)
    then show ?thesis using t RRead s by simp
  next
    case RSetError
    then show ?thesis using assms(2) by simp
  qed
qed


lemma op_range_subset: "segment_of S x \<Longrightarrow> op_range x \<subseteq> {..<length S}"
  by (cases x) auto

lemma reassembling_run:
  assumes "reassembling S t" and "\<forall>x \<in> set ops. segment_of S x" and "length S \<le> U64_MAX"
  shows "\<exists>t'. run_all reasm_step t ops = Some t' \<and> reassembling S t' \<and>
    (length S \<le> bs_capacity (ra_output (fst t)) \<longrightarrow>
       known (fst t') = known (fst t) \<union> \<Union> (op_range ` set ops)) \<and>
    (ra_eof (fst t') \<noteq> None \<longleftrightarrow> ra_eof (fst t) \<noteq> None \<or> (\<exists>x \<in> set ops. op_final x))"
  using assms
proof (induction ops arbitrary: t)
  case Nil
  then show ?case by simp
next
  case (Cons x ops)
  obtain t1 where t1: "reasm_step t x = Some t1" "reassembling S t1"
    "known (fst t1) = known (fst t) \<union> (op_range x \<inter> {..<window_end (fst t)})"
    "bs_capacity (ra_output (fst t1)) = bs_capacity (ra_output (fst t))"
    "ra_eof (fst t1) \<noteq> None \<longleftrightarrow> ra_eof (fst t) \<noteq> None \<or> op_final x"
    using reassembling_step [OF Cons.prems(1) _ Cons.prems(3)] Cons.prems(2) by fastforce
  have "op_range x \<subseteq> {..<window_end (fst t)}" if "length S \<le> bs_capacity (ra_output (fst t))"
    using op_range_subset [of S x] Cons.prems(2,3) that by (fastforce simp: window_end_def)
  then have "known (fst t1) = known (fst t) \<union> op_range x" if "length S \<le> bs_capacity (ra_output (fst t))"
    using t1(3) that by auto
  then show ?case using Cons.IH [OF t1(2)] Cons.prems(2,3) t1(1,4,5) by fastforce
qed

lemma known_complete:
  assumes "ra_inv r" and "fits S r" and "known r = {..<length S}" and "ra_eof r \<noteq> None"
  shows "pushed r = length S" and "bs_closed (ra_output r)"
proof -
  have "pushed r \<notin> known r"
    using assms(1) by (fastforce simp: known_def ra_inv_def ra_wf_def covered_def)
  then show "pushed r = length S" using assms(2,3) by (simp add: fits_def not_less)
  then show "bs_closed (ra_output r)" using assms(1,2,4) by (auto simp: fits_def ra_inv_def)
qed


lemma reassembling_new:
  assumes "capacity \<le> U64_MAX"
  defines "r \<equiv> \<lparr>ra_output = ByteStream_new capacity, ra_pending = [], ra_eof = None\<rparr>"
  shows "Reassembler_new capacity = Some r" and "reassembling S (r, [])" and "known r = {}"
  using ra_inv_new [OF assms(1)]
  by (simp_all add: r_def reassembling_def reasm_inv_def) (simp_all add: ByteStream_new_def)

lemma reassembling_output:
  assumes "reassembling S (r, out)"
  shows "out @ bs_contents (ra_output r) = take (pushed r) S"
    and "bs_closed (ra_output r) \<Longrightarrow> pushed r = length S"
proof -
  have r: "ra_inv r" "bs_popped (ra_output r) = length out" "fits S r" "\<exists>rest. S = out @ rest"
    using assms by (auto simp: reassembling_def reasm_inv_def)
  then have "length out \<le> pushed r"
    by (auto simp: ra_inv_def ra_wf_def stored_ok_def bs_wf_def)
  then show "out @ bs_contents (ra_output r) = take (pushed r) S"
    using r append_take_drop_id [of "length out" "take (pushed r) S"] by (auto simp: fits_def min_def)
  show "pushed r = length S" if "bs_closed (ra_output r)"
    using that r(1,3) by (auto simp: ra_inv_def ra_wf_def fits_def)
qed

section \<open>Properties\<close>

text \<open>
  From a new reassembler no sequence of calls panics: segments at any index and of any content,
  overlapping, beyond the window or contradicting an earlier end of stream, reads and errors set on
  the output. No slice is out of range, no arithmetic overflows and every debug assertion of
  \<open>debug_check_invariants\<close> holds; in particular the bytes buffered in the output and pending in
  fragments together stay within the capacity.
\<close>

lemma reassembler_never_panics:
  assumes "capacity \<le> U64_MAX"
  shows "\<exists>r out. (do { r \<leftarrow> Reassembler_new capacity; run_all reasm_step (r, []) ops }) = Some (r, out) \<and>
    Reassembler_debug_check_invariants r = Some () \<and>
    ByteStream_bytes_popped (ra_output r) = length out"
proof -
  define r0 where "r0 = \<lparr>ra_output = ByteStream_new capacity, ra_pending = [], ra_eof = None\<rparr>"
  have new: "Reassembler_new capacity = Some r0" "ra_inv r0"
    using ra_inv_new [OF assms] by (simp_all add: r0_def)
  then have "reasm_inv (r0, [])" by (simp add: reasm_inv_def r0_def ByteStream_new_def)
  then obtain t where t: "run_all reasm_step (r0, []) ops = Some t" "reasm_inv t"
    using reasm.run_safe_always by blast
  obtain r out where "t = (r, out)" by (cases t)
  then show ?thesis using t new(1)
    by (auto simp: reasm_inv_def ra_inv_def ra_wf_checked stream_accessors)
qed

text \<open>
  C9. An accepted segment refines set union: afterwards the reassembler holds exactly the indices it
  held before and those of the segment that lie in the receive window, the bytes it has written to
  its output are exactly those before the least index it does not hold, the recorded end of stream is
  the segment's end if it was marked last, and the output is closed exactly when all of the
  stream up to that end has been written.
\<close>

theorem insert_refines_union:
  assumes "ra_inv r" and "\<not> ByteStream_has_error (ra_output r)"
    and "Reassembler_try_insert r first data fin = Some (r', Inr ())"
  shows "known r' = known r \<union> ({first..<first + length data} \<inter> {..<window_end r}) \<and>
    ByteStream_bytes_pushed (ra_output r') = (LEAST i. i \<notin> known r') \<and>
    ra_eof r' = (if fin then Some (first + length data) else ra_eof r) \<and>
    (ByteStream_is_closed (ra_output r') \<longleftrightarrow>
       ra_eof r' = Some (ByteStream_bytes_pushed (ra_output r')))"
proof -
  note ref = try_insert_refines [OF assms(1) _ assms(3)]
  have inv: "ra_inv r'" using ref(1) assms(2) by (simp add: stream_accessors)
  then have "pushed r' = (LEAST i. i \<notin> known r')" by (intro pushed_least) (simp add: ra_inv_def)
  moreover have "bs_closed (ra_output r') \<longleftrightarrow> ra_eof r' = Some (pushed r')"
    using inv by (auto simp: ra_inv_def ra_wf_def)
  ultimately show ?thesis unfolding stream_accessors
    using ref(2,3) assms(2) by (simp only: stream_accessors not_False_eq_True simp_thms)
qed

definition example_reassembler :: Reassembler where
  "example_reassembler = \<lparr>ra_output = ByteStream_new 8, ra_pending = [], ra_eof = None\<rparr>"

theorem insert_refines_union_witness:
  "\<exists>r'. Reassembler_try_insert example_reassembler 2 [1, 2, 3] True = Some (r', Inr ()) \<and>
    known r' = known example_reassembler \<union> ({2..<5} \<inter> {..<window_end example_reassembler}) \<and> ra_eof r' = Some 5"
proof -
  have inv: "ra_inv example_reassembler" "\<not> ByteStream_has_error (ra_output example_reassembler)"
    using ra_inv_new(2) [of 8] by (simp_all add: example_reassembler_def stream_accessors ByteStream_new_def)
  obtain r' where r': "Reassembler_try_insert example_reassembler 2 [1, 2, 3] True = Some (r', Inr ())"
    using segment_accepted [of example_reassembler "[0, 0, 1, 2, 3]" 2 "[1, 2, 3]" True] inv(1)
      ra_inv_new(3) [of 8] by (auto simp: example_reassembler_def)
  from insert_refines_union [OF inv r'] r' show ?thesis by simp
qed

text \<open>
  C10. When every segment is a part of one stream \<open>S\<close>, in any order and with any overlap, duplication
  or loss, every call succeeds, what has been read and what can still be read is a prefix of \<open>S\<close>,
  and when the output is closed it is all of \<open>S\<close>.
\<close>

theorem reassembles_prefix:
  assumes "capacity \<le> U64_MAX" and "length S \<le> U64_MAX" and "\<forall>x \<in> set ops. segment_of S x"
  shows "\<exists>r out. (do { r \<leftarrow> Reassembler_new capacity; run_all reasm_step (r, []) ops }) = Some (r, out) \<and>
    out @ bs_contents (ra_output r) = take (ByteStream_bytes_pushed (ra_output r)) S \<and>
    (ByteStream_is_closed (ra_output r) \<longrightarrow> out @ bs_contents (ra_output r) = S)"
proof -
  note new = reassembling_new [OF assms(1)]
  obtain r out where t: "run_all reasm_step (the (Reassembler_new capacity), []) ops = Some (r, out)"
    "reassembling S (r, out)"
    using reassembling_run [OF new(2) assms(3,2)] new(1) by auto
  then show ?thesis
    using new(1) reassembling_output [OF t(2)] by (simp add: stream_accessors)
qed

theorem reassembles_prefix_witness:
  "\<exists>r out. (do { r \<leftarrow> Reassembler_new 4;
      run_all reasm_step (r, []) [RInsert 2 [7, 8, 9] True, RRead 3, RInsert 0 [5, 6, 7] False] }) = Some (r, out) \<and>
    out @ bs_contents (ra_output r) = take (ByteStream_bytes_pushed (ra_output r)) [5, 6, 7, 8, 9] \<and>
    (ByteStream_is_closed (ra_output r) \<longrightarrow> out @ bs_contents (ra_output r) = [5, 6, 7, 8, 9])"
  by (rule reassembles_prefix) simp_all

text \<open>
  C11. Liveness: if the window is as large as the stream and the segments, in any order, cover the
  stream and one is marked last, the whole stream is delivered and the output is closed.
\<close>

theorem reassembles_all:
  assumes "capacity \<le> U64_MAX" and "length S \<le> capacity" and "\<forall>x \<in> set ops. segment_of S x"
    and "{..<length S} \<subseteq> \<Union> (op_range ` set ops)" and "\<exists>x \<in> set ops. op_final x"
  shows "\<exists>r out. (do { r \<leftarrow> Reassembler_new capacity; run_all reasm_step (r, []) ops }) = Some (r, out) \<and>
    out @ bs_contents (ra_output r) = S \<and> ByteStream_is_closed (ra_output r)"
proof -
  note new = reassembling_new [OF assms(1)]
  have S: "length S \<le> U64_MAX" using assms(1,2) by simp
  obtain r out where t: "run_all reasm_step (the (Reassembler_new capacity), []) ops = Some (r, out)"
    "reassembling S (r, out)" "known r = \<Union> (op_range ` set ops)" "ra_eof r \<noteq> None"
  proof -
    have "bs_capacity (ra_output (the (Reassembler_new capacity))) = capacity"
      unfolding new(1) by (simp add: ByteStream_new_def)
    then show ?thesis
      using that reassembling_run [OF new(2) assms(3) S] assms(2,5) unfolding new(1) option.sel fst_conv new(3)
      by fastforce
  qed
  have "\<Union> (op_range ` set ops) \<subseteq> {..<length S}" using op_range_subset assms(3) by blast
  then have full: "known r = {..<length S}" using assms(4) unfolding t(3) by (rule subset_antisym)
  have "ra_inv r" and "fits S r" using t(2) by (simp_all add: reassembling_def reasm_inv_def)
  note known_complete [OF this full t(4)]
  then show ?thesis
    using t(1) new(1) reassembling_output [OF t(2)] by (simp add: stream_accessors)
qed

theorem reassembles_all_witness:
  "\<exists>r out. (do { r \<leftarrow> Reassembler_new 8;
      run_all reasm_step (r, []) [RInsert 2 [7, 8] True, RRead 3, RInsert 0 [5, 6, 7] False] }) = Some (r, out) \<and>
    out @ bs_contents (ra_output r) = [5, 6, 7, 8] \<and> ByteStream_is_closed (ra_output r)"
proof (rule reassembles_all)
  show "{..<length [5, 6, 7, 8 :: byte]}
      \<subseteq> \<Union> (op_range ` set [RInsert 2 [7, 8] True, RRead 3, RInsert 0 [5, 6, 7] False])"
    by (auto simp: not_le)
qed simp_all

end
