(* ===== verification/Wrapping_Integers.thy ===== *)
theory Wrapping_Integers
  imports Prelude
begin

text \<open>
  \<open>src/wrapping_integers.rs\<close>: 32-bit sequence numbers that wrap, and their translation from and
  to absolute 64-bit sequence numbers.
\<close>

section \<open>Model\<close>

abbreviation MODULUS :: nat where "MODULUS \<equiv> 4294967296"

datatype Wrap32 = Wrap32 (raw_value: u32)

definition Wrap32_wrap :: "nat \<Rightarrow> Wrap32 \<Rightarrow> Wrap32" where
  "Wrap32_wrap absolute_seqno zero_point =
     Wrap32 (raw_value zero_point + of_nat absolute_seqno)"

definition Wrap32_unwrap :: "Wrap32 \<Rightarrow> Wrap32 \<Rightarrow> nat \<Rightarrow> nat run" where
  "Wrap32_unwrap self zero_point checkpoint = do {
     let offset = unat (raw_value self - raw_value zero_point);
     let era_start = checkpoint div MODULUS * MODULUS;
     current \<leftarrow> add64 era_start offset;
     let best = current;
     let best_distance = abs_diff current checkpoint;
     let (best, best_distance) =
       (case sub64 current MODULUS of
          Some previous \<Rightarrow>
            (let distance = abs_diff previous checkpoint in
             if distance < best_distance then (previous, distance) else (best, best_distance))
        | None \<Rightarrow> (best, best_distance));
     let best =
       (case add64 current MODULUS of
          Some next \<Rightarrow>
            (let distance = abs_diff next checkpoint in
             if distance < best_distance then next else best)
        | None \<Rightarrow> best);
     Some best
   }"

section \<open>Wrapping\<close>

text \<open>The distance from the zero point, as a natural number below the modulus.\<close>

definition wrap_offset :: "Wrap32 \<Rightarrow> Wrap32 \<Rightarrow> nat" where
  "wrap_offset w z = unat (raw_value w - raw_value z)"

lemma wrap_offset_less: "wrap_offset w z < MODULUS"
  using unat_u32_less by (simp add: wrap_offset_def)

lemma wrap_eq_iff: "Wrap32_wrap a z = w \<longleftrightarrow> a mod MODULUS = wrap_offset w z"
proof -
  have "Wrap32_wrap a z = w \<longleftrightarrow> of_nat a = raw_value w - raw_value z"
    by (cases w) (auto simp: Wrap32_wrap_def algebra_simps)
  also have "\<dots> \<longleftrightarrow> a mod MODULUS = wrap_offset w z"
    unfolding word_unat_eq_iff unat_of_nat32 wrap_offset_def by simp
  finally show ?thesis .
qed

lemma wrap_inject_mod: "Wrap32_wrap a z = Wrap32_wrap b z \<longleftrightarrow> a mod MODULUS = b mod MODULUS"
  by (metis wrap_eq_iff)

section \<open>Unwrapping\<close>

lemma unwrap_cases:
  fixes w z :: Wrap32 and c :: nat
  assumes "c \<le> U64_MAX"
  defines "m \<equiv> c div MODULUS * MODULUS + wrap_offset w z"
  shows "\<exists>r. Wrap32_unwrap w z c = Some r \<and> r \<le> U64_MAX \<and>
      (r = m \<or> (MODULUS \<le> m \<and> r = m - MODULUS) \<or> r = m + MODULUS) \<and>
      abs_diff r c \<le> abs_diff m c \<and>
      (MODULUS \<le> m \<longrightarrow> abs_diff r c \<le> abs_diff (m - MODULUS) c) \<and>
      (m + MODULUS \<le> U64_MAX \<longrightarrow> abs_diff r c \<le> abs_diff (m + MODULUS) c)"
proof -
  have "m \<le> U64_MAX"
    using div_le_mono [OF assms(1), of MODULUS] wrap_offset_less [of w z] unfolding m_def by simp
  then have "add64 (c div MODULUS * MODULUS) (unat (raw_value w - raw_value z)) = Some m"
    unfolding m_def wrap_offset_def by (simp add: add64_def)
  then show ?thesis
    using \<open>m \<le> U64_MAX\<close>
    by (auto simp: Wrap32_unwrap_def Let_def sub64_def add64_def [of m])
qed

text \<open>Of three congruent candidates around \<open>c\<close> the nearest is nearest among all congruent numbers.\<close>

lemma nearest_of_three:
  fixes r c :: nat
  assumes "m = c div MODULUS * MODULUS + k" and "k < MODULUS" and "x mod MODULUS = k"
    and "d \<le> abs_diff m c"
    and "MODULUS \<le> m \<longrightarrow> d \<le> abs_diff (m - MODULUS) c"
    and "m + MODULUS \<le> U64_MAX \<longrightarrow> d \<le> abs_diff (m + MODULUS) c"
    and "x \<le> U64_MAX"
  shows "d \<le> abs_diff x c"
proof -
  define q e where "q = x div MODULUS" and "e = c div MODULUS"
  have x: "x = q * MODULUS + k" and m: "m = e * MODULUS + k"
    and c: "e * MODULUS \<le> c" "c < e * MODULUS + MODULUS"
    using assms(1,3) div_mult_mod_eq [of x MODULUS] div_mult_mod_eq [of c MODULUS]
      mod_less_divisor [of MODULUS c]
    by (simp_all add: q_def e_def)
  consider "q = e" | "q < e" | "e < q" by linarith
  then show ?thesis
  proof cases
    case 1
    then show ?thesis using assms(4) x m by simp
  next
    case 2
    then have "x + MODULUS \<le> m" using x m by simp
    then show ?thesis using assms(2,5) c m by (simp add: abs_diff_def split: if_splits)
  next
    case 3
    then have "m + MODULUS \<le> x" using x m by simp
    then show ?thesis using assms(2,6,7) c m by (simp add: abs_diff_def split: if_splits)
  qed
qed

lemma congruent_near:
  fixes r a :: nat
  assumes "r < a + MODULUS" and "a < r + MODULUS" and "r mod MODULUS = a mod MODULUS"
  shows "r = a"
proof -
  have "r = r div MODULUS * MODULUS + a mod MODULUS" and "a = a div MODULUS * MODULUS + a mod MODULUS"
    using assms(3) div_mult_mod_eq [of r MODULUS] by simp_all
  then have "r div MODULUS = a div MODULUS" using assms(1,2) by linarith
  with assms(3) show ?thesis by (metis div_mult_mod_eq)
qed

lemma unwrap_spec:
  assumes "c \<le> U64_MAX"
  shows "\<exists>r. Wrap32_unwrap w z c = Some r \<and> r \<le> U64_MAX \<and> Wrap32_wrap r z = w \<and>
    (\<forall>x \<le> U64_MAX. Wrap32_wrap x z = w \<longrightarrow> abs_diff r c \<le> abs_diff x c)"
proof -
  let ?m = "c div MODULUS * MODULUS + wrap_offset w z"
  obtain r where r: "Wrap32_unwrap w z c = Some r" "r \<le> U64_MAX"
    "r = ?m \<or> (MODULUS \<le> ?m \<and> r = ?m - MODULUS) \<or> r = ?m + MODULUS"
    "abs_diff r c \<le> abs_diff ?m c"
    "MODULUS \<le> ?m \<longrightarrow> abs_diff r c \<le> abs_diff (?m - MODULUS) c"
    "?m + MODULUS \<le> U64_MAX \<longrightarrow> abs_diff r c \<le> abs_diff (?m + MODULUS) c"
    using unwrap_cases [OF assms, of w z] by blast
  have k: "wrap_offset w z < MODULUS" by (rule wrap_offset_less)
  have "r mod MODULUS = wrap_offset w z"
    using r(3) k by (auto simp: mod_simps le_mod_geq [symmetric])
  moreover have "abs_diff r c \<le> abs_diff x c" if "x \<le> U64_MAX" "Wrap32_wrap x z = w" for x
    using nearest_of_three [OF refl k _ r(4,5,6) that(1)] that(2) by (simp add: wrap_eq_iff)
  ultimately show ?thesis using r(1,2) by (auto simp: wrap_eq_iff)
qed

text \<open>
  C17. \<open>Wrap32::unwrap\<close> never panics on a 64-bit checkpoint, and its result is an absolute sequence
  number that wraps to the given one and is at least as close to the checkpoint as any other
  64-bit number that wraps to it.
\<close>

theorem unwrap_nearest:
  assumes "c \<le> U64_MAX"
  shows "\<exists>r. Wrap32_unwrap w z c = Some r \<and> r \<le> U64_MAX \<and> Wrap32_wrap r z = w \<and>
    (\<forall>x \<le> U64_MAX. Wrap32_wrap x z = w \<longrightarrow> abs_diff r c \<le> abs_diff x c)"
  using unwrap_spec [OF assms] .

theorem unwrap_nearest_witness:
  "\<exists>r. Wrap32_unwrap (Wrap32 17) (Wrap32 0) 4294967316 = Some r \<and> r = 4294967313"
  using unwrap_nearest [of 4294967316 "Wrap32 17" "Wrap32 0"]
  by (simp add: Wrap32_unwrap_def Let_def add64_def sub64_def abs_diff_def)

text \<open>The nearest congruent number is unique within half the modulus, which gives the round trip.\<close>

lemma unwrap_wrap:
  assumes "a \<le> U64_MAX" and "c \<le> U64_MAX" and "abs_diff a c < 2147483648"
  shows "Wrap32_unwrap (Wrap32_wrap a z) z c = Some a"
proof -
  obtain r where r: "Wrap32_unwrap (Wrap32_wrap a z) z c = Some r"
      "Wrap32_wrap r z = Wrap32_wrap a z"
      "\<forall>x \<le> U64_MAX. Wrap32_wrap x z = Wrap32_wrap a z \<longrightarrow> abs_diff r c \<le> abs_diff x c"
    using unwrap_spec [OF assms(2), of "Wrap32_wrap a z" z] by blast
  then have "abs_diff r c < 2147483648" using assms(1,3) le_less_trans by blast
  with assms(3) have "r < a + MODULUS" and "a < r + MODULUS"
    by (auto simp: abs_diff_def split: if_splits)
  moreover have "r mod MODULUS = a mod MODULUS" using r(2) by (simp add: wrap_inject_mod)
  ultimately have "r = a" by (rule congruent_near)
  with r(1) show ?thesis by simp
qed

end
