(* ===== verification/Tcp_Message.thy ===== *)
theory Tcp_Message
  imports Wrapping_Integers
begin

text \<open>
  \<open>src/tcp_message.rs\<close>: the two halves of a TCP segment, what a sender sends to the peer's receiver
  and the feedback a receiver sends to the peer's sender.
\<close>

section \<open>Model\<close>

record TcpSenderMessage =
  sm_seqno :: Wrap32
  sm_syn :: bool
  sm_payload :: bytes
  sm_fin :: bool
  sm_rst :: bool

definition TcpSenderMessage_new :: "Wrap32 \<Rightarrow> TcpSenderMessage" where
  "TcpSenderMessage_new seqno =
     \<lparr> sm_seqno = seqno, sm_syn = False, sm_payload = [], sm_fin = False, sm_rst = False \<rparr>"

text \<open>A payload in memory is far shorter than \<open>u64::MAX\<close>, so the sum does not overflow.\<close>

definition TcpSenderMessage_sequence_length :: "TcpSenderMessage \<Rightarrow> nat" where
  "TcpSenderMessage_sequence_length self =
     of_bool (sm_syn self) + length (sm_payload self) + of_bool (sm_fin self)"

definition TcpSenderMessage_is_empty_in_sequence_space :: "TcpSenderMessage \<Rightarrow> bool" where
  "TcpSenderMessage_is_empty_in_sequence_space self = (TcpSenderMessage_sequence_length self = 0)"

record TcpReceiverMessage =
  rm_ackno :: "Wrap32 option"
  rm_window_size :: u16
  rm_rst :: bool

section \<open>Sequence space\<close>

text \<open>
  The sequence numbers a message occupies, as symbols in their order: SYN, the payload bytes, FIN.
\<close>

datatype symbol = SYN | Octet byte | FIN

definition symbols :: "TcpSenderMessage \<Rightarrow> symbol list" where
  "symbols m = (if sm_syn m then [SYN] else []) @ map Octet (sm_payload m) @ (if sm_fin m then [FIN] else [])"

lemma sequence_length_symbols [simp]: "TcpSenderMessage_sequence_length m = length (symbols m)"
  by (simp add: symbols_def TcpSenderMessage_sequence_length_def)

lemma length_symbols: "length (symbols m) = of_bool (sm_syn m) + length (sm_payload m) + of_bool (sm_fin m)"
  by (simp add: symbols_def)

lemma is_empty_iff [simp]: "TcpSenderMessage_is_empty_in_sequence_space m \<longleftrightarrow> symbols m = []"
  by (simp add: TcpSenderMessage_is_empty_in_sequence_space_def)

end
