(* ===== verification/Tcp_Receiver.thy ===== *)
theory Tcp_Receiver
  imports Stream_Reassembler Tcp_Message
begin

text \<open>
  \<open>src/tcp_receiver.rs\<close>: the receive side of a connection. It learns the initial sequence number
  from the SYN, translates sequence numbers to stream indices for the reassembler, and reports the
  next sequence number it needs and its window.
\<close>

section \<open>Model\<close>

record TcpReceiver =
  rc_reassembler :: Reassembler
  rc_isn :: "Wrap32 option"

definition TcpReceiver_new :: "nat \<Rightarrow> TcpReceiver run" where
  "TcpReceiver_new capacity = do {
     reassembler \<leftarrow> Reassembler_new capacity;
     Some \<lparr> rc_reassembler = reassembler, rc_isn = None \<rparr>
   }"

definition TcpReceiver_output :: "TcpReceiver \<Rightarrow> ByteStream" where
  "TcpReceiver_output self = ra_output (rc_reassembler self)"

text \<open>The part of \<open>receive\<close> after the initial sequence number is known.\<close>

definition TcpReceiver_insert ::
  "TcpReceiver \<Rightarrow> Wrap32 \<Rightarrow> TcpSenderMessage \<Rightarrow> (TcpReceiver \<times> (ReassemblerError + unit)) run" where
  "TcpReceiver_insert self isn message = do {
     let checkpoint = saturating_add (ByteStream_bytes_pushed (TcpReceiver_output self)) 1;
     absolute_seqno \<leftarrow> Wrap32_unwrap (sm_seqno message) isn checkpoint;
     (case (if sm_syn message then Some absolute_seqno else sub64 absolute_seqno 1) of
        None \<Rightarrow> Some (self, Inr ())
      | Some stream_index \<Rightarrow> do {
          (reassembler, result) \<leftarrow> Reassembler_try_insert (rc_reassembler self) stream_index
             (sm_payload message) (sm_fin message);
          Some (self\<lparr> rc_reassembler := reassembler \<rparr>, result)
        })
   }"

definition TcpReceiver_receive ::
  "TcpReceiver \<Rightarrow> TcpSenderMessage \<Rightarrow> (TcpReceiver \<times> (ReassemblerError + unit)) run" where
  "TcpReceiver_receive self message =
     (if sm_rst message then
        Some (self\<lparr> rc_reassembler := (rc_reassembler self)
                \<lparr> ra_output := ByteStream_set_error (TcpReceiver_output self) \<rparr> \<rparr>, Inr ())
      else case rc_isn self of
        Some isn \<Rightarrow>
          (if sm_syn message \<and> sm_seqno message \<noteq> isn then Some (self, Inr ())
           else TcpReceiver_insert self isn message)
      | None \<Rightarrow>
          (if \<not> sm_syn message then Some (self, Inr ())
           else TcpReceiver_insert (self\<lparr> rc_isn := Some (sm_seqno message) \<rparr>)
                  (sm_seqno message) message))"

definition TcpReceiver_send :: "TcpReceiver \<Rightarrow> TcpReceiverMessage run" where
  "TcpReceiver_send self = do {
     let ackno = map_option (\<lambda>isn.
           (let absolute_ackno = saturating_add (ByteStream_bytes_pushed (TcpReceiver_output self)) 1;
                absolute_ackno = (if ByteStream_is_closed (TcpReceiver_output self)
                                  then saturating_add absolute_ackno 1 else absolute_ackno)
            in Wrap32_wrap absolute_ackno isn)) (rc_isn self);
     available_capacity \<leftarrow> ByteStream_available_capacity (TcpReceiver_output self);
     let window_size = of_nat (min available_capacity U16_MAX);
     Some \<lparr> rm_ackno = ackno, rm_window_size = window_size,
            rm_rst = ByteStream_has_error (TcpReceiver_output self) \<rparr>
   }"

section \<open>Safety\<close>

definition rc_inv :: "TcpReceiver \<Rightarrow> bool" where
  "rc_inv rc \<longleftrightarrow> ra_inv (rc_reassembler rc)"

lemma insert_safe:
  assumes "rc_inv rc"
  shows "\<exists>rc' res. TcpReceiver_insert rc isn m = Some (rc', res) \<and> rc_inv rc' \<and> rc_isn rc' = rc_isn rc \<and>
    bs_popped (TcpReceiver_output rc') = bs_popped (TcpReceiver_output rc) \<and>
    (\<forall>e. res = Inl e \<longrightarrow> rc' = rc)"
proof -
  obtain a where a: "Wrap32_unwrap (sm_seqno m) isn
      (saturating_add (ByteStream_bytes_pushed (TcpReceiver_output rc)) 1) = Some a"
    using unwrap_spec [OF saturating_add_le] by blast
  show ?thesis
  proof (cases "if sm_syn m then Some a else sub64 a 1")
    case None
    then show ?thesis using a assms by (simp add: TcpReceiver_insert_def)
  next
    case (Some i)
    obtain r' res where "Reassembler_try_insert (rc_reassembler rc) i (sm_payload m) (sm_fin m) = Some (r', res)"
      "ra_inv r'" "bs_popped (ra_output r') = bs_popped (ra_output (rc_reassembler rc))"
      "\<forall>e. res = Inl e \<longrightarrow> r' = rc_reassembler rc"
      using try_insert_safe assms unfolding rc_inv_def by blast
    then show ?thesis using a Some
      by (auto simp: TcpReceiver_insert_def rc_inv_def TcpReceiver_output_def Let_def)
  qed
qed

lemma receive_safe:
  assumes "rc_inv rc"
  shows "\<exists>rc' res. TcpReceiver_receive rc m = Some (rc', res) \<and> rc_inv rc' \<and>
    bs_popped (TcpReceiver_output rc') = bs_popped (TcpReceiver_output rc) \<and>
    (\<forall>e. res = Inl e \<longrightarrow> rc_reassembler rc' = rc_reassembler rc)"
proof -
  have "rc_inv (rc\<lparr>rc_isn := i\<rparr>)" for i using assms by (simp add: rc_inv_def)
  note ins = insert_safe [OF assms] insert_safe [OF this]
  have "rc_inv (rc\<lparr>rc_reassembler := (rc_reassembler rc)\<lparr>ra_output := ByteStream_set_error (TcpReceiver_output rc)\<rparr>\<rparr>)"
    using assms set_error_keeps by (simp add: rc_inv_def TcpReceiver_output_def)
  then show ?thesis
    using assms ins(1) [of "the (rc_isn rc)" m] ins(2) [of "Some (sm_seqno m)" "sm_seqno m" m]
    by (cases "rc_isn rc") (auto simp: TcpReceiver_receive_def TcpReceiver_output_def ByteStream_set_error_def)
qed

text \<open>An execution of a receiver: messages from the peer, and reads by the application.\<close>

datatype receiver_op = TReceive TcpSenderMessage | TRead nat

fun receiver_step :: "TcpReceiver \<times> bytes \<Rightarrow> receiver_op \<Rightarrow> (TcpReceiver \<times> bytes) run" where
  "receiver_step (rc, out) (TReceive m) =
     do { (rc, _) \<leftarrow> TcpReceiver_receive rc m; Some (rc, out) }"
| "receiver_step (rc, out) (TRead n) =
     do { (s, d) \<leftarrow> ByteStream_pop (TcpReceiver_output rc) n;
          Some (rc\<lparr> rc_reassembler := (rc_reassembler rc)\<lparr> ra_output := s \<rparr> \<rparr>, out @ d) }"

interpretation receiver: safe_machine receiver_step "\<lambda>t. rc_inv (fst t)" "\<lambda>_ _. True"
proof -
  have step: "\<exists>t'. receiver_step t x = Some t' \<and> rc_inv (fst t')" if inv: "rc_inv (fst t)" for t x
  proof -
    obtain rc out where t: "t = (rc, out)" by (cases t)
    show ?thesis
    proof (cases x)
      case (TReceive m)
      then show ?thesis using receive_safe [of rc m] inv t by auto
    next
      case (TRead n)
      then show ?thesis using pop_keeps [of "rc_reassembler rc" n] inv t
        by (auto simp: rc_inv_def TcpReceiver_output_def)
    qed
  qed
  show "safe_machine receiver_step (\<lambda>t. rc_inv (fst t)) (\<lambda>_ _. True)"
    by unfold_locales (metis step, metis step option.inject)
qed

lemma rc_inv_new:
  assumes "capacity \<le> U64_MAX"
  shows "\<exists>rc. TcpReceiver_new capacity = Some rc \<and> rc_inv rc \<and> rc_isn rc = None \<and>
    reassembling S (rc_reassembler rc, [])"
  using reassembling_new [OF assms] ra_inv_new(2) [OF assms]
  by (simp add: TcpReceiver_new_def rc_inv_def)

section \<open>Acknowledgments\<close>

lemma send_eq:
  assumes "rc_inv rc" and "pushed (rc_reassembler rc) + 2 \<le> U64_MAX"
  shows "TcpReceiver_send rc = Some
    \<lparr> rm_ackno = map_option (Wrap32_wrap (1 + pushed (rc_reassembler rc)
         + of_bool (bs_closed (TcpReceiver_output rc)))) (rc_isn rc),
      rm_window_size = of_nat (min (bs_capacity (TcpReceiver_output rc) - bs_buffered (TcpReceiver_output rc)) U16_MAX),
      rm_rst = bs_error (TcpReceiver_output rc) \<rparr>"
proof -
  have "bs_buffered (TcpReceiver_output rc) \<le> bs_capacity (TcpReceiver_output rc)"
    using assms(1) by (auto simp: rc_inv_def TcpReceiver_output_def ra_inv_def ra_wf_def stored_ok_def bs_wf_def)
  then show ?thesis using assms(2)
    by (simp add: TcpReceiver_send_def ByteStream_available_capacity_def stream_accessors
        run_simps Let_def TcpReceiver_output_def)
qed

section \<open>Translating sequence numbers\<close>

text \<open>
  The message that carries the piece \<open>d\<close> of a stream at index \<open>i\<close>: a sender whose initial sequence
  number is \<open>isn\<close> gives the SYN the number 0 and byte \<open>i\<close> the number \<open>i + 1\<close>.
\<close>

definition carries :: "Wrap32 \<Rightarrow> nat \<Rightarrow> bytes \<Rightarrow> bool \<Rightarrow> TcpSenderMessage \<Rightarrow> bool" where
  "carries isn i d fin m \<longleftrightarrow> sm_payload m = d \<and> sm_fin m = fin \<and> \<not> sm_rst m \<and>
     (if sm_syn m then i = 0 \<and> sm_seqno m = Wrap32_wrap 0 isn
      else sm_seqno m = Wrap32_wrap (i + 1) isn)"

lemma wrap_0 [simp]: "Wrap32_wrap 0 isn = isn"
  by (simp add: Wrap32_wrap_def)

definition in_range :: "TcpReceiver \<Rightarrow> nat \<Rightarrow> TcpSenderMessage \<Rightarrow> bool" where
  "in_range rc i m \<longleftrightarrow> (if sm_syn m then pushed (rc_reassembler rc) + 1 < 2147483648
     else abs_diff i (pushed (rc_reassembler rc)) < 2147483648 \<and> i < U64_MAX)"

lemma insert_index:
  assumes "carries isn i d fin m" and "in_range rc i m" and "pushed (rc_reassembler rc) < U64_MAX"
  shows "TcpReceiver_insert rc isn m = do {
    (r, res) \<leftarrow> Reassembler_try_insert (rc_reassembler rc) i d fin;
    Some (rc\<lparr> rc_reassembler := r \<rparr>, res) }"
proof -
  let ?p = "pushed (rc_reassembler rc)"
  have sat: "saturating_add (ByteStream_bytes_pushed (TcpReceiver_output rc)) 1 = ?p + 1"
    using assms(3) by (simp add: stream_accessors TcpReceiver_output_def run_simps)
  have "Wrap32_unwrap (sm_seqno m) isn (?p + 1) = Some (if sm_syn m then 0 else i + 1)"
  proof (cases "sm_syn m")
    case True
    then show ?thesis
      using unwrap_wrap [of 0 "?p + 1" isn] assms by (auto simp: carries_def in_range_def abs_diff_def)
  next
    case False
    then show ?thesis
      using unwrap_wrap [of "i + 1" "?p + 1" isn] assms by (auto simp: carries_def in_range_def)
  qed
  then show ?thesis using assms(1) unfolding TcpReceiver_insert_def sat
    by (auto simp: sub64_def carries_def Let_def)
qed


lemma receive_carried:
  assumes "carries isn i d fin m" and "in_range rc i m" and "pushed (rc_reassembler rc) < U64_MAX"
    and "rc_isn rc = Some isn \<or> rc_isn rc = None \<and> sm_syn m"
  shows "TcpReceiver_receive rc m = do {
    (r, res) \<leftarrow> Reassembler_try_insert (rc_reassembler rc) i d fin;
    Some (rc\<lparr> rc_reassembler := r, rc_isn := Some isn \<rparr>, res) }"
proof (cases "rc_isn rc")
  case None
  have swap: "rc\<lparr>rc_isn := z, rc_reassembler := r\<rparr> = rc\<lparr>rc_reassembler := r, rc_isn := z\<rparr>" for r z
    by (cases rc) simp
  show ?thesis
    using None assms insert_index [of isn i d fin m "rc\<lparr>rc_isn := Some isn\<rparr>"]
    by (auto simp: TcpReceiver_receive_def carries_def in_range_def swap)
next
  case (Some z)
  have same: "rc\<lparr>rc_reassembler := r, rc_isn := Some isn\<rparr> = rc\<lparr>rc_reassembler := r\<rparr>" for r
    using Some assms(4) by (cases rc) simp
  show ?thesis using Some assms insert_index [OF assms(1-3)] unfolding same
    by (auto simp: TcpReceiver_receive_def carries_def)
qed

text \<open>
  The messages of a sender that sends the stream \<open>S\<close> from \<open>isn\<close>; \<open>delivering\<close> is the state of a
  receiver that has only got such messages.
\<close>

definition message_of :: "bytes \<Rightarrow> Wrap32 \<Rightarrow> TcpSenderMessage \<Rightarrow> bool" where
  "message_of S isn m \<longleftrightarrow>
     (\<exists>i. carries isn i (sm_payload m) (sm_fin m) m \<and> segment_of S (RInsert i (sm_payload m) (sm_fin m)))"

definition delivering :: "bytes \<Rightarrow> Wrap32 \<Rightarrow> TcpReceiver \<times> bytes \<Rightarrow> bool" where
  "delivering S isn t \<longleftrightarrow> reassembling S (rc_reassembler (fst t), snd t) \<and>
     (rc_isn (fst t) = None \<or> rc_isn (fst t) = Some isn)"

text \<open>What a message of the stream does to a receiver that knows the SYN or learns it from the message.\<close>

lemma receive_message_at:
  assumes "delivering S isn (rc, out)" and "carries isn i (sm_payload m) (sm_fin m) m"
    and "segment_of S (RInsert i (sm_payload m) (sm_fin m))" and "length S < 2147483647"
    and "rc_isn rc \<noteq> None \<or> sm_syn m"
  shows "\<exists>rc'. TcpReceiver_receive rc m = Some (rc', Inr ()) \<and> delivering S isn (rc', out) \<and> rc_isn rc' = Some isn \<and>
    known (rc_reassembler rc') = known (rc_reassembler rc) \<union>
      ({i..<i + length (sm_payload m)} \<inter> {..<window_end (rc_reassembler rc)}) \<and>
    bs_capacity (TcpReceiver_output rc') = bs_capacity (TcpReceiver_output rc) \<and>
    (ra_eof (rc_reassembler rc') \<noteq> None \<longleftrightarrow> ra_eof (rc_reassembler rc) \<noteq> None \<or> sm_fin m)"
proof -
  let ?r = "rc_reassembler rc"
  have r: "reassembling S (?r, out)" "rc_isn rc = Some isn \<or> rc_isn rc = None \<and> sm_syn m"
    using assms(1,5) by (auto simp: delivering_def)
  have inv: "ra_inv ?r" "fits S ?r" using r(1) by (simp_all add: reassembling_def reasm_inv_def)
  then have p: "pushed ?r \<le> length S" by (simp add: fits_def)
  have S: "length S \<le> U64_MAX" using assms(4) by simp
  have range: "in_range rc i m" and "pushed ?r < U64_MAX"
    using assms(3,4) p by (auto simp: in_range_def abs_diff_def)
  note rcv = receive_carried [OF assms(2) range \<open>pushed ?r < U64_MAX\<close> r(2)]
  obtain r' where "Reassembler_try_insert ?r i (sm_payload m) (sm_fin m) = Some (r', Inr ())"
    using segment_accepted [OF inv assms(3) S] by blast
  then show ?thesis
    using rcv reassembling_step [OF r(1) assms(3) S] by (auto simp: delivering_def TcpReceiver_output_def)
qed

lemma receive_message_of:
  assumes "delivering S isn (rc, out)" and "message_of S isn m" and "length S < 2147483647"
  shows "\<exists>rc'. TcpReceiver_receive rc m = Some (rc', Inr ()) \<and> delivering S isn (rc', out)"
proof (cases "rc_isn rc = None \<and> \<not> sm_syn m")
  case True
  then show ?thesis using assms by (auto simp: TcpReceiver_receive_def message_of_def carries_def)
next
  case False
  then have "rc_isn rc \<noteq> None \<or> sm_syn m" by simp
  then show ?thesis using receive_message_at [OF assms(1) _ _ assms(3)] assms(2) unfolding message_of_def by blast
qed

lemma delivering_step:
  assumes "delivering S isn t" and "length S < 2147483647" and "\<And>m. x = TReceive m \<Longrightarrow> message_of S isn m"
  shows "\<exists>t'. receiver_step t x = Some t' \<and> delivering S isn t'"
proof -
  obtain rc out where t: "t = (rc, out)" by (cases t)
  have S: "length S \<le> U64_MAX" using assms(2) by simp
  show ?thesis
  proof (cases x)
    case (TReceive m)
    then show ?thesis using receive_message_of [of S isn rc out m] assms t by auto
  next
    case (TRead n)
    then show ?thesis
      using reassembling_step [of S "(rc_reassembler rc, out)" "RRead n"] assms(1) S t
      by (auto simp: delivering_def TcpReceiver_output_def bind_eq_Some_conv split: option.splits)
  qed
qed

lemma delivering_run:
  assumes "delivering S isn t" and "length S < 2147483647"
    and "\<And>m. TReceive m \<in> set ops \<Longrightarrow> message_of S isn m"
  shows "\<exists>t'. run_all receiver_step t ops = Some t' \<and> delivering S isn t'"
  using assms
proof (induction ops arbitrary: t)
  case Nil
  then show ?case by simp
next
  case (Cons x ops)
  obtain t1 where "receiver_step t x = Some t1" "delivering S isn t1"
    using delivering_step [OF Cons.prems(1,2), of x] Cons.prems(3) by auto
  then show ?case using Cons.IH [of t1] Cons.prems(2,3) by auto
qed

text \<open>
  The receiver accepts any messages at all without a panic, in any order, interleaved with reads:
  arbitrary sequence numbers, flags and payloads, before and after the SYN and after a RST; and it can
  then always answer with an acknowledgment.
\<close>

lemma receiver_run_total:
  assumes "capacity \<le> U64_MAX"
  shows "\<exists>rc out msg. (do { rc \<leftarrow> TcpReceiver_new capacity; run_all receiver_step (rc, []) ops }) = Some (rc, out) \<and>
    TcpReceiver_send rc = Some msg"
proof -
  obtain rc0 where new: "TcpReceiver_new capacity = Some rc0" "rc_inv rc0"
    using rc_inv_new [OF assms] by blast
  then obtain t where t: "run_all receiver_step (rc0, []) ops = Some t" "rc_inv (fst t)"
    using receiver.run_safe_always [of "(rc0, [])" ops] by auto
  have "bs_buffered (TcpReceiver_output (fst t)) \<le> bs_capacity (TcpReceiver_output (fst t))"
    using t(2) by (auto simp: rc_inv_def TcpReceiver_output_def ra_inv_def ra_wf_def stored_ok_def bs_wf_def)
  then have "\<exists>msg. TcpReceiver_send (fst t) = Some msg"
    by (simp add: TcpReceiver_send_def ByteStream_available_capacity_def run_simps)
  then show ?thesis using new(1) t(1) by (cases t) auto
qed

definition example_fin :: TcpSenderMessage where
  "example_fin = \<lparr> sm_seqno = Wrap32 2, sm_syn = False, sm_payload = [33], sm_fin = True, sm_rst = False \<rparr>"

section \<open>Properties\<close>

text \<open>
  C15. Sequence numbers are translated exactly, across any number of wrap-arounds: a message that
  carries the bytes at stream index \<open>i\<close>, at most \<open>2 ^ 31\<close> away from the next byte needed, is inserted
  at index \<open>i\<close>.
\<close>

theorem receiver_translates_index:
  assumes "carries isn i d fin m" and "in_range rc i m"
    and "ByteStream_bytes_pushed (TcpReceiver_output rc) < U64_MAX"
    and "rc_isn rc = Some isn \<or> rc_isn rc = None \<and> sm_syn m"
  shows "TcpReceiver_receive rc m = do {
    (r, res) \<leftarrow> Reassembler_try_insert (rc_reassembler rc) i d fin;
    Some (rc\<lparr> rc_reassembler := r, rc_isn := Some isn \<rparr>, res) }"
  using assms(3) receive_carried [OF assms(1,2) _ assms(4)]
  by (simp add: stream_accessors TcpReceiver_output_def)

definition example_receiver :: TcpReceiver where
  "example_receiver = \<lparr> rc_reassembler = \<lparr> ra_output = \<lparr> bs_capacity = 16, bs_chunks = [], bs_buffered = 0,
     bs_closed = False, bs_error = False, bs_pushed = 8589934592, bs_popped = 8589934592 \<rparr>,
     ra_pending = [], ra_eof = None \<rparr>, rc_isn = Some (Wrap32 1) \<rparr>"

theorem receiver_translates_index_witness:
  "TcpReceiver_receive example_receiver (example_fin\<lparr>sm_seqno := Wrap32 5\<rparr>) = do {
    (r, res) \<leftarrow> Reassembler_try_insert (rc_reassembler example_receiver) 8589934595 [33] True;
    Some (example_receiver\<lparr> rc_reassembler := r, rc_isn := Some (Wrap32 1) \<rparr>, res) }"
  by (rule receiver_translates_index)
    (simp_all add: carries_def in_range_def example_receiver_def example_fin_def Wrap32_wrap_def
      abs_diff_def stream_accessors TcpReceiver_output_def)

text \<open>
  C16. The acknowledgment names the least stream index not yet held, counting the SYN, and one more
  once the whole stream with its FIN has been assembled; the window edge it announces is what the
  reassembler would store, up to the 65535 that the field can express.
\<close>

theorem receiver_ackno:
  assumes "rc_inv rc" and "rc_isn rc = Some isn"
    and "ByteStream_bytes_popped (TcpReceiver_output rc) + ByteStream_capacity (TcpReceiver_output rc) \<le> U64_MAX - 2"
  shows "\<exists>msg. TcpReceiver_send rc = Some msg \<and>
    rm_ackno msg = Some (Wrap32_wrap (1 + (LEAST i. i \<notin> known (rc_reassembler rc)) +
      of_bool (ByteStream_is_closed (TcpReceiver_output rc))) isn) \<and>
    (LEAST i. i \<notin> known (rc_reassembler rc)) + unat (rm_window_size msg) =
      min (window_end (rc_reassembler rc)) ((LEAST i. i \<notin> known (rc_reassembler rc)) + 65535)"
proof -
  let ?r = "rc_reassembler rc" and ?out = "TcpReceiver_output rc"
  have wf: "ra_wf ?r" "bs_wf ?out"
    using assms(1) by (simp_all add: rc_inv_def ra_inv_def ra_wf_def stored_ok_def TcpReceiver_output_def)
  have "bs_pushed ?out + 2 \<le> U64_MAX" using assms(3) wf(2) by (auto simp: bs_wf_def stream_accessors)
  then have p: "pushed ?r + 2 \<le> U64_MAX" by (simp add: TcpReceiver_output_def)
  have "unat (of_nat (min (bs_capacity ?out - bs_buffered ?out) U16_MAX) :: u16) =
      min (bs_capacity ?out - bs_buffered ?out) U16_MAX"
    unfolding unat_of_nat16 by simp
  moreover have "pushed ?r + min (bs_capacity ?out - bs_buffered ?out) U16_MAX =
      min (window_end ?r) (pushed ?r + 65535)"
    using wf(2) assms(3) by (auto simp: window_end_def TcpReceiver_output_def bs_wf_def stream_accessors min_def)
  ultimately show ?thesis
    unfolding pushed_least [OF wf(1), symmetric] send_eq [OF assms(1) p]
    using assms(2) by (simp add: stream_accessors)
qed

theorem receiver_ackno_witness:
  "\<exists>msg. TcpReceiver_send example_receiver = Some msg \<and>
    rm_ackno msg = Some (Wrap32_wrap (1 + (LEAST i. i \<notin> known (rc_reassembler example_receiver))) (Wrap32 1))"
proof -
  have "rc_inv example_receiver"
    by (simp add: example_receiver_def rc_inv_def ra_inv_def ra_wf_def stored_ok_def bs_wf_def bs_contents_def)
  moreover have "rc_isn example_receiver = Some (Wrap32 1)" by (simp add: example_receiver_def)
  moreover have "\<not> ByteStream_is_closed (TcpReceiver_output example_receiver)"
    and "ByteStream_bytes_popped (TcpReceiver_output example_receiver) +
      ByteStream_capacity (TcpReceiver_output example_receiver) \<le> U64_MAX - 2"
    by (simp_all add: example_receiver_def stream_accessors TcpReceiver_output_def)
  ultimately show ?thesis using receiver_ackno [of example_receiver "Wrap32 1"] by auto
qed

end
