(* ===== verification/Tcp_Sender.thy ===== *)
theory Tcp_Sender
  imports Byte_Stream Tcp_Message
begin

text \<open>
  \<open>src/tcp_sender.rs\<close>: the send side of a connection. It cuts the outbound stream into segments that
  fit the peer's window, keeps the segments that are not yet acknowledged, and retransmits the oldest
  one when its timer expires, with an exponential back-off. The callback \<open>transmit\<close> of the source is
  the list of messages an operation sends.
\<close>

section \<open>Model\<close>

record TcpSenderConfig =
  cf_initial_rto_ms :: nat
  cf_max_timer_interval_ms :: nat
  cf_max_payload_size :: nat

definition TcpSenderConfig_default :: TcpSenderConfig where
  "TcpSenderConfig_default =
     \<lparr> cf_initial_rto_ms = 1000, cf_max_timer_interval_ms = 60000, cf_max_payload_size = 1000 \<rparr>"

subsection \<open>The timer\<close>

datatype TimerMode = Retransmission | Persist

record Timer =
  tm_running :: bool
  tm_elapsed_ms :: nat
  tm_timeout_ms :: nat
  tm_mode :: "TimerMode option"

definition Timer_default :: Timer where
  "Timer_default = \<lparr> tm_running = False, tm_elapsed_ms = 0, tm_timeout_ms = 0, tm_mode = None \<rparr>"

definition Timer_restart :: "Timer \<Rightarrow> nat \<Rightarrow> TimerMode \<Rightarrow> Timer run" where
  "Timer_restart self timeout_ms mode = do {
     _ \<leftarrow> ensure (timeout_ms > 0);
     Some (self\<lparr> tm_running := True, tm_elapsed_ms := 0, tm_timeout_ms := timeout_ms,
                 tm_mode := Some mode \<rparr>)
   }"

definition Timer_stop :: "Timer \<Rightarrow> Timer" where
  "Timer_stop self =
     self\<lparr> tm_running := False, tm_elapsed_ms := 0, tm_timeout_ms := 0, tm_mode := None \<rparr>"

definition Timer_tick :: "Timer \<Rightarrow> nat \<Rightarrow> Timer \<times> bool" where
  "Timer_tick self elapsed_ms =
     (if \<not> tm_running self then (self, False)
      else let self = self\<lparr> tm_elapsed_ms := saturating_add (tm_elapsed_ms self) elapsed_ms \<rparr>
           in (self, tm_elapsed_ms self \<ge> tm_timeout_ms self))"

definition Timer_timeout_ms :: "Timer \<Rightarrow> nat option" where
  "Timer_timeout_ms self = (if tm_running self then Some (tm_timeout_ms self) else None)"

subsection \<open>Outstanding segments\<close>

record OutstandingSegment =
  os_absolute_start :: nat
  os_message :: TcpSenderMessage

definition OutstandingSegment_sequence_length :: "OutstandingSegment \<Rightarrow> nat" where
  "OutstandingSegment_sequence_length self = TcpSenderMessage_sequence_length (os_message self)"

definition OutstandingSegment_absolute_end :: "OutstandingSegment \<Rightarrow> nat run" where
  "OutstandingSegment_absolute_end self =
     add64 (os_absolute_start self) (OutstandingSegment_sequence_length self)"

definition OutstandingSegment_trim_prefix ::
  "OutstandingSegment \<Rightarrow> nat \<Rightarrow> Wrap32 \<Rightarrow> OutstandingSegment run" where
  "OutstandingSegment_trim_prefix self acknowledged_length isn = do {
     _ \<leftarrow> ensure (acknowledged_length > 0);
     _ \<leftarrow> ensure (acknowledged_length < OutstandingSegment_sequence_length self);
     let remaining = acknowledged_length;
     let (message, remaining) =
       (if sm_syn (os_message self) \<and> remaining > 0
        then ((os_message self)\<lparr> sm_syn := False \<rparr>, remaining - 1)
        else (os_message self, remaining));
     let payload_to_drop = min remaining (length (sm_payload message));
     (message, remaining) \<leftarrow>
       (if payload_to_drop > 0 then do {
          suffix \<leftarrow> slice_from payload_to_drop (sm_payload message);
          Some (message\<lparr> sm_payload := suffix \<rparr>, remaining - payload_to_drop)
        } else Some (message, remaining));
     (message, remaining) \<leftarrow>
       (if sm_fin message \<and> remaining > 0 then do {
          _ \<leftarrow> ensure (remaining = 1);
          Some (message\<lparr> sm_fin := False \<rparr>, remaining - 1)
        } else Some (message, remaining));
     _ \<leftarrow> ensure (remaining = 0);
     absolute_start \<leftarrow> add64 (os_absolute_start self) acknowledged_length;
     let message = message\<lparr> sm_seqno := Wrap32_wrap absolute_start isn \<rparr>;
     _ \<leftarrow> ensure (\<not> TcpSenderMessage_is_empty_in_sequence_space message);
     Some (self\<lparr> os_absolute_start := absolute_start, os_message := message \<rparr>)
   }"

subsection \<open>The sender\<close>

record TcpSender =
  sn_outbound :: ByteStream
  sn_isn :: Wrap32
  sn_una :: nat
  sn_nxt :: nat
  sn_advertised_window :: nat
  sn_outstanding :: "OutstandingSegment list"
  sn_syn_sent :: bool
  sn_fin_sent :: bool
  sn_config :: TcpSenderConfig
  sn_current_rto_ms :: nat
  sn_persist_interval_ms :: nat
  sn_timer :: Timer
  sn_consecutive_retransmissions :: nat

definition TcpSender_new :: "nat \<Rightarrow> Wrap32 \<Rightarrow> TcpSenderConfig \<Rightarrow> TcpSender run" where
  "TcpSender_new capacity isn config = do {
     _ \<leftarrow> ensure (cf_initial_rto_ms config > 0);
     _ \<leftarrow> ensure (cf_max_timer_interval_ms config \<ge> cf_initial_rto_ms config);
     _ \<leftarrow> ensure (cf_max_payload_size config > 0);
     Some \<lparr> sn_outbound = ByteStream_new capacity, sn_isn = isn, sn_una = 0, sn_nxt = 0,
            sn_advertised_window = 1, sn_outstanding = [], sn_syn_sent = False, sn_fin_sent = False,
            sn_config = config, sn_current_rto_ms = cf_initial_rto_ms config,
            sn_persist_interval_ms = cf_initial_rto_ms config, sn_timer = Timer_default,
            sn_consecutive_retransmissions = 0 \<rparr>
   }"

definition TcpSender_bytes_in_flight :: "TcpSender \<Rightarrow> nat run" where
  "TcpSender_bytes_in_flight self = sub64 (sn_nxt self) (sn_una self)"

definition TcpSender_outstanding_segments :: "TcpSender \<Rightarrow> nat" where
  "TcpSender_outstanding_segments self = length (sn_outstanding self)"

definition TcpSender_timer_timeout_ms :: "TcpSender \<Rightarrow> nat option" where
  "TcpSender_timer_timeout_ms self = Timer_timeout_ms (sn_timer self)"

definition TcpSender_timer_mode :: "TcpSender \<Rightarrow> string option" where
  "TcpSender_timer_mode self =
     (case tm_mode (sn_timer self) of
        Some Retransmission \<Rightarrow> Some ''retransmission''
      | Some Persist \<Rightarrow> Some ''persist''
      | None \<Rightarrow> None)"

definition TcpSender_is_finished :: "TcpSender \<Rightarrow> bool" where
  "TcpSender_is_finished self = (sn_fin_sent self \<and> sn_outstanding self = [])"

definition TcpSender_make_empty_message :: "TcpSender \<Rightarrow> TcpSenderMessage" where
  "TcpSender_make_empty_message self =
     \<lparr> sm_seqno = Wrap32_wrap (sn_nxt self) (sn_isn self), sm_syn = False, sm_payload = [],
       sm_fin = False, sm_rst = ByteStream_has_error (sn_outbound self) \<rparr>"

definition TcpSender_backed_off :: "TcpSender \<Rightarrow> nat \<Rightarrow> nat" where
  "TcpSender_backed_off self timeout_ms =
     min (saturating_mul timeout_ms 2) (cf_max_timer_interval_ms (sn_config self))"

definition TcpSender_read_outbound_payload :: "TcpSender \<Rightarrow> nat \<Rightarrow> (TcpSender \<times> bytes) run" where
  "TcpSender_read_outbound_payload self max_len =
     (if max_len = 0 then Some (self, [])
      else do {
        let target_len = min max_len (ByteStream_bytes_buffered (sn_outbound self));
        (outbound, payload) \<leftarrow> ByteStream_pop (sn_outbound self) target_len;
        Some (self\<lparr> sn_outbound := outbound \<rparr>, payload)
      })"

definition TcpSender_restart_timer_for_current_window :: "TcpSender \<Rightarrow> TcpSender run" where
  "TcpSender_restart_timer_for_current_window self =
     (if sn_outstanding self = [] then Some (self\<lparr> sn_timer := Timer_stop (sn_timer self) \<rparr>)
      else do {
        timer \<leftarrow> (if sn_advertised_window self = 0
                   then Timer_restart (sn_timer self) (sn_persist_interval_ms self) Persist
                   else Timer_restart (sn_timer self) (sn_current_rto_ms self) Retransmission);
        Some (self\<lparr> sn_timer := timer \<rparr>)
      })"

definition TcpSender_track_and_transmit :: "TcpSender \<Rightarrow> TcpSenderMessage \<Rightarrow> TcpSender run" where
  "TcpSender_track_and_transmit self message = do {
     let sequence_length = TcpSenderMessage_sequence_length message;
     _ \<leftarrow> ensure (sequence_length > 0);
     let absolute_start = sn_nxt self;
     nxt \<leftarrow> add64 (sn_nxt self) sequence_length;
     let should_start_timer = (sn_outstanding self = []);
     let self = self\<lparr> sn_nxt := nxt,
           sn_outstanding := sn_outstanding self @
             [\<lparr> os_absolute_start = absolute_start, os_message = message \<rparr>] \<rparr>;
     (if should_start_timer then TcpSender_restart_timer_for_current_window self else Some self)
   }"

fun outstanding_invariants :: "nat \<Rightarrow> OutstandingSegment list \<Rightarrow> unit run" where
  "outstanding_invariants previous_end [] = Some ()"
| "outstanding_invariants previous_end (segment # segments) = do {
     _ \<leftarrow> ensure (\<not> TcpSenderMessage_is_empty_in_sequence_space (os_message segment));
     _ \<leftarrow> ensure (os_absolute_start segment \<ge> previous_end);
     previous_end \<leftarrow> OutstandingSegment_absolute_end segment;
     outstanding_invariants previous_end segments
   }"

definition TcpSender_debug_check_invariants :: "TcpSender \<Rightarrow> unit run" where
  "TcpSender_debug_check_invariants self = do {
     _ \<leftarrow> ensure (sn_una self \<le> sn_nxt self);
     _ \<leftarrow> outstanding_invariants (sn_una self) (sn_outstanding self);
     _ \<leftarrow> (case sn_outstanding self of
              first # _ \<Rightarrow> ensure (os_absolute_start first = sn_una self)
            | [] \<Rightarrow> ensure (sn_una self = sn_nxt self));
     in_flight \<leftarrow> TcpSender_bytes_in_flight self;
     difference \<leftarrow> sub64 (sn_nxt self) (sn_una self);
     ensure (in_flight = difference)
   }"

subsection \<open>Push\<close>

text \<open>
  One iteration of the \<open>while\<close> loop of \<open>push\<close>, for the effective window: the message it transmits,
  or \<^const>\<open>None\<close> when it breaks.
\<close>

definition TcpSender_push_iteration ::
  "TcpSender \<Rightarrow> nat \<Rightarrow> (TcpSender \<times> TcpSenderMessage option) run" where
  "TcpSender_push_iteration self effective_window = do {
     in_flight \<leftarrow> TcpSender_bytes_in_flight self;
     available_sequence_space \<leftarrow> sub64 effective_window in_flight;
     let message = TcpSender_make_empty_message self;
     let remaining = available_sequence_space;
     let (self, message, remaining) =
       (if \<not> sn_syn_sent self \<and> remaining > 0
        then (self\<lparr> sn_syn_sent := True \<rparr>, message\<lparr> sm_syn := True \<rparr>, remaining - 1)
        else (self, message, remaining));
     let payload_budget = min remaining (cf_max_payload_size (sn_config self));
     (self, payload) \<leftarrow> TcpSender_read_outbound_payload self payload_budget;
     let message = message\<lparr> sm_payload := payload \<rparr>;
     remaining \<leftarrow> sub64 remaining (length (sm_payload message));
     let (self, message) =
       (if \<not> sn_fin_sent self \<and> ByteStream_is_closed (sn_outbound self) \<and>
           ByteStream_bytes_buffered (sn_outbound self) = 0 \<and> remaining > 0
        then (self\<lparr> sn_fin_sent := True \<rparr>, message\<lparr> sm_fin := True \<rparr>)
        else (self, message));
     if TcpSenderMessage_is_empty_in_sequence_space message then Some (self, None)
     else do {
       self \<leftarrow> TcpSender_track_and_transmit self message;
       Some (self, Some message)
     }
   }"

partial_function (option) TcpSender_push_loop ::
  "TcpSender \<Rightarrow> nat \<Rightarrow> TcpSenderMessage list \<Rightarrow> (TcpSender \<times> TcpSenderMessage list) run" where
  "TcpSender_push_loop self effective_window sent = do {
     in_flight \<leftarrow> TcpSender_bytes_in_flight self;
     if in_flight < effective_window then do {
       (self, transmitted) \<leftarrow> TcpSender_push_iteration self effective_window;
       (case transmitted of
          None \<Rightarrow> Some (self, sent)
        | Some message \<Rightarrow> TcpSender_push_loop self effective_window (sent @ [message]))
     } else Some (self, sent)
   }"

declare TcpSender_push_loop.simps [code]

definition TcpSender_push :: "TcpSender \<Rightarrow> (TcpSender \<times> TcpSenderMessage list) run" where
  "TcpSender_push self = do {
     let effective_window = max (sn_advertised_window self) 1;
     (self, sent) \<leftarrow> TcpSender_push_loop self effective_window [];
     _ \<leftarrow> TcpSender_debug_check_invariants self;
     Some (self, sent)
   }"

subsection \<open>Feedback and time\<close>

definition TcpSender_abort :: "TcpSender \<Rightarrow> TcpSender" where
  "TcpSender_abort self =
     self\<lparr> sn_outbound := ByteStream_set_error (sn_outbound self), sn_outstanding := [],
           sn_una := sn_nxt self, sn_timer := Timer_stop (sn_timer self) \<rparr>"

fun drop_acknowledged :: "nat \<Rightarrow> OutstandingSegment list \<Rightarrow> OutstandingSegment list run" where
  "drop_acknowledged una [] = Some []"
| "drop_acknowledged una (front # segments) = do {
     stop \<leftarrow> OutstandingSegment_absolute_end front;
     if stop \<le> una then drop_acknowledged una segments else Some (front # segments)
   }"

definition TcpSender_discard_acknowledged_prefix :: "TcpSender \<Rightarrow> TcpSender run" where
  "TcpSender_discard_acknowledged_prefix self = do {
     outstanding \<leftarrow> drop_acknowledged (sn_una self) (sn_outstanding self);
     (case outstanding of
        front # rest \<Rightarrow>
          (if os_absolute_start front < sn_una self then do {
             acknowledged_prefix \<leftarrow> sub64 (sn_una self) (os_absolute_start front);
             front \<leftarrow> OutstandingSegment_trim_prefix front acknowledged_prefix (sn_isn self);
             Some (self\<lparr> sn_outstanding := front # rest \<rparr>)
           } else Some (self\<lparr> sn_outstanding := outstanding \<rparr>))
      | [] \<Rightarrow> Some (self\<lparr> sn_outstanding := outstanding \<rparr>))
   }"

definition TcpSender_receive :: "TcpSender \<Rightarrow> TcpReceiverMessage \<Rightarrow> TcpSender run" where
  "TcpSender_receive self message =
     (if rm_rst message then Some (TcpSender_abort self)
      else let new_window = unat (rm_window_size message) in
      case rm_ackno message of
        None \<Rightarrow> do {
          let window_changed = (sn_advertised_window self \<noteq> new_window);
          let self = self\<lparr> sn_advertised_window := new_window \<rparr>;
          self \<leftarrow> (if window_changed \<and> sn_outstanding self \<noteq> []
                    then TcpSender_restart_timer_for_current_window self else Some self);
          _ \<leftarrow> TcpSender_debug_check_invariants self;
          Some self
        }
      | Some wrapped_ackno \<Rightarrow> do {
          absolute_ackno \<leftarrow> Wrap32_unwrap wrapped_ackno (sn_isn self) (sn_nxt self);
          if absolute_ackno > sn_nxt self then Some self
          else do {
            let window_changed = (sn_advertised_window self \<noteq> new_window);
            let self = self\<lparr> sn_advertised_window := new_window \<rparr>;
            let ack_advanced = (absolute_ackno > sn_una self);
            self \<leftarrow> (if ack_advanced then do {
                let self = self\<lparr> sn_una := absolute_ackno \<rparr>;
                self \<leftarrow> TcpSender_discard_acknowledged_prefix self;
                Some (self\<lparr> sn_current_rto_ms := cf_initial_rto_ms (sn_config self),
                            sn_persist_interval_ms := cf_initial_rto_ms (sn_config self),
                            sn_consecutive_retransmissions := 0 \<rparr>)
              } else Some self);
            self \<leftarrow> (if sn_outstanding self = []
                      then Some (self\<lparr> sn_timer := Timer_stop (sn_timer self) \<rparr>)
                      else if ack_advanced \<or> window_changed
                      then TcpSender_restart_timer_for_current_window self
                      else Some self);
            _ \<leftarrow> TcpSender_debug_check_invariants self;
            Some self
          }
        })"

definition TcpSender_tick :: "TcpSender \<Rightarrow> nat \<Rightarrow> (TcpSender \<times> TcpSenderMessage list) run" where
  "TcpSender_tick self elapsed_ms =
     (let (timer, expired) = Timer_tick (sn_timer self) elapsed_ms;
          self = self\<lparr> sn_timer := timer \<rparr> in
      if \<not> expired then Some (self, [])
      else case sn_outstanding self of
        [] \<Rightarrow> Some (self\<lparr> sn_timer := Timer_stop (sn_timer self) \<rparr>, [])
      | oldest # _ \<Rightarrow> do {
          let self =
            (if sn_advertised_window self = 0
             then self\<lparr> sn_persist_interval_ms :=
                    TcpSender_backed_off self (sn_persist_interval_ms self) \<rparr>
             else self\<lparr> sn_consecutive_retransmissions :=
                    saturating_add (sn_consecutive_retransmissions self) 1,
                  sn_current_rto_ms := TcpSender_backed_off self (sn_current_rto_ms self) \<rparr>);
          self \<leftarrow> TcpSender_restart_timer_for_current_window self;
          _ \<leftarrow> TcpSender_debug_check_invariants self;
          Some (self, [os_message oldest])
        })"

section \<open>Outstanding segments tile the sequence space\<close>

text \<open>
  The sequence space of a sender that has been given the stream \<open>W\<close>, as symbols: number 0 is the SYN,
  then the bytes, then the FIN. A message sent from number \<open>a\<close> is a piece of it, and the outstanding
  segments tile the range from the oldest unacknowledged number to the next one.
\<close>

definition full :: "bytes \<Rightarrow> symbol list" where
  "full W = SYN # map Octet W @ [FIN]"

definition piece :: "bytes \<Rightarrow> nat \<Rightarrow> TcpSenderMessage \<Rightarrow> bool" where
  "piece W a m \<longleftrightarrow> symbols m = take (length (symbols m)) (drop a (full W))"

fun tiles :: "Wrap32 \<Rightarrow> bytes \<Rightarrow> nat \<Rightarrow> OutstandingSegment list \<Rightarrow> nat \<Rightarrow> bool" where
  "tiles isn W a [] b \<longleftrightarrow> a = b"
| "tiles isn W a (s # ss) b \<longleftrightarrow>
     os_absolute_start s = a \<and> sm_seqno (os_message s) = Wrap32_wrap a isn \<and>
     symbols (os_message s) \<noteq> [] \<and> piece W a (os_message s) \<and>
     tiles isn W (a + length (symbols (os_message s))) ss b"

lemma tiles_le: "tiles isn W a ss b \<Longrightarrow> a \<le> b"
  by (induction ss arbitrary: a) fastforce+

lemma tiles_append:
  "tiles isn W a (ss @ ts) b \<longleftrightarrow> (\<exists>c. tiles isn W a ss c \<and> tiles isn W c ts b)"
  by (induction ss arbitrary: a) auto

lemma tiles_Nil_iff: "tiles isn W a ss b \<Longrightarrow> ss = [] \<longleftrightarrow> a = b"
  by (cases ss) (auto dest!: tiles_le)

lemma tiles_flight:
  "tiles isn W a ss b \<Longrightarrow> concat (map (symbols \<circ> os_message) ss) = take (b - a) (drop a (full W))"
proof (induction ss arbitrary: a)
  case Nil
  then show ?case by simp
next
  case (Cons s ss)
  let ?n = "length (symbols (os_message s))"
  have "a + ?n \<le> b" using Cons.prems tiles_le by auto
  then have "take (b - a) (drop a (full W)) = take ?n (drop a (full W)) @ take (b - (a + ?n)) (drop (a + ?n) (full W))"
    by (metis add_diff_inverse_nat add_le_imp_le_diff diff_diff_left drop_drop add.commute le_add1 not_less take_add)
  moreover have "symbols (os_message s) = take ?n (drop a (full W))"
    using Cons.prems by (simp add: piece_def)
  ultimately show ?case using Cons by simp
qed

lemma full_extend:
  assumes "a + n \<le> 1 + length W"
  shows "take n (drop a (full (W @ d))) = take n (drop a (full W))"
proof -
  have "take n (drop a xs) = drop a (take (a + n) xs)" for xs :: "symbol list"
    by (simp add: drop_take)
  moreover have "take (a + n) (full (W @ d)) = take (a + n) (full W)"
    using assms by (cases "a + n") (simp_all add: full_def)
  ultimately show ?thesis by simp
qed

lemma tiles_extend: "tiles isn W a ss b \<Longrightarrow> b \<le> 1 + length W \<Longrightarrow> tiles isn (W @ d) a ss b"
proof (induction ss arbitrary: a)
  case Nil
  then show ?case by simp
next
  case (Cons s ss)
  have "a + length (symbols (os_message s)) \<le> b" using Cons.prems(1) tiles_le by auto
  then have "a + length (symbols (os_message s)) \<le> 1 + length W" using Cons.prems(2) by simp
  then have "piece (W @ d) a (os_message s) = piece W a (os_message s)"
    by (simp only: piece_def full_extend)
  then show ?case using Cons by simp
qed

lemma tiles_checked:
  assumes "tiles isn W a ss b" and "b \<le> U64_MAX"
  shows "outstanding_invariants a ss = Some ()"
  using assms
proof (induction ss arbitrary: a)
  case Nil
  then show ?case by simp
next
  case (Cons s ss)
  have "a + length (symbols (os_message s)) \<le> b" using Cons.prems tiles_le by auto
  then have "OutstandingSegment_absolute_end s = Some (a + length (symbols (os_message s)))"
    using Cons.prems by (auto simp: OutstandingSegment_absolute_end_def
        OutstandingSegment_sequence_length_def intro!: run_simps)
  then show ?case using Cons by simp
qed

subsection \<open>Acknowledging a prefix\<close>

lemma trim_prefix_spec:
  assumes "0 < k" and "k < length (symbols (os_message s))"
    and "os_absolute_start s + length (symbols (os_message s)) \<le> U64_MAX"
  shows "\<exists>m. OutstandingSegment_trim_prefix s k isn =
      Some (s\<lparr>os_absolute_start := os_absolute_start s + k, os_message := m\<rparr>) \<and>
    symbols m = drop k (symbols (os_message s)) \<and> sm_seqno m = Wrap32_wrap (os_absolute_start s + k) isn"
proof -
  define m where "m = os_message s"
  have len: "k < of_bool (sm_syn m) + length (sm_payload m) + of_bool (sm_fin m)"
    using assms(2) by (simp add: m_def length_symbols)
  have add: "add64 (os_absolute_start s) k = Some (os_absolute_start s + k)"
    using assms(2,3) by (intro run_simps) simp
  define k1 where "k1 = (if sm_syn m then k - 1 else k)"
  have k1: "k1 < length (sm_payload m) + of_bool (sm_fin m)"
    using len assms(1) by (auto simp: k1_def)
  define m' where "m' = m\<lparr>sm_syn := False, sm_payload := drop k1 (sm_payload m),
      sm_seqno := Wrap32_wrap (os_absolute_start s + k) isn\<rparr>"
  have sym: "symbols m' = drop k (symbols m)"
    using k1 assms(1) len by (auto simp: symbols_def m'_def k1_def drop_Cons' drop_map split: if_splits)
  have "symbols m' \<noteq> []" using sym assms(2) by (simp add: m_def)
  then have ne: "\<not> TcpSenderMessage_is_empty_in_sequence_space m'" by simp
  have "OutstandingSegment_trim_prefix s k isn =
      Some (s\<lparr>os_absolute_start := os_absolute_start s + k, os_message := m'\<rparr>)"
  proof -
    obtain q y p f rst where m: "m = \<lparr>sm_seqno = q, sm_syn = y, sm_payload = p, sm_fin = f, sm_rst = rst\<rparr>"
      by (cases m)
    have le: "k1 \<le> length p" using k1 m by (cases f) auto
    then have pay: "min k1 (length p) = k1" "slice_from k1 p = Some (drop k1 p)" by (simp_all add: run_simps)
    show ?thesis
      using assms(1,2) ne pay le add
      unfolding OutstandingSegment_trim_prefix_def OutstandingSegment_sequence_length_def
        m_def [symmetric] sequence_length_symbols
      by (cases y; cases "k1 = 0") (auto simp: m m'_def k1_def run_simps Let_def)
  qed
  then show ?thesis using sym by (auto simp: m_def m'_def)
qed

lemma drop_acknowledged_spec:
  assumes "tiles isn W a ss b" and "a \<le> u" and "u \<le> b" and "b \<le> U64_MAX"
  shows "\<exists>ss' c. drop_acknowledged u ss = Some ss' \<and> tiles isn W c ss' b \<and> c \<le> u \<and>
    (case ss' of [] \<Rightarrow> u = b | s # _ \<Rightarrow> u < c + length (symbols (os_message s)))"
  using assms
proof (induction ss arbitrary: a)
  case Nil
  then show ?case by auto
next
  case (Cons s ss)
  let ?e = "a + length (symbols (os_message s))"
  have "?e \<le> b" using Cons.prems tiles_le by auto
  then have stop: "OutstandingSegment_absolute_end s = Some ?e"
    using Cons.prems by (auto simp: OutstandingSegment_absolute_end_def
        OutstandingSegment_sequence_length_def intro!: run_simps)
  show ?case
  proof (cases "?e \<le> u")
    case True
    then show ?thesis using Cons.IH [of ?e] Cons.prems stop by simp
  next
    case False
    then show ?thesis using Cons.prems stop by (intro exI [of _ "s # ss"] exI [of _ a]) simp
  qed
qed

lemma drop_take_shift: "drop k (take n (drop a xs)) = take (n - k) (drop (a + k) xs)"
  by (simp add: drop_take add.commute)

lemma discard_spec:
  assumes "tiles (sn_isn sn) W a (sn_outstanding sn) (sn_nxt sn)" and "a \<le> sn_una sn"
    and "sn_una sn \<le> sn_nxt sn" and "sn_nxt sn \<le> U64_MAX"
  shows "\<exists>ss. TcpSender_discard_acknowledged_prefix sn = Some (sn\<lparr>sn_outstanding := ss\<rparr>) \<and>
    tiles (sn_isn sn) W (sn_una sn) ss (sn_nxt sn)"
proof -
  obtain ss c where ss: "drop_acknowledged (sn_una sn) (sn_outstanding sn) = Some ss"
    "tiles (sn_isn sn) W c ss (sn_nxt sn)" "c \<le> sn_una sn"
    "case ss of [] \<Rightarrow> sn_una sn = sn_nxt sn | s # _ \<Rightarrow> sn_una sn < c + length (symbols (os_message s))"
    using drop_acknowledged_spec [OF assms] by blast
  show ?thesis
  proof (cases ss)
    case Nil
    then show ?thesis using ss
      by (intro exI [of _ "[]"]) (simp add: TcpSender_discard_acknowledged_prefix_def)
  next
    case (Cons s rest)
    let ?n = "length (symbols (os_message s))" and ?k = "sn_una sn - c"
    have s: "os_absolute_start s = c" "piece W c (os_message s)"
      "tiles (sn_isn sn) W (c + ?n) rest (sn_nxt sn)" "sn_una sn < c + ?n"
      using ss(2,4) Cons by auto
    have max: "c + ?n \<le> U64_MAX" using tiles_le [OF s(3)] assms(4) by simp
    show ?thesis
    proof (cases "c < sn_una sn")
      case True
      have less: "?k < ?n" using True s(4) by linarith
      then obtain m where m: "OutstandingSegment_trim_prefix s ?k (sn_isn sn) =
          Some (s\<lparr>os_absolute_start := c + ?k, os_message := m\<rparr>)"
        "symbols m = drop ?k (symbols (os_message s))" "sm_seqno m = Wrap32_wrap (c + ?k) (sn_isn sn)"
        using trim_prefix_spec [of ?k s "sn_isn sn"] True s(1,4) max by auto
      have "piece W (sn_una sn) m"
        using s(2) True unfolding piece_def m(2)
        by (metis drop_take_shift le_add_diff_inverse length_drop less_imp_le)
      then show ?thesis
        using ss(1) Cons s m True less
        by (intro exI [of _ "s\<lparr>os_absolute_start := c + ?k, os_message := m\<rparr> # rest"])
          (simp add: TcpSender_discard_acknowledged_prefix_def run_simps add.commute)
    next
      case False
      then show ?thesis using ss Cons s
        by (intro exI [of _ ss]) (simp add: TcpSender_discard_acknowledged_prefix_def)
    qed
  qed
qed

section \<open>The invariant of the sender\<close>

definition timer_ok :: "TcpSender \<Rightarrow> bool" where
  "timer_ok sn \<longleftrightarrow>
     (if sn_outstanding sn = []
      then \<not> tm_running (sn_timer sn) \<and> tm_elapsed_ms (sn_timer sn) = 0 \<and> tm_timeout_ms (sn_timer sn) = 0
      else tm_running (sn_timer sn) \<and> tm_elapsed_ms (sn_timer sn) \<le> U64_MAX \<and>
        (if sn_advertised_window sn = 0
         then tm_mode (sn_timer sn) = Some Persist \<and> tm_timeout_ms (sn_timer sn) = sn_persist_interval_ms sn
         else tm_mode (sn_timer sn) = Some Retransmission \<and> tm_timeout_ms (sn_timer sn) = sn_current_rto_ms sn))"

definition rto_ok :: "TcpSender \<Rightarrow> bool" where
  "rto_ok sn \<longleftrightarrow> 0 < cf_initial_rto_ms (sn_config sn) \<and>
     cf_initial_rto_ms (sn_config sn) \<le> sn_current_rto_ms sn \<and>
     sn_current_rto_ms sn \<le> cf_max_timer_interval_ms (sn_config sn) \<and>
     cf_initial_rto_ms (sn_config sn) \<le> sn_persist_interval_ms sn \<and>
     sn_persist_interval_ms sn \<le> cf_max_timer_interval_ms (sn_config sn) \<and>
     0 < cf_max_payload_size (sn_config sn) \<and> cf_max_timer_interval_ms (sn_config sn) \<le> U64_MAX \<and>
     sn_consecutive_retransmissions sn \<le> U64_MAX"

text \<open>
  \<open>W\<close> is what the application has written. The counters say how far the stream has been sent; the
  outstanding segments tile the rest up to the next sequence number.
\<close>

definition outbound_ok :: "bytes \<Rightarrow> ByteStream \<Rightarrow> bool" where
  "outbound_ok W s \<longleftrightarrow> bs_wf s \<and> bs_pushed s = length W \<and> bs_contents s = drop (bs_popped s) W"

definition sent_ok :: "bytes \<Rightarrow> TcpSender \<Rightarrow> bool" where
  "sent_ok W sn \<longleftrightarrow>
     outbound_ok W (sn_outbound sn) \<and> length W + 2 \<le> U64_MAX \<and>
     sn_nxt sn = of_bool (sn_syn_sent sn) + bs_popped (sn_outbound sn) + of_bool (sn_fin_sent sn) \<and>
     (sn_fin_sent sn \<longrightarrow> bs_closed (sn_outbound sn) \<and> bs_popped (sn_outbound sn) = length W) \<and>
     (\<not> sn_syn_sent sn \<longrightarrow> bs_popped (sn_outbound sn) = 0 \<and> \<not> sn_fin_sent sn) \<and>
     tiles (sn_isn sn) W (sn_una sn) (sn_outstanding sn) (sn_nxt sn)"

definition sn_inv :: "bytes \<Rightarrow> TcpSender \<Rightarrow> bool" where
  "sn_inv W sn \<longleftrightarrow> sent_ok W sn \<and> timer_ok sn \<and> rto_ok sn"

lemma sent_ok_bounds:
  assumes "sent_ok W sn"
  shows "sn_una sn \<le> sn_nxt sn" and "sn_nxt sn \<le> length W + 2" and "sn_nxt sn \<le> U64_MAX"
    and "bs_popped (sn_outbound sn) \<le> length W"
    and "sn_nxt sn \<le> 1 + length W \<or> sn_fin_sent sn"
proof -
  show le: "bs_popped (sn_outbound sn) \<le> length W" using assms by (auto simp: sent_ok_def outbound_ok_def bs_wf_def)
  show "sn_una sn \<le> sn_nxt sn" using assms tiles_le unfolding sent_ok_def by blast
  show nxt: "sn_nxt sn \<le> length W + 2" using le assms by (auto simp: sent_ok_def of_bool_def)
  show "sn_nxt sn \<le> U64_MAX" using nxt assms by (simp add: sent_ok_def)
  show "sn_nxt sn \<le> 1 + length W \<or> sn_fin_sent sn" using le assms by (auto simp: sent_ok_def of_bool_def)
qed

lemma sent_ok_checked:
  assumes "sent_ok W sn"
  shows "TcpSender_debug_check_invariants sn = Some ()"
proof -
  note b = sent_ok_bounds [OF assms]
  have tiles: "tiles (sn_isn sn) W (sn_una sn) (sn_outstanding sn) (sn_nxt sn)"
    using assms unfolding sent_ok_def by blast
  have "(case sn_outstanding sn of first # _ \<Rightarrow> ensure (os_absolute_start first = sn_una sn)
        | [] \<Rightarrow> ensure (sn_una sn = sn_nxt sn)) = Some ()"
    using tiles by (cases "sn_outstanding sn") simp_all
  then show ?thesis using b tiles_checked [OF tiles b(3)]
    by (simp add: TcpSender_debug_check_invariants_def TcpSender_bytes_in_flight_def run_simps)
qed

lemma restart_timer_spec:
  assumes "rto_ok sn"
  shows "\<exists>t. TcpSender_restart_timer_for_current_window sn = Some (sn\<lparr>sn_timer := t\<rparr>) \<and>
    timer_ok (sn\<lparr>sn_timer := t\<rparr>) \<and> (sn_outstanding sn \<noteq> [] \<longrightarrow> tm_elapsed_ms t = 0)"
  using assms unfolding TcpSender_restart_timer_for_current_window_def
  by (auto simp: timer_ok_def rto_ok_def Timer_stop_def Timer_restart_def run_simps)


section \<open>Sending new segments\<close>

text \<open>What a transmitted message is: a non-empty piece of the stream at its sequence number.\<close>

definition sends :: "bytes \<Rightarrow> TcpSender \<Rightarrow> nat \<Rightarrow> TcpSenderMessage \<Rightarrow> bool" where
  "sends W sn a m \<longleftrightarrow> sm_seqno m = Wrap32_wrap a (sn_isn sn) \<and> symbols m \<noteq> [] \<and> piece W a m \<and>
     length (sm_payload m) \<le> cf_max_payload_size (sn_config sn) \<and> sm_rst m = bs_error (sn_outbound sn)"

lemma track_spec:
  assumes "rto_ok sn" and "symbols m \<noteq> []" and "sn_nxt sn + length (symbols m) \<le> U64_MAX"
    and "sn_outstanding sn \<noteq> [] \<Longrightarrow> timer_ok sn"
  shows "\<exists>t. TcpSender_track_and_transmit sn m = Some (sn\<lparr>sn_nxt := sn_nxt sn + length (symbols m),
      sn_outstanding := sn_outstanding sn @ [\<lparr>os_absolute_start = sn_nxt sn, os_message = m\<rparr>], sn_timer := t\<rparr>) \<and>
    timer_ok (sn\<lparr>sn_nxt := sn_nxt sn + length (symbols m),
      sn_outstanding := sn_outstanding sn @ [\<lparr>os_absolute_start = sn_nxt sn, os_message = m\<rparr>], sn_timer := t\<rparr>)"
proof -
  let ?sn = "sn\<lparr>sn_nxt := sn_nxt sn + length (symbols m),
      sn_outstanding := sn_outstanding sn @ [\<lparr>os_absolute_start = sn_nxt sn, os_message = m\<rparr>]\<rparr>"
  have eq: "TcpSender_track_and_transmit sn m =
      (if sn_outstanding sn = [] then TcpSender_restart_timer_for_current_window ?sn else Some ?sn)"
    using assms(2,3) by (simp add: TcpSender_track_and_transmit_def run_simps Let_def)
  show ?thesis
  proof (cases "sn_outstanding sn = []")
    case True
    have "rto_ok ?sn" using assms(1) by (simp add: rto_ok_def)
    then show ?thesis using restart_timer_spec [of ?sn] eq True by auto
  next
    case False
    then show ?thesis using eq assms(4)
      by (intro exI [of _ "sn_timer sn"]) (simp add: timer_ok_def)
  qed
qed

lemma read_payload_spec:
  assumes "outbound_ok W (sn_outbound sn)"
  shows "\<exists>out d. TcpSender_read_outbound_payload sn n = Some (sn\<lparr>sn_outbound := out\<rparr>, d) \<and>
    outbound_ok W out \<and> bs_popped out = bs_popped (sn_outbound sn) + length d \<and>
    drop (bs_popped (sn_outbound sn)) W = d @ drop (bs_popped out) W \<and> length d \<le> n \<and>
    bs_closed out = bs_closed (sn_outbound sn) \<and> bs_error out = bs_error (sn_outbound sn) \<and>
    (d = [] \<longrightarrow> out = sn_outbound sn \<and> (n = 0 \<or> bs_buffered out = 0))"
proof (cases "n = 0")
  case True
  have "sn\<lparr>sn_outbound := sn_outbound sn\<rparr> = sn" by simp
  then show ?thesis using True assms
    by (intro exI [of _ "sn_outbound sn"] exI [of _ "[]"])
      (simp add: TcpSender_read_outbound_payload_def)
next
  case False
  let ?out = "sn_outbound sn"
  have wf: "bs_wf ?out" "bs_pushed ?out = length W" "bs_contents ?out = drop (bs_popped ?out) W"
    using assms by (auto simp: outbound_ok_def)
  obtain s d where s: "ByteStream_pop ?out (min n (bs_buffered ?out)) = Some (s, d)" "bs_wf s"
    "bs_contents ?out = d @ bs_contents s" "length d \<le> min n (bs_buffered ?out)"
    "bs_popped s = bs_popped ?out + length d" "bs_pushed s = bs_pushed ?out"
    "bs_closed s = bs_closed ?out" "bs_error s = bs_error ?out"
    "0 < min n (bs_buffered ?out) \<longrightarrow> bs_contents ?out \<noteq> [] \<longrightarrow> d \<noteq> []" "d = [] \<longrightarrow> s = ?out"
    using pop_spec [OF wf(1), of "min n (bs_buffered ?out)"] by (elim exE conjE) (rule that; assumption)
  have "bs_contents s = drop (bs_popped s) W"
    using s(3,5) wf(3) by (metis add.commute append_eq_conv_conj drop_drop)
  moreover from this have "drop (bs_popped ?out) W = d @ drop (bs_popped s) W"
    using s(3) wf(3) by simp
  moreover have "bs_buffered ?out = 0" if "d = []"
    using that s(9) False wf(1) by (cases "bs_buffered ?out = 0") (auto simp: bs_wf_def)
  moreover have "TcpSender_read_outbound_payload sn n = Some (sn\<lparr>sn_outbound := s\<rparr>, d)"
    using s(1) False by (simp add: TcpSender_read_outbound_payload_def stream_accessors)
  moreover have "bs_pushed s = length W" "length d \<le> n" using s(4,6) wf(2) by simp_all
  moreover have "d = [] \<longrightarrow> s = ?out \<and> (n = 0 \<or> bs_buffered s = 0)" using s(10) calculation(3) by metis
  ultimately show ?thesis using s(2,5,7,8) unfolding outbound_ok_def by (intro exI [of _ s] exI [of _ d] conjI)
qed


lemma piece_prefix: "drop a (full W) = symbols m @ rest \<Longrightarrow> piece W a m"
  by (simp add: piece_def)

lemma rest_full:
  assumes "sent_ok W sn"
  shows "drop (sn_nxt sn) (full W) = (if sn_syn_sent sn then [] else [SYN]) @
    map Octet (drop (bs_popped (sn_outbound sn)) W) @ (if sn_fin_sent sn then [] else [FIN])"
  using assms sent_ok_bounds(4) [OF assms]
  by (auto simp: sent_ok_def full_def drop_map of_bool_def)

text \<open>The fields a push does not touch.\<close>

definition same_base :: "TcpSender \<Rightarrow> TcpSender \<Rightarrow> bool" where
  "same_base sn sn' \<longleftrightarrow> sn_isn sn' = sn_isn sn \<and> sn_una sn' = sn_una sn \<and>
     sn_advertised_window sn' = sn_advertised_window sn \<and> sn_config sn' = sn_config sn \<and>
     sn_current_rto_ms sn' = sn_current_rto_ms sn \<and>
     sn_persist_interval_ms sn' = sn_persist_interval_ms sn \<and>
     sn_consecutive_retransmissions sn' = sn_consecutive_retransmissions sn \<and>
     bs_error (sn_outbound sn') = bs_error (sn_outbound sn) \<and>
     bs_closed (sn_outbound sn') = bs_closed (sn_outbound sn)"

text \<open>The message an iteration builds, and the state before it is tracked.\<close>

definition next_message :: "TcpSender \<Rightarrow> bytes \<Rightarrow> bool \<Rightarrow> TcpSenderMessage" where
  "next_message sn d fin = \<lparr> sm_seqno = Wrap32_wrap (sn_nxt sn) (sn_isn sn), sm_syn = (\<not> sn_syn_sent sn),
     sm_payload = d, sm_fin = fin, sm_rst = bs_error (sn_outbound sn) \<rparr>"

text \<open>
  What an iteration takes for its message within \<open>space\<close> sequence numbers: the bytes \<open>d\<close>, which leaves the
  stream \<open>out\<close>, and possibly the FIN.
\<close>

definition space_left :: "TcpSender \<Rightarrow> nat \<Rightarrow> nat" where
  "space_left sn eff = eff - (sn_nxt sn - sn_una sn) - of_bool (\<not> sn_syn_sent sn)"

definition taken :: "bytes \<Rightarrow> TcpSender \<Rightarrow> nat \<Rightarrow> ByteStream \<Rightarrow> bytes \<Rightarrow> bool \<Rightarrow> bool" where
  "taken W sn space out d fin \<longleftrightarrow> outbound_ok W out \<and> bs_popped out = bs_popped (sn_outbound sn) + length d \<and>
     drop (bs_popped (sn_outbound sn)) W = d @ drop (bs_popped out) W \<and>
     length d \<le> min space (cf_max_payload_size (sn_config sn)) \<and>
     bs_closed out = bs_closed (sn_outbound sn) \<and> bs_error out = bs_error (sn_outbound sn) \<and>
     (d = [] \<longrightarrow> out = sn_outbound sn \<and>
        (min space (cf_max_payload_size (sn_config sn)) = 0 \<or> bs_buffered out = 0)) \<and>
     fin = (\<not> sn_fin_sent sn \<and> bs_closed out \<and> bs_buffered out = 0 \<and> length d < space)"

abbreviation after_taking :: "TcpSender \<Rightarrow> ByteStream \<Rightarrow> bool \<Rightarrow> TcpSender" where
  "after_taking sn out fin \<equiv> sn\<lparr>sn_syn_sent := True, sn_outbound := out, sn_fin_sent := sn_fin_sent sn \<or> fin\<rparr>"

text \<open>The two conditional parts of the message.\<close>

lemma push_syn_part:
  assumes "sn_nxt sn - sn_una sn < eff"
  shows "(if \<not> sn_syn_sent sn \<and> eff - (sn_nxt sn - sn_una sn) > 0
      then (sn\<lparr>sn_syn_sent := True\<rparr>, (TcpSender_make_empty_message sn)\<lparr>sm_syn := True\<rparr>, eff - (sn_nxt sn - sn_una sn) - 1)
      else (sn, TcpSender_make_empty_message sn, eff - (sn_nxt sn - sn_una sn))) =
    (sn\<lparr>sn_syn_sent := True\<rparr>, (TcpSender_make_empty_message sn)\<lparr>sm_syn := \<not> sn_syn_sent sn\<rparr>, space_left sn eff)"
  using assms by (cases sn) (simp add: space_left_def TcpSender_make_empty_message_def)

lemma push_fin_part:
  fixes sn :: TcpSender
  defines "sn0 \<equiv> sn\<lparr>sn_syn_sent := True\<rparr>" and "m0 \<equiv> (TcpSender_make_empty_message sn)\<lparr>sm_syn := \<not> sn_syn_sent sn\<rparr>"
  assumes "fin = (\<not> sn_fin_sent sn \<and> bs_closed out \<and> bs_buffered out = 0 \<and> length d < space)"
  shows "(if \<not> sn_fin_sent sn \<and> bs_closed out \<and> bs_buffered out = 0 \<and> space - length d > 0
      then (sn0\<lparr>sn_outbound := out, sn_fin_sent := True\<rparr>, m0\<lparr>sm_payload := d, sm_fin := True\<rparr>)
      else (sn0\<lparr>sn_outbound := out\<rparr>, m0\<lparr>sm_payload := d\<rparr>)) =
    (after_taking sn out fin, next_message sn d fin)"
  unfolding assms zero_less_diff
  by (cases sn) (auto simp: TcpSender_make_empty_message_def next_message_def stream_accessors)

lemma push_iteration_eq:
  assumes inv: "sent_ok W sn" and room: "sn_nxt sn - sn_una sn < eff"
  shows "\<exists>out d fin. taken W sn (space_left sn eff) out d fin \<and>
    TcpSender_push_iteration sn eff =
      (if symbols (next_message sn d fin) = [] then Some (after_taking sn out fin, None)
       else TcpSender_track_and_transmit (after_taking sn out fin) (next_message sn d fin) \<bind>
         (\<lambda>sn'. Some (sn', Some (next_message sn d fin))))"
proof -
  let ?sn = "sn\<lparr>sn_syn_sent := True\<rparr>" and ?m = "TcpSender_make_empty_message sn" and ?space = "space_left sn eff"
  have una: "sn_una sn \<le> sn_nxt sn" using sent_ok_bounds [OF inv] by simp
  have "outbound_ok W (sn_outbound ?sn)" using inv by (simp add: sent_ok_def)
  from read_payload_spec [OF this, of "min ?space (cf_max_payload_size (sn_config sn))"]
  obtain out d where rd: "TcpSender_read_outbound_payload ?sn (min ?space (cf_max_payload_size (sn_config sn)))
      = Some (?sn\<lparr>sn_outbound := out\<rparr>, d)"
    and t: "taken W sn ?space out d (\<not> sn_fin_sent sn \<and> bs_closed out \<and> bs_buffered out = 0 \<and> length d < ?space)"
    unfolding taken_def by auto
  define fin where "fin = (\<not> sn_fin_sent sn \<and> bs_closed out \<and> bs_buffered out = 0 \<and> length d < ?space)"
  have flight: "TcpSender_bytes_in_flight sn = Some (sn_nxt sn - sn_una sn)"
    "sub64 eff (sn_nxt sn - sn_una sn) = Some (eff - (sn_nxt sn - sn_una sn))"
    "sub64 ?space (length d) = Some (?space - length d)"
    using una room t by (simp_all add: TcpSender_bytes_in_flight_def taken_def run_simps)
  have sel: "sn_config ?sn = sn_config sn" "sn_fin_sent (?sn\<lparr>sn_outbound := out\<rparr>) = sn_fin_sent sn"
    "sn_outbound (?sn\<lparr>sn_outbound := out\<rparr>) = out"
    "sm_payload (?m\<lparr>sm_syn := \<not> sn_syn_sent sn, sm_payload := d\<rparr>) = d" by simp_all
  have "TcpSender_push_iteration sn eff =
      (if symbols (next_message sn d fin) = [] then Some (after_taking sn out fin, None)
       else TcpSender_track_and_transmit (after_taking sn out fin) (next_message sn d fin) \<bind>
         (\<lambda>sn'. Some (sn', Some (next_message sn d fin))))"
    by (simp only: TcpSender_push_iteration_def flight Let_def Option.bind.simps push_syn_part [OF room] prod.case
        sel rd stream_accessors push_fin_part [OF fin_def] is_empty_iff)
  then show ?thesis using t unfolding fin_def by blast
qed

text \<open>Nothing is left to send: the SYN, every byte written and, if the stream is closed, the FIN.\<close>

definition drained :: "TcpSender \<Rightarrow> bool" where
  "drained sn \<longleftrightarrow> sn_syn_sent sn \<and> bs_buffered (sn_outbound sn) = 0 \<and>
     (bs_closed (sn_outbound sn) \<longrightarrow> sn_fin_sent sn)"

lemma next_message_symbols:
  "symbols (next_message sn d fin) =
     (if sn_syn_sent sn then [] else [SYN]) @ map Octet d @ (if fin then [FIN] else [])"
  by (simp add: symbols_def next_message_def)

lemma takenD:
  assumes "taken W sn space out d fin"
  shows "outbound_ok W out" "bs_popped out = bs_popped (sn_outbound sn) + length d"
    "drop (bs_popped (sn_outbound sn)) W = d @ drop (bs_popped out) W"
    "length d \<le> min space (cf_max_payload_size (sn_config sn))"
    "bs_closed out = bs_closed (sn_outbound sn)" "bs_error out = bs_error (sn_outbound sn)"
    "d = [] \<longrightarrow> out = sn_outbound sn \<and> (min space (cf_max_payload_size (sn_config sn)) = 0 \<or> bs_buffered out = 0)"
    "fin = (\<not> sn_fin_sent sn \<and> bs_closed out \<and> bs_buffered out = 0 \<and> length d < space)"
  using assms unfolding taken_def by - (elim conjE, assumption)+

lemma taken_bounds:
  assumes "taken W sn space out d fin"
  shows "bs_popped out \<le> length W" "fin \<Longrightarrow> bs_popped out = length W"
proof -
  have ok: "outbound_ok W out" "fin \<Longrightarrow> bs_buffered out = 0" using takenD(1,8) [OF assms] by simp_all
  then show "bs_popped out \<le> length W" "fin \<Longrightarrow> bs_popped out = length W" by (auto simp: outbound_ok_def bs_wf_def)
qed

lemma taken_nothing:
  assumes "taken W sn (space_left sn eff) out d fin" and "rto_ok sn" and "sn_nxt sn - sn_una sn < eff"
    and "symbols (next_message sn d fin) = []"
  shows "after_taking sn out fin = sn" "drained sn"
proof -
  have m: "sn_syn_sent sn" "d = []" "\<not> fin" using assms(4) by (auto simp: next_message_symbols split: if_splits)
  then have out: "out = sn_outbound sn" "bs_buffered out = 0" "0 < space_left sn eff"
    using takenD(7) [OF assms(1)] assms(2,3) by (auto simp: space_left_def rto_ok_def)
  show "after_taking sn out fin = sn" using m out(1) by (cases sn) simp
  show "drained sn" using takenD(8) [OF assms(1)] m out by (auto simp: drained_def)
qed

lemma taken_piece:
  assumes "taken W sn space out d fin" and "sent_ok W sn"
  shows "piece W (sn_nxt sn) (next_message sn d fin)"
    and "sn_nxt sn + length (symbols (next_message sn d fin)) = 1 + bs_popped out + of_bool (sn_fin_sent sn \<or> fin)"
proof -
  note t = takenD [OF assms(1)] and bounds = taken_bounds [OF assms(1)]
  have "drop (sn_nxt sn) (full W) = symbols (next_message sn d fin) @ map Octet (drop (bs_popped out) W) @
      (if sn_fin_sent sn \<or> fin then [] else [FIN])"
    unfolding rest_full [OF assms(2)] t(3) next_message_symbols using t(8) bounds(2) by auto
  then show "piece W (sn_nxt sn) (next_message sn d fin)" by (rule piece_prefix)
  show "sn_nxt sn + length (symbols (next_message sn d fin)) = 1 + bs_popped out + of_bool (sn_fin_sent sn \<or> fin)"
    using assms(2) t(2,8) by (auto simp: sent_ok_def next_message_symbols)
qed

lemma taken_fits:
  assumes "taken W sn (space_left sn eff) out d fin" and "sn_nxt sn - sn_una sn < eff" and "sn_una sn \<le> sn_nxt sn"
  shows "sn_nxt sn + length (symbols (next_message sn d fin)) - sn_una sn \<le> eff"
proof -
  have "length d + of_bool fin \<le> space_left sn eff"
    using takenD(4,8) [OF assms(1)] by (cases fin) auto
  then show ?thesis using assms(2,3)
    by (cases "sn_syn_sent sn"; cases fin) (simp_all add: next_message_symbols space_left_def)
qed

text \<open>The sender after it has transmitted \<open>m\<close>.\<close>

abbreviation transmitted :: "TcpSender \<Rightarrow> ByteStream \<Rightarrow> bool \<Rightarrow> TcpSenderMessage \<Rightarrow> Timer \<Rightarrow> TcpSender" where
  "transmitted sn out fin m t \<equiv> (after_taking sn out fin)\<lparr>sn_nxt := sn_nxt sn + length (symbols m),
     sn_outstanding := sn_outstanding sn @ [\<lparr>os_absolute_start = sn_nxt sn, os_message = m\<rparr>], sn_timer := t\<rparr>"

lemma transmitted_sent_ok:
  assumes "taken W sn space out d fin" and "sent_ok W sn" and "symbols (next_message sn d fin) \<noteq> []"
  shows "sent_ok W (transmitted sn out fin (next_message sn d fin) t)"
proof -
  let ?m = "next_message sn d fin"
  note tk = takenD [OF assms(1)] and bounds = taken_bounds [OF assms(1)] and pc = taken_piece [OF assms(1,2)]
  have "sm_seqno ?m = Wrap32_wrap (sn_nxt sn) (sn_isn sn)" by (simp add: next_message_def)
  moreover have "tiles (sn_isn sn) W (sn_una sn) (sn_outstanding sn) (sn_nxt sn)"
    using assms(2) unfolding sent_ok_def by blast
  ultimately have tiles: "tiles (sn_isn sn) W (sn_una sn) (sn_outstanding sn @
      [\<lparr>os_absolute_start = sn_nxt sn, os_message = ?m\<rparr>]) (sn_nxt sn + length (symbols ?m))"
    using pc(1) assms(3) by (auto simp: tiles_append)
  have "bs_closed out \<and> bs_popped out = length W" if "sn_fin_sent sn \<or> fin"
    using that tk(2,5,8) bounds assms(2) by (auto simp: sent_ok_def)
  then show ?thesis using tk(1) pc(2) tiles assms(2) unfolding sent_ok_def by simp
qed

definition transmits :: "bytes \<Rightarrow> nat \<Rightarrow> TcpSender \<Rightarrow> TcpSender \<Rightarrow> TcpSenderMessage \<Rightarrow> bool" where
  "transmits W eff sn sn' m \<longleftrightarrow> sn_inv W sn' \<and> same_base sn sn' \<and>
     sends W sn (sn_nxt sn) m \<and> sn_nxt sn' = sn_nxt sn + length (symbols m) \<and>
     sn_nxt sn' - sn_una sn \<le> eff \<and>
     sn_outstanding sn' = sn_outstanding sn @ [\<lparr>os_absolute_start = sn_nxt sn, os_message = m\<rparr>]"

lemma push_iteration_spec:
  assumes inv: "sn_inv W sn" and room: "sn_nxt sn - sn_una sn < eff"
  shows "TcpSender_push_iteration sn eff = Some (sn, None) \<and> drained sn \<or>
    (\<exists>sn' m. TcpSender_push_iteration sn eff = Some (sn', Some m) \<and> transmits W eff sn sn' m)"
proof -
  have sent: "sent_ok W sn" "timer_ok sn" "rto_ok sn" using inv by (auto simp: sn_inv_def)
  obtain out d fin where tk: "taken W sn (space_left sn eff) out d fin" and
    it: "TcpSender_push_iteration sn eff =
      (if symbols (next_message sn d fin) = [] then Some (after_taking sn out fin, None)
       else TcpSender_track_and_transmit (after_taking sn out fin) (next_message sn d fin) \<bind>
         (\<lambda>sn'. Some (sn', Some (next_message sn d fin))))"
    using push_iteration_eq [OF sent(1) room] by blast
  let ?sn = "after_taking sn out fin" and ?m = "next_message sn d fin"
  show ?thesis
  proof (cases "symbols ?m = []")
    case True
    then show ?thesis using taken_nothing [OF tk sent(3) room True] it by simp
  next
    case False
    note pc = taken_piece [OF tk sent(1)] and tkD = takenD [OF tk]
    have "rto_ok ?sn" "sn_outstanding ?sn \<noteq> [] \<Longrightarrow> timer_ok ?sn"
      using sent(2,3) by (auto simp: rto_ok_def timer_ok_def)
    moreover have "sn_nxt ?sn + length (symbols ?m) \<le> U64_MAX"
      using pc(2) taken_bounds(1) [OF tk] sent(1) by (auto simp: sent_ok_def)
    ultimately obtain t where t: "TcpSender_track_and_transmit ?sn ?m = Some (transmitted sn out fin ?m t)"
      "timer_ok (transmitted sn out fin ?m t)"
      using track_spec [of ?sn ?m] False by auto
    have "rto_ok (transmitted sn out fin ?m t)" using sent(3) by (simp add: rto_ok_def)
    then have "sn_inv W (transmitted sn out fin ?m t)"
      using t(2) transmitted_sent_ok [OF tk sent(1) False] by (simp add: sn_inv_def)
    moreover have "same_base sn (transmitted sn out fin ?m t)" using tkD(5,6) by (simp add: same_base_def)
    moreover have "sends W sn (sn_nxt sn) ?m"
      using pc(1) False tkD(4) by (simp add: sends_def) (simp add: next_message_def)
    ultimately have "transmits W eff sn (transmitted sn out fin ?m t) ?m"
      using taken_fits [OF tk room] sent_ok_bounds [OF sent(1)] by (simp add: transmits_def)
    then show ?thesis using t(1) it False by auto
  qed
qed

definition pushed_to :: "bytes \<Rightarrow> nat \<Rightarrow> TcpSender \<Rightarrow> TcpSender \<Rightarrow> TcpSenderMessage list \<Rightarrow> bool" where
  "pushed_to W eff sn sn' sent \<longleftrightarrow> sn_inv W sn' \<and> same_base sn sn' \<and>
     (\<exists>ss. sn_outstanding sn' = sn_outstanding sn @ ss \<and> map os_message ss = sent) \<and>
     sn_nxt sn \<le> sn_nxt sn' \<and> sn_nxt sn' - sn_una sn \<le> max eff (sn_nxt sn - sn_una sn) \<and>
     (\<forall>m \<in> set sent. \<exists>a \<ge> sn_nxt sn. sends W sn a m) \<and>
     (eff \<le> sn_nxt sn' - sn_una sn' \<or> drained sn')"

lemma pushed_to_refl:
  "sn_inv W sn \<Longrightarrow> eff \<le> sn_nxt sn - sn_una sn \<or> drained sn \<Longrightarrow> pushed_to W eff sn sn []"
  by (simp add: pushed_to_def same_base_def)

lemma pushed_to_Cons:
  assumes "transmits W eff sn sn1 m" and "pushed_to W eff sn1 sn' new"
  shows "pushed_to W eff sn sn' (m # new)"
proof -
  have it: "same_base sn sn1" "sends W sn (sn_nxt sn) m" "sn_nxt sn1 = sn_nxt sn + length (symbols m)"
    "sn_nxt sn1 - sn_una sn \<le> eff"
    "sn_outstanding sn1 = sn_outstanding sn @ [\<lparr>os_absolute_start = sn_nxt sn, os_message = m\<rparr>]"
    using assms(1) by (auto simp: transmits_def)
  have base: "sn_una sn1 = sn_una sn" "sn_isn sn1 = sn_isn sn" "sn_config sn1 = sn_config sn"
    "bs_error (sn_outbound sn1) = bs_error (sn_outbound sn)"
    using it(1) by (auto simp: same_base_def)
  obtain ss where ss: "sn_outstanding sn' = sn_outstanding sn1 @ ss" "map os_message ss = new"
    using assms(2) by (auto simp: pushed_to_def)
  have "\<exists>ss. sn_outstanding sn' = sn_outstanding sn @ ss \<and> map os_message ss = m # new"
    using ss it(5) by (intro exI [of _ "\<lparr>os_absolute_start = sn_nxt sn, os_message = m\<rparr> # ss"]) simp
  moreover have "\<exists>a \<ge> sn_nxt sn. sends W sn a m'" if m': "m' \<in> set new" for m'
  proof -
    have "\<forall>m \<in> set new. \<exists>a \<ge> sn_nxt sn1. sends W sn1 a m" using assms(2) by (simp add: pushed_to_def)
    then obtain a where "sn_nxt sn1 \<le> a" "sends W sn1 a m'" using m' by blast
    moreover have "sends W sn1 a m' = sends W sn a m'" by (simp only: sends_def base)
    ultimately show ?thesis using it(3) by (intro exI [of _ a]) simp
  qed
  moreover have "same_base sn sn'" using assms(2) it(1) by (auto simp: pushed_to_def same_base_def)
  moreover have "sn_inv W sn'" "sn_nxt sn \<le> sn_nxt sn'" "sn_nxt sn' - sn_una sn \<le> max eff (sn_nxt sn - sn_una sn)"
    "eff \<le> sn_nxt sn' - sn_una sn' \<or> drained sn'"
    using assms(2) it(3,4) base(1) by (auto simp: pushed_to_def)
  ultimately show ?thesis using it(2) unfolding pushed_to_def by auto
qed

lemma push_loop_spec:
  assumes "sn_inv W sn"
  shows "\<exists>sn' new. TcpSender_push_loop sn eff acc = Some (sn', acc @ new) \<and> pushed_to W eff sn sn' new"
  using assms
proof (induction "eff - (sn_nxt sn - sn_una sn)" arbitrary: sn acc rule: less_induct)
  case less
  have una: "sn_una sn \<le> sn_nxt sn"
    using less.prems sent_ok_bounds by (auto simp: sn_inv_def)
  then have flight: "TcpSender_bytes_in_flight sn = Some (sn_nxt sn - sn_una sn)"
    by (simp add: TcpSender_bytes_in_flight_def run_simps)
  have stop: ?case if "TcpSender_push_loop sn eff acc = Some (sn, acc)" "eff \<le> sn_nxt sn - sn_una sn \<or> drained sn"
    using that pushed_to_refl [OF less.prems] by (intro exI [of _ sn] exI [of _ "[]"]) simp
  show ?case
  proof (cases "sn_nxt sn - sn_una sn < eff")
    case False
    then show ?thesis by (intro stop) (subst TcpSender_push_loop.simps, simp_all add: flight)
  next
    case True
    from push_iteration_spec [OF less.prems True] show ?thesis
    proof (elim disjE conjE exE)
      assume "TcpSender_push_iteration sn eff = Some (sn, None)" "drained sn"
      then show ?thesis using True flight by (intro stop) (subst TcpSender_push_loop.simps, simp_all)
    next
      fix sn1 m
      assume it: "TcpSender_push_iteration sn eff = Some (sn1, Some m)" "transmits W eff sn sn1 m"
      have "symbols m \<noteq> []" using it(2) by (simp add: transmits_def sends_def)
      then have "eff - (sn_nxt sn1 - sn_una sn1) < eff - (sn_nxt sn - sn_una sn)" and inv: "sn_inv W sn1"
        using True it(2) una by (cases "symbols m"; auto simp: transmits_def same_base_def)+
      from less.hyps [OF this, of "acc @ [m]"] obtain sn' new where
        rec: "TcpSender_push_loop sn1 eff (acc @ [m]) = Some (sn', acc @ m # new)" "pushed_to W eff sn1 sn' new"
        by auto
      have "TcpSender_push_loop sn eff acc = Some (sn', acc @ m # new)"
        using rec(1) it(1) flight True by (subst TcpSender_push_loop.simps) simp
      then show ?thesis using pushed_to_Cons [OF it(2) rec(2)] by blast
    qed
  qed
qed

lemma push_spec:
  assumes "sn_inv W sn"
  shows "\<exists>sn' sent. TcpSender_push sn = Some (sn', sent) \<and>
    pushed_to W (max (sn_advertised_window sn) 1) sn sn' sent"
proof -
  obtain sn' sent where p: "TcpSender_push_loop sn (max (sn_advertised_window sn) 1) [] = Some (sn', [] @ sent)"
    "pushed_to W (max (sn_advertised_window sn) 1) sn sn' sent"
    using push_loop_spec [OF assms] by blast
  then have "sent_ok W sn'" by (simp add: pushed_to_def sn_inv_def)
  then show ?thesis using p by (simp add: TcpSender_push_def sent_ok_checked)
qed

section \<open>Feedback\<close>

lemma abort_spec:
  assumes "sn_inv W sn"
  shows "sn_inv W (TcpSender_abort sn)"
proof -
  have "outbound_ok W (ByteStream_set_error s) = outbound_ok W s" for s
    unfolding outbound_ok_def bs_wf_set_error bs_contents_flags by (simp add: ByteStream_set_error_def)
  then show ?thesis using assms
    by (auto simp: sn_inv_def sent_ok_def TcpSender_abort_def timer_ok_def rto_ok_def Timer_stop_def)
      (auto simp: ByteStream_set_error_def)
qed

lemma sn_inv_timer:
  "sent_ok W (sn\<lparr>sn_timer := t\<rparr>) = sent_ok W sn" "rto_ok (sn\<lparr>sn_timer := t\<rparr>) = rto_ok sn"
  by (simp_all add: sent_ok_def rto_ok_def)

lemma sn_inv_window:
  "sent_ok W (sn\<lparr>sn_advertised_window := w\<rparr>) = sent_ok W sn"
  "rto_ok (sn\<lparr>sn_advertised_window := w\<rparr>) = rto_ok sn"
  by (simp_all add: sent_ok_def rto_ok_def)

lemma restarted_inv:
  assumes "sent_ok W sn" and "rto_ok sn"
  shows "\<exists>t. TcpSender_restart_timer_for_current_window sn = Some (sn\<lparr>sn_timer := t\<rparr>) \<and>
    sn_inv W (sn\<lparr>sn_timer := t\<rparr>)"
  using restart_timer_spec [OF assms(2)] assms by (auto simp: sn_inv_def sn_inv_timer)

lemma stopped_inv:
  assumes "sent_ok W sn" and "rto_ok sn" and "sn_outstanding sn = []"
  shows "sn_inv W (sn\<lparr>sn_timer := Timer_stop (sn_timer sn)\<rparr>)"
  using assms by (simp add: sn_inv_def sn_inv_timer timer_ok_def Timer_stop_def)

lemma sn_inv_checked: "sn_inv W sn \<Longrightarrow> TcpSender_debug_check_invariants sn = Some ()"
  unfolding sn_inv_def using sent_ok_checked by blast

lemma receive_no_ack:
  assumes "sn_inv W sn" and "\<not> rm_rst msg" and "rm_ackno msg = None"
  shows "\<exists>t. TcpSender_receive sn msg =
      Some (sn\<lparr>sn_advertised_window := unat (rm_window_size msg), sn_timer := t\<rparr>) \<and>
    sn_inv W (sn\<lparr>sn_advertised_window := unat (rm_window_size msg), sn_timer := t\<rparr>)"
proof -
  let ?sn = "sn\<lparr>sn_advertised_window := unat (rm_window_size msg)\<rparr>"
  have ok: "sent_ok W ?sn" "rto_ok ?sn" using assms(1) by (auto simp: sn_inv_def sn_inv_window)
  show ?thesis
  proof (cases "sn_advertised_window sn \<noteq> unat (rm_window_size msg) \<and> sn_outstanding sn \<noteq> []")
    case True
    obtain t where "TcpSender_restart_timer_for_current_window ?sn = Some (?sn\<lparr>sn_timer := t\<rparr>)"
      "sn_inv W (?sn\<lparr>sn_timer := t\<rparr>)"
      using restarted_inv [OF ok] by blast
    then show ?thesis using True assms(2,3) sn_inv_checked [of W "?sn\<lparr>sn_timer := t\<rparr>"]
      by (intro exI [of _ t]) (simp add: TcpSender_receive_def Let_def)
  next
    case False
    then have "sn_inv W ?sn" using assms(1) ok by (auto simp: sn_inv_def timer_ok_def)
    moreover have "?sn\<lparr>sn_timer := sn_timer sn\<rparr> = ?sn" by simp
    ultimately show ?thesis using False assms(2,3) sn_inv_checked [of W ?sn]
      by (intro exI [of _ "sn_timer sn"]) (auto simp: TcpSender_receive_def Let_def)
  qed
qed

text \<open>An acceptable acknowledgment: the state it leads to.\<close>

definition acked :: "TcpSender \<Rightarrow> nat \<Rightarrow> nat \<Rightarrow> TcpSender \<Rightarrow> bool" where
  "acked sn w a sn' \<longleftrightarrow> sn_advertised_window sn' = w \<and> sn_una sn' = max (sn_una sn) a \<and>
     sn_nxt sn' = sn_nxt sn \<and> sn_outbound sn' = sn_outbound sn \<and> sn_isn sn' = sn_isn sn \<and>
     sn_config sn' = sn_config sn \<and> sn_syn_sent sn' = sn_syn_sent sn \<and> sn_fin_sent sn' = sn_fin_sent sn \<and>
     (if a > sn_una sn
      then sn_current_rto_ms sn' = cf_initial_rto_ms (sn_config sn) \<and>
           sn_persist_interval_ms sn' = cf_initial_rto_ms (sn_config sn) \<and>
           sn_consecutive_retransmissions sn' = 0
      else sn_outstanding sn' = sn_outstanding sn \<and> sn_current_rto_ms sn' = sn_current_rto_ms sn \<and>
           sn_persist_interval_ms sn' = sn_persist_interval_ms sn \<and>
           sn_consecutive_retransmissions sn' = sn_consecutive_retransmissions sn)"

lemma finish_ack:
  assumes "sent_ok W sn" and "rto_ok sn" and "sn_outstanding sn \<noteq> [] \<Longrightarrow> \<not> c \<Longrightarrow> timer_ok sn"
  shows "\<exists>t. (if sn_outstanding sn = [] then Some (sn\<lparr> sn_timer := Timer_stop (sn_timer sn) \<rparr>)
     else if c then TcpSender_restart_timer_for_current_window sn else Some sn) = Some (sn\<lparr>sn_timer := t\<rparr>) \<and>
     sn_inv W (sn\<lparr>sn_timer := t\<rparr>)"
proof (cases "sn_outstanding sn = [] \<or> c")
  case True
  then show ?thesis using restarted_inv [OF assms(1,2)] stopped_inv [OF assms(1,2)] by auto
next
  case False
  moreover have "sn\<lparr>sn_timer := sn_timer sn\<rparr> = sn" by simp
  moreover have "sn_inv W sn" using assms False by (simp add: sn_inv_def)
  ultimately show ?thesis by (intro exI [of _ "sn_timer sn"]) simp
qed

text \<open>The part of \<open>receive\<close> that moves \<open>SND.UNA\<close>; the window has been stored before.\<close>

definition advance_una :: "TcpSender \<Rightarrow> nat \<Rightarrow> TcpSender run" where
  "advance_una self absolute_ackno =
     (if absolute_ackno > sn_una self then do {
        let self = self\<lparr> sn_una := absolute_ackno \<rparr>;
        self \<leftarrow> TcpSender_discard_acknowledged_prefix self;
        Some (self\<lparr> sn_current_rto_ms := cf_initial_rto_ms (sn_config self),
                    sn_persist_interval_ms := cf_initial_rto_ms (sn_config self),
                    sn_consecutive_retransmissions := 0 \<rparr>)
      } else Some self)"

lemma advance_una_spec:
  fixes sn :: TcpSender and w :: nat
  assumes "sent_ok W sn" and "rto_ok sn" and "a \<le> sn_nxt sn"
  defines "sn1 \<equiv> sn\<lparr>sn_advertised_window := w\<rparr>"
  shows "\<exists>sn2. advance_una sn1 a = Some sn2 \<and> sent_ok W sn2 \<and> rto_ok sn2 \<and> acked sn w a sn2 \<and>
    (\<not> a > sn_una sn \<longrightarrow> sn2 = sn1)"
proof -
  have ok1: "sent_ok W sn1" "rto_ok sn1" using assms by (auto simp: sn_inv_window)
  note b = sent_ok_bounds [OF ok1(1)]
  show ?thesis
  proof (cases "a > sn_una sn")
    case True
    let ?sn = "sn1\<lparr>sn_una := a\<rparr>"
    have "tiles (sn_isn sn1) W (sn_una sn1) (sn_outstanding sn1) (sn_nxt sn1)"
      using ok1(1) unfolding sent_ok_def by blast
    then obtain ss where ss: "TcpSender_discard_acknowledged_prefix ?sn = Some (?sn\<lparr>sn_outstanding := ss\<rparr>)"
      "tiles (sn_isn sn) W a ss (sn_nxt sn)"
      using discard_spec [of ?sn W "sn_una sn"] True assms(3) b(3) by (auto simp: sn1_def)
    then show ?thesis using True ok1
      by (auto simp: advance_una_def sent_ok_def rto_ok_def acked_def sn1_def)
  next
    case False
    then show ?thesis using ok1 by (auto simp: advance_una_def acked_def sn1_def)
  qed
qed

lemma receive_ack:
  assumes "sn_inv W sn" and "\<not> rm_rst msg" and "rm_ackno msg = Some w"
    and "Wrap32_unwrap w (sn_isn sn) (sn_nxt sn) = Some a"
  shows "\<exists>sn'. TcpSender_receive sn msg = Some sn' \<and> sn_inv W sn' \<and>
    (if a > sn_nxt sn then sn' = sn else acked sn (unat (rm_window_size msg)) a sn')"
proof (cases "a > sn_nxt sn")
  case True
  then show ?thesis using assms by (simp add: TcpSender_receive_def)
next
  case False
  let ?w = "unat (rm_window_size msg)"
  define sn1 where "sn1 = sn\<lparr>sn_advertised_window := ?w\<rparr>"
  obtain sn2 where sn2: "advance_una sn1 a = Some sn2" "sent_ok W sn2" "rto_ok sn2" "acked sn ?w a sn2"
    "\<not> a > sn_una sn \<longrightarrow> sn2 = sn1"
    using advance_una_spec [of W sn a ?w] assms(1) False unfolding sn1_def sn_inv_def by auto
  let ?c = "a > sn_una sn \<or> sn_advertised_window sn \<noteq> ?w"
  have "timer_ok sn2" if "\<not> ?c" "sn_outstanding sn2 \<noteq> []"
    using that sn2(5) assms(1) by (auto simp: sn1_def sn_inv_def timer_ok_def)
  then obtain t where t: "(if sn_outstanding sn2 = [] then Some (sn2\<lparr> sn_timer := Timer_stop (sn_timer sn2) \<rparr>)
     else if ?c then TcpSender_restart_timer_for_current_window sn2 else Some sn2) = Some (sn2\<lparr>sn_timer := t\<rparr>)"
     "sn_inv W (sn2\<lparr>sn_timer := t\<rparr>)"
    using finish_ack [OF sn2(2,3), of ?c] by blast
  have sel: "sn_una sn1 = sn_una sn" by (simp add: sn1_def)
  have "TcpSender_receive sn msg = Some (sn2\<lparr>sn_timer := t\<rparr>)"
    using assms(2-4) False sn2(1) t sn_inv_checked [OF t(2)]
    by (simp only: TcpSender_receive_def advance_una_def Let_def if_False option.case Option.bind.simps
        sn1_def [symmetric] sel)
  moreover have "acked sn ?w a (sn2\<lparr>sn_timer := t\<rparr>)" using sn2(4) by (simp add: acked_def)
  ultimately show ?thesis using t(2) False by auto
qed

section \<open>Time\<close>

lemma sent_ok_cong:
  assumes "sn_outbound sn' = sn_outbound sn" "sn_isn sn' = sn_isn sn" "sn_una sn' = sn_una sn"
    "sn_nxt sn' = sn_nxt sn" "sn_outstanding sn' = sn_outstanding sn" "sn_syn_sent sn' = sn_syn_sent sn"
    "sn_fin_sent sn' = sn_fin_sent sn"
  shows "sent_ok W sn' = sent_ok W sn"
  unfolding sent_ok_def assms ..

definition expires :: "TcpSender \<Rightarrow> nat \<Rightarrow> bool" where
  "expires sn ms \<longleftrightarrow> sn_outstanding sn \<noteq> [] \<and>
     tm_timeout_ms (sn_timer sn) \<le> saturating_add (tm_elapsed_ms (sn_timer sn)) ms"

lemma backed_off_ok:
  assumes "rto_ok sn" and "cf_initial_rto_ms (sn_config sn) \<le> x"
  shows "cf_initial_rto_ms (sn_config sn) \<le> TcpSender_backed_off sn x"
    and "TcpSender_backed_off sn x \<le> cf_max_timer_interval_ms (sn_config sn)"
  using assms by (auto simp: TcpSender_backed_off_def saturating_mul_def rto_ok_def min_def)

lemma tick_idle:
  assumes "sn_inv W sn" and "\<not> expires sn ms"
  shows "\<exists>t. TcpSender_tick sn ms = Some (sn\<lparr>sn_timer := t\<rparr>, []) \<and> sn_inv W (sn\<lparr>sn_timer := t\<rparr>)"
proof -
  have tm: "timer_ok sn" using assms(1) by (simp add: sn_inv_def)
  then have "\<not> snd (Timer_tick (sn_timer sn) ms)"
    and "timer_ok (sn\<lparr>sn_timer := fst (Timer_tick (sn_timer sn) ms)\<rparr>)"
    using assms(2) by (auto simp: Timer_tick_def expires_def timer_ok_def Let_def split: if_splits)
  then show ?thesis using assms(1)
    by (auto simp: TcpSender_tick_def sn_inv_def sn_inv_timer case_prod_unfold)
qed

lemma tick_expired:
  assumes "sn_inv W sn" and "expires sn ms"
  shows "\<exists>t. TcpSender_tick sn ms = Some ((if sn_advertised_window sn = 0
      then sn\<lparr>sn_persist_interval_ms := TcpSender_backed_off sn (sn_persist_interval_ms sn), sn_timer := t\<rparr>
      else sn\<lparr>sn_consecutive_retransmissions := saturating_add (sn_consecutive_retransmissions sn) 1,
              sn_current_rto_ms := TcpSender_backed_off sn (sn_current_rto_ms sn), sn_timer := t\<rparr>),
      [os_message (hd (sn_outstanding sn))]) \<and>
    sn_inv W (if sn_advertised_window sn = 0
      then sn\<lparr>sn_persist_interval_ms := TcpSender_backed_off sn (sn_persist_interval_ms sn), sn_timer := t\<rparr>
      else sn\<lparr>sn_consecutive_retransmissions := saturating_add (sn_consecutive_retransmissions sn) 1,
              sn_current_rto_ms := TcpSender_backed_off sn (sn_current_rto_ms sn), sn_timer := t\<rparr>)"
proof -
  have ok: "sent_ok W sn" "timer_ok sn" "rto_ok sn" using assms(1) by (auto simp: sn_inv_def)
  define t1 where "t1 = (sn_timer sn)\<lparr>tm_elapsed_ms := saturating_add (tm_elapsed_ms (sn_timer sn)) ms\<rparr>"
  have tick: "Timer_tick (sn_timer sn) ms = (t1, True)"
    using assms(2) ok(2) by (simp add: Timer_tick_def expires_def timer_ok_def Let_def t1_def)
  define sn1 where "sn1 = (if sn_advertised_window sn = 0
      then sn\<lparr>sn_timer := t1, sn_persist_interval_ms := TcpSender_backed_off sn (sn_persist_interval_ms sn)\<rparr>
      else sn\<lparr>sn_timer := t1, sn_consecutive_retransmissions := saturating_add (sn_consecutive_retransmissions sn) 1,
              sn_current_rto_ms := TcpSender_backed_off sn (sn_current_rto_ms sn)\<rparr>)"
  have "sent_ok W sn1" using ok(1) sent_ok_cong [of sn1 sn] by (simp add: sn1_def)
  moreover have "rto_ok sn1"
    using ok(3) backed_off_ok [OF ok(3), of "sn_persist_interval_ms sn"]
      backed_off_ok [OF ok(3), of "sn_current_rto_ms sn"] by (simp add: sn1_def rto_ok_def)
  ultimately obtain t where t: "TcpSender_restart_timer_for_current_window sn1 = Some (sn1\<lparr>sn_timer := t\<rparr>)"
      "sn_inv W (sn1\<lparr>sn_timer := t\<rparr>)"
    using restarted_inv by blast
  have bo: "TcpSender_backed_off (sn\<lparr>sn_timer := x\<rparr>) = TcpSender_backed_off sn" for x
    by (simp add: fun_eq_iff TcpSender_backed_off_def)
  have same: "sn1\<lparr>sn_timer := t\<rparr> = (if sn_advertised_window sn = 0
      then sn\<lparr>sn_persist_interval_ms := TcpSender_backed_off sn (sn_persist_interval_ms sn), sn_timer := t\<rparr>
      else sn\<lparr>sn_consecutive_retransmissions := saturating_add (sn_consecutive_retransmissions sn) 1,
              sn_current_rto_ms := TcpSender_backed_off sn (sn_current_rto_ms sn), sn_timer := t\<rparr>)"
    by (cases sn) (simp add: sn1_def)
  obtain s ss where out: "sn_outstanding sn = s # ss"
    using assms(2) by (cases "sn_outstanding sn") (auto simp: expires_def)
  have "TcpSender_tick sn ms = Some (sn1\<lparr>sn_timer := t\<rparr>, [os_message s])"
    using t(1) sn_inv_checked [OF t(2)] out
    by (simp add: TcpSender_tick_def tick Let_def bo) (auto simp: sn1_def)
  then show ?thesis using t(2) unfolding same out by auto
qed

text \<open>What a tick changes at most, and what it sends.\<close>

lemma tick_spec:
  assumes "sn_inv W sn"
  shows "\<exists>sn' sent. TcpSender_tick sn ms = Some (sn', sent) \<and> sn_inv W sn' \<and> sn_isn sn' = sn_isn sn \<and>
    sn_config sn' = sn_config sn \<and> sn_outbound sn' = sn_outbound sn \<and> sn_outstanding sn' = sn_outstanding sn \<and>
    sn_fin_sent sn' = sn_fin_sent sn \<and> set sent \<subseteq> os_message ` set (sn_outstanding sn) \<and>
    sn_una sn' = sn_una sn \<and> sn_nxt sn' = sn_nxt sn \<and> sn_advertised_window sn' = sn_advertised_window sn \<and>
    (expires sn ms \<longrightarrow> os_message (hd (sn_outstanding sn)) \<in> set sent)"
proof (cases "expires sn ms")
  case False
  then show ?thesis using tick_idle [OF assms] by fastforce
next
  case True
  then have "sn_outstanding sn \<noteq> []" by (simp add: expires_def)
  then show ?thesis using tick_expired [OF assms True] by force
qed

section \<open>Executions of the sender\<close>

text \<open>
  The calls of an application (writing, closing), of the connection (push, feedback, time) in any
  order. The bytes the outbound stream has accepted are recorded.
\<close>

datatype sender_op = SnWrite bytes | SnClose | SnPush | SnReceive TcpReceiverMessage | SnTick nat

fun sender_step ::
  "TcpSender \<times> bytes \<times> TcpSenderMessage list \<Rightarrow> sender_op \<Rightarrow> (TcpSender \<times> bytes \<times> TcpSenderMessage list) run"
where
  "sender_step (sn, W, tx) (SnWrite d) = do {
     (s, n) \<leftarrow> ByteStream_push (sn_outbound sn) d;
     Some (sn\<lparr> sn_outbound := s \<rparr>, W @ take n d, tx) }"
| "sender_step (sn, W, tx) SnClose =
     Some (sn\<lparr> sn_outbound := ByteStream_close (sn_outbound sn) \<rparr>, W, tx)"
| "sender_step (sn, W, tx) SnPush = do {
     (sn, sent) \<leftarrow> TcpSender_push sn; Some (sn, W, tx @ sent) }"
| "sender_step (sn, W, tx) (SnReceive msg) = do {
     sn \<leftarrow> TcpSender_receive sn msg; Some (sn, W, tx) }"
| "sender_step (sn, W, tx) (SnTick ms) = do {
     (sn, sent) \<leftarrow> TcpSender_tick sn ms; Some (sn, W, tx @ sent) }"

lemma write_spec:
  assumes "sn_inv W sn" and "length W + length d + 2 \<le> U64_MAX"
  shows "\<exists>s n. ByteStream_push (sn_outbound sn) d = Some (s, n) \<and> sn_inv (W @ take n d) (sn\<lparr>sn_outbound := s\<rparr>) \<and>
    (sn_fin_sent sn \<longrightarrow> take n d = []) \<and> bs_error s = bs_error (sn_outbound sn) \<and> bs_closed s = bs_closed (sn_outbound sn)"
proof -
  let ?out = "sn_outbound sn" and ?a = "take (bs_room (sn_outbound sn)) d"
  have sent: "sent_ok W sn" "timer_ok sn" "rto_ok sn" using assms(1) by (auto simp: sn_inv_def)
  have ok: "bs_wf ?out" "bs_pushed ?out = length W" "bs_contents ?out = drop (bs_popped ?out) W"
    "bs_popped ?out \<le> length W"
    using sent(1) by (auto simp: sent_ok_def outbound_ok_def bs_wf_def)
  have bound: "bs_pushed ?out + min (length d) (bs_room ?out) \<le> U64_MAX" using ok(2) assms(2) by simp
  have take: "take (min (length d) (bs_room ?out)) d = ?a" by (simp add: min_def)
  have fin: "?a = []" if "sn_fin_sent sn" using that sent(1) by (simp add: sent_ok_def bs_room_def)
  have out: "outbound_ok (W @ ?a) (bs_append ?out ?a)"
    using push_wf [OF ok(1) bound] ok by (simp add: outbound_ok_def)
  have "tiles (sn_isn sn) W (sn_una sn) (sn_outstanding sn) (sn_nxt sn)"
    using sent(1) unfolding sent_ok_def by blast
  then have tiles: "tiles (sn_isn sn) (W @ ?a) (sn_una sn) (sn_outstanding sn) (sn_nxt sn)"
    using fin tiles_extend sent_ok_bounds(5) [OF sent(1)] by (cases "sn_fin_sent sn") auto
  have "sent_ok (W @ a) (sn\<lparr>sn_outbound := bs_append ?out a\<rparr>)"
    if "outbound_ok (W @ a) (bs_append ?out a)" "sn_fin_sent sn \<Longrightarrow> a = []" "length a \<le> length d"
      "tiles (sn_isn sn) (W @ a) (sn_una sn) (sn_outstanding sn) (sn_nxt sn)" for a
    using that sent(1) assms(2) unfolding sent_ok_def by (cases "sn_fin_sent sn") simp_all
  then have "sent_ok (W @ ?a) (sn\<lparr>sn_outbound := bs_append ?out ?a\<rparr>)"
    using out fin tiles by simp
  then have "sn_inv (W @ ?a) (sn\<lparr>sn_outbound := bs_append ?out ?a\<rparr>)"
    using sent(2,3) by (simp add: sn_inv_def timer_ok_def rto_ok_def)
  then show ?thesis using push_eq [OF ok(1) bound] take fin by auto
qed

lemma close_spec:
  assumes "sn_inv W sn"
  shows "sn_inv W (sn\<lparr>sn_outbound := ByteStream_close (sn_outbound sn)\<rparr>)"
proof -
  have "outbound_ok W (ByteStream_close s) = outbound_ok W s" for s
    unfolding outbound_ok_def bs_wf_close bs_contents_flags by (simp add: ByteStream_close_def)
  then show ?thesis using assms
    by (auto simp: sn_inv_def sent_ok_def timer_ok_def rto_ok_def) (auto simp: ByteStream_close_def)
qed

lemma receive_spec:
  assumes "sn_inv W sn"
  shows "\<exists>sn'. TcpSender_receive sn msg = Some sn' \<and> sn_inv W sn' \<and> sn_isn sn' = sn_isn sn \<and>
    sn_una sn \<le> sn_una sn' \<and> sn_nxt sn' = sn_nxt sn \<and> sn_config sn' = sn_config sn \<and>
    sn_fin_sent sn' = sn_fin_sent sn \<and> sn_syn_sent sn' = sn_syn_sent sn \<and>
    (bs_error (sn_outbound sn') = (bs_error (sn_outbound sn) \<or> rm_rst msg)) \<and>
    bs_closed (sn_outbound sn') = bs_closed (sn_outbound sn)"
proof (cases "rm_rst msg")
  case True
  have "sn_una sn \<le> sn_nxt sn" using assms sent_ok_bounds by (auto simp: sn_inv_def)
  then show ?thesis using True abort_spec [OF assms]
    by (simp add: TcpSender_receive_def) (simp add: TcpSender_abort_def ByteStream_set_error_def)
next
  case rst: False
  show ?thesis
  proof (cases "rm_ackno msg")
    case None
    then show ?thesis using receive_no_ack [OF assms rst None] rst by auto
  next
    case (Some w)
    have "sn_nxt sn \<le> U64_MAX" using assms sent_ok_bounds by (auto simp: sn_inv_def)
    then obtain a where "Wrap32_unwrap w (sn_isn sn) (sn_nxt sn) = Some a" using unwrap_spec by blast
    from receive_ack [OF assms rst Some this] show ?thesis using rst by (auto simp: acked_def split: if_splits)
  qed
qed

fun sender_bytes :: "sender_op \<Rightarrow> nat" where
  "sender_bytes (SnWrite d) = length d"
| "sender_bytes _ = 0"

text \<open>
  \<open>speaks W sn m\<close>: \<open>m\<close> is a non-empty piece of the stream written so far, under its sequence number.
\<close>

definition speaks :: "bytes \<Rightarrow> Wrap32 \<Rightarrow> TcpSenderMessage \<Rightarrow> bool" where
  "speaks W isn m \<longleftrightarrow> symbols m \<noteq> [] \<and> (\<exists>a. sm_seqno m = Wrap32_wrap a isn \<and> piece W a m)"

text \<open>The same for a piece that ends before the sequence number \<open>n\<close>.\<close>

definition speaks_to :: "bytes \<Rightarrow> Wrap32 \<Rightarrow> nat \<Rightarrow> TcpSenderMessage \<Rightarrow> bool" where
  "speaks_to W isn n m \<longleftrightarrow> symbols m \<noteq> [] \<and>
     (\<exists>a. sm_seqno m = Wrap32_wrap a isn \<and> piece W a m \<and> a + length (symbols m) \<le> n)"

lemma speaks_to_speaks: "speaks_to W isn n m \<Longrightarrow> speaks W isn m"
  by (auto simp: speaks_to_def speaks_def)

lemma speaks_to_mono: "speaks_to W isn n m \<Longrightarrow> n \<le> n' \<Longrightarrow> speaks_to W isn n' m"
  unfolding speaks_to_def by (meson le_trans)

definition sender_inv :: "TcpSender \<times> bytes \<times> TcpSenderMessage list \<Rightarrow> bool" where
  "sender_inv = (\<lambda>(sn, W, tx). sn_inv W sn \<and> (\<forall>m \<in> set tx. speaks W (sn_isn sn) m) \<and>
     (\<not> sn_fin_sent sn \<longrightarrow> (\<forall>m \<in> set tx. \<not> sm_fin m)))"

lemma tiles_speaks: "tiles isn W a ss b \<Longrightarrow> s \<in> set ss \<Longrightarrow> speaks_to W isn b (os_message s)"
  by (induction ss arbitrary: a) (auto simp: speaks_to_def dest: tiles_le)

lemma full_nth_FIN: "a < length (full W) \<Longrightarrow> full W ! a = FIN \<longleftrightarrow> a = Suc (length W)"
  by (cases a) (auto simp: full_def nth_append)

lemma full_nth_SYN: "a < length (full W) \<Longrightarrow> full W ! a = SYN \<longleftrightarrow> a = 0"
  by (cases a) (auto simp: full_def nth_append)

lemma length_full: "length (full W) = length W + 2"
  by (simp add: full_def)

lemma piece_nth:
  assumes "piece W a m" and "i < length (symbols m)"
  shows "symbols m ! i = full W ! (a + i)" and "a + i < length (full W)"
proof -
  have eq: "symbols m = take (length (symbols m)) (drop a (full W))" using assms(1) unfolding piece_def .
  have "length (symbols m) \<le> length (full W) - a" using arg_cong [OF eq, of length] by simp
  then show lt: "a + i < length (full W)" using assms(2) by linarith
  have "symbols m ! i = take (length (symbols m)) (drop a (full W)) ! i"
    by (rule arg_cong [OF eq, of "\<lambda>l. l ! i"])
  then show "symbols m ! i = full W ! (a + i)" using assms(2) lt by simp
qed

lemma tiles_unique: "tiles isn W a ss b \<Longrightarrow> tiles isn W a ss c \<Longrightarrow> b = c"
  by (induction ss arbitrary: a) auto

text \<open>A message that does not carry the FIN is a piece of every extension of the stream.\<close>

lemma piece_extend:
  assumes "piece W a m" and "\<not> sm_fin m" and "symbols m \<noteq> []"
  shows "piece (W @ d) a m"
proof -
  let ?n = "length (symbols m)"
  have last: "?n - 1 < ?n" using assms(3) by (cases "symbols m") auto
  have "symbols m ! (?n - 1) \<noteq> FIN"
    using assms(2,3) last_conv_nth [of "symbols m"] by (auto simp: symbols_def last_map split: if_splits)
  then have "a + (?n - 1) \<noteq> Suc (length W)"
    using piece_nth [OF assms(1) last] full_nth_FIN by metis
  then have "a + ?n \<le> 1 + length W"
    using piece_nth(2) [OF assms(1) last] last by (simp add: length_full)
  then show ?thesis using assms(1) unfolding piece_def by (simp only: full_extend)
qed

lemma speaks_extend:
  "speaks W isn m \<Longrightarrow> \<not> sm_fin m \<Longrightarrow> speaks (W @ d) isn m"
  "speaks_to W isn n m \<Longrightarrow> \<not> sm_fin m \<Longrightarrow> speaks_to (W @ d) isn n m"
  using piece_extend by (auto simp: speaks_def speaks_to_def)

lemma tiles_fin: 
  assumes "tiles isn W a ss b" and "b \<le> 1 + length W" and "s \<in> set ss"
  shows "\<not> sm_fin (os_message s)"
  using assms
proof (induction ss arbitrary: a)
  case Nil
  then show ?case by simp
next
  case (Cons x ss)
  let ?n = "length (symbols (os_message x))"
  have x: "piece W a (os_message x)" "symbols (os_message x) \<noteq> []" "a + ?n \<le> b"
    using Cons.prems(1) tiles_le by auto
  have "\<not> sm_fin (os_message x)"
  proof
    assume "sm_fin (os_message x)"
    then have "symbols (os_message x) ! (?n - 1) = FIN" using x(2) by (simp add: symbols_def nth_append)
    moreover have "?n - 1 < ?n" using x(2) by (cases "symbols (os_message x)") auto
    ultimately have "a + (?n - 1) = Suc (length W)"
      using piece_nth [OF x(1)] full_nth_FIN by metis
    then show False using x(3) Cons.prems(2) \<open>?n - 1 < ?n\<close> by simp
  qed
  then show ?case using Cons by auto
qed

lemma sent_ok_outstanding:
  assumes "sent_ok W sn" and "s \<in> set (sn_outstanding sn)"
  shows "speaks_to W (sn_isn sn) (sn_nxt sn) (os_message s)" and "\<not> sn_fin_sent sn \<Longrightarrow> \<not> sm_fin (os_message s)"
proof -
  have tiles: "tiles (sn_isn sn) W (sn_una sn) (sn_outstanding sn) (sn_nxt sn)"
    using assms(1) unfolding sent_ok_def by blast
  show "speaks_to W (sn_isn sn) (sn_nxt sn) (os_message s)" using tiles_speaks [OF tiles assms(2)] .
  show "\<not> sm_fin (os_message s)" if "\<not> sn_fin_sent sn"
    using that tiles_fin [OF tiles _ assms(2)] sent_ok_bounds(5) [OF assms(1)] by simp
qed


abbreviation written :: "'a \<times> bytes \<times> 'b \<Rightarrow> nat" where
  "written t \<equiv> length (fst (snd t))"

lemma pushed_to_speaks:
  assumes "pushed_to W eff sn sn' sent"
  shows "\<forall>m \<in> set sent. speaks_to W (sn_isn sn') (sn_nxt sn') m \<and> (\<not> sn_fin_sent sn' \<longrightarrow> \<not> sm_fin m)"
proof -
  obtain ss where "sn_outstanding sn' = sn_outstanding sn @ ss" "map os_message ss = sent" "sent_ok W sn'"
    using assms by (auto simp: pushed_to_def sn_inv_def)
  then show ?thesis using sent_ok_outstanding [of W sn'] by auto
qed

lemma push_keeps_fin:
  assumes "sn_inv W sn" and "pushed_to W eff sn sn' sent" and "\<not> sn_fin_sent sn'"
  shows "\<not> sn_fin_sent sn"
proof
  assume "sn_fin_sent sn"
  then have "sn_nxt sn = length W + 2"
    using assms(1) by (auto simp: sn_inv_def sent_ok_def)
  moreover have "sent_ok W sn'" and "sn_nxt sn \<le> sn_nxt sn'" using assms(2) by (auto simp: pushed_to_def sn_inv_def)
  ultimately show False using sent_ok_bounds(5) [of W sn'] assms(3) by simp
qed

lemma sender_step_safe:
  assumes "sender_inv t" and "written t + sender_bytes x \<le> U64_MAX - 2"
  shows "\<exists>t'. sender_step t x = Some t' \<and> sender_inv t' \<and>
    written t' \<le> written t + sender_bytes x \<and> sn_isn (fst t') = sn_isn (fst t)"
proof -
  obtain sn W tx where t: "t = (sn, W, tx)" by (cases t)
  have inv: "sn_inv W sn" "\<forall>m \<in> set tx. speaks W (sn_isn sn) m"
    "\<not> sn_fin_sent sn \<longrightarrow> (\<forall>m \<in> set tx. \<not> sm_fin m)"
    using assms(1) t by (auto simp: sender_inv_def)
  have pre: "length W + sender_bytes x + 2 \<le> U64_MAX" using assms(2) t by simp
  show ?thesis
  proof (cases x)
    case (SnWrite d)
    obtain s n where s: "ByteStream_push (sn_outbound sn) d = Some (s, n)"
      "sn_inv (W @ take n d) (sn\<lparr>sn_outbound := s\<rparr>)" "sn_fin_sent sn \<longrightarrow> take n d = []"
      using write_spec [OF inv(1), of d] pre SnWrite by auto
    have "speaks (W @ take n d) (sn_isn sn) m" if "m \<in> set tx" for m
      using that inv(2,3) s(3) speaks_extend by (cases "sn_fin_sent sn") auto
    then show ?thesis using s t SnWrite inv(3) by (simp add: sender_inv_def)
  next
    case SnClose
    then show ?thesis using close_spec [OF inv(1)] inv(2,3) t by (simp add: sender_inv_def)
  next
    case SnPush
    obtain sn' sent where p: "TcpSender_push sn = Some (sn', sent)"
      "pushed_to W (max (sn_advertised_window sn) 1) sn sn' sent"
      using push_spec [OF inv(1)] by blast
    have "sn_inv W sn'" "sn_isn sn' = sn_isn sn" using p(2) by (auto simp: pushed_to_def same_base_def)
    then show ?thesis
      using p(1) pushed_to_speaks [OF p(2)] push_keeps_fin [OF inv(1) p(2)] inv(2,3) t SnPush
      by (auto simp: sender_inv_def intro: speaks_to_speaks)
  next
    case (SnReceive msg)
    obtain sn' where r: "TcpSender_receive sn msg = Some sn'" "sn_inv W sn'" "sn_isn sn' = sn_isn sn"
      "sn_fin_sent sn' = sn_fin_sent sn"
      using receive_spec [OF inv(1), of msg] by blast
    then show ?thesis using inv t SnReceive by (auto simp: sender_inv_def)
  next
    case (SnTick ms)
    obtain sn' sent where "TcpSender_tick sn ms = Some (sn', sent)" "sn_inv W sn'" "sn_isn sn' = sn_isn sn"
      "sn_fin_sent sn' = sn_fin_sent sn" "set sent \<subseteq> os_message ` set (sn_outstanding sn)"
      using tick_spec [OF inv(1), of ms] by blast
    moreover have "speaks W (sn_isn sn) (os_message s) \<and> (sm_fin (os_message s) \<longrightarrow> sn_fin_sent sn)"
      if "s \<in> set (sn_outstanding sn)" for s
    proof -
      have "sent_ok W sn" using inv(1) by (simp add: sn_inv_def)
      note sent_ok_outstanding [OF this that]
      then show ?thesis using speaks_to_speaks by blast
    qed
    ultimately show ?thesis using inv(2,3) t SnTick by (auto simp: sender_inv_def)
  qed
qed

interpretation sender: budget_machine sender_step sender_inv written sender_bytes "\<lambda>_. True" "U64_MAX - 2"
  by unfold_locales (use sender_step_safe in blast)

lemma sn_inv_new:
  assumes "capacity \<le> U64_MAX" and "0 < cf_initial_rto_ms config"
    and "cf_initial_rto_ms config \<le> cf_max_timer_interval_ms config" and "0 < cf_max_payload_size config"
    and "cf_max_timer_interval_ms config \<le> U64_MAX"
  shows "\<exists>sn. TcpSender_new capacity isn config = Some sn \<and> sn_inv [] sn \<and> sn_isn sn = isn \<and>
    sn_config sn = config \<and> \<not> sn_fin_sent sn \<and> \<not> sn_syn_sent sn"
proof -
  have "outbound_ok [] (ByteStream_new capacity)"
    using bs_wf_new [OF assms(1)] by (simp add: outbound_ok_def) (simp add: ByteStream_new_def)
  then show ?thesis using assms(2-5)
    by (simp add: TcpSender_new_def run_simps sn_inv_def sent_ok_def timer_ok_def rto_ok_def Timer_default_def)
      (simp add: ByteStream_new_def)
qed

section \<open>Properties\<close>

text \<open>
  No sequence of calls makes a sender panic: writes, closes, pushes, ticks and any feedback,
  including acknowledgments of data never sent, shrinking windows and resets, in any order. Every
  debug assertion holds, and every message ever transmitted or retransmitted is a non-empty piece of
  the sequence space SYN, the bytes written, FIN, under the sequence number of its first symbol.
\<close>

lemma sender_never_panics:
  assumes "capacity \<le> U64_MAX" and "0 < cf_initial_rto_ms config"
    and "cf_initial_rto_ms config \<le> cf_max_timer_interval_ms config" and "0 < cf_max_payload_size config"
    and "cf_max_timer_interval_ms config \<le> U64_MAX"
    and "sum_list (map sender_bytes ops) + 2 \<le> U64_MAX"
  shows "\<exists>sn W tx. (do { sn \<leftarrow> TcpSender_new capacity isn config; run_all sender_step (sn, [], []) ops })
      = Some (sn, W, tx) \<and> TcpSender_debug_check_invariants sn = Some () \<and>
    (\<forall>m \<in> set tx. speaks W (sn_isn sn) m)"
proof -
  obtain sn0 where new: "TcpSender_new capacity isn config = Some sn0" "sn_inv [] sn0"
    using sn_inv_new [OF assms(1-5)] by blast
  have inv: "sender_inv (sn0, [], [])" using new(2) by (simp add: sender_inv_def)
  obtain t where t: "run_all sender_step (sn0, [], []) ops = Some t" "sender_inv t"
    using sender.run_budget [OF inv, of ops] assms(6) by auto
  obtain sn W tx where "t = (sn, W, tx)" by (cases t)
  then show ?thesis using new(1) t sn_inv_checked by (auto simp: sender_inv_def)
qed

text \<open>
  C12. A push fills the window and no more: it sends the next symbols of the sequence space in order,
  in segments of at most the maximum payload, all of which are now outstanding; the sequence numbers
  in flight do not exceed the effective window (one for a zero window) unless they already did; and
  it stops only when the window is full or the SYN, every byte written and, if the stream is closed,
  the FIN have been sent.
\<close>

theorem push_fills_window:
  assumes "sn_inv W sn"
  shows "\<exists>sn' sent. TcpSender_push sn = Some (sn', sent) \<and>
    concat (map symbols sent) = take (sn_nxt sn' - sn_nxt sn) (drop (sn_nxt sn) (full W)) \<and>
    map os_message (sn_outstanding sn') = map os_message (sn_outstanding sn) @ sent \<and>
    (\<forall>m \<in> set sent. length (sm_payload m) \<le> cf_max_payload_size (sn_config sn)) \<and>
    sn_nxt sn' - sn_una sn' \<le> max (max (sn_advertised_window sn) 1) (sn_nxt sn - sn_una sn) \<and>
    (max (sn_advertised_window sn) 1 \<le> sn_nxt sn' - sn_una sn' \<or> drained sn')"
proof -
  obtain sn' sent where p: "TcpSender_push sn = Some (sn', sent)"
    "pushed_to W (max (sn_advertised_window sn) 1) sn sn' sent"
    using push_spec [OF assms] by blast
  obtain ss where ss: "sn_outstanding sn' = sn_outstanding sn @ ss" "map os_message ss = sent"
    using p(2) by (auto simp: pushed_to_def)
  have base: "sn_isn sn' = sn_isn sn" "sn_una sn' = sn_una sn" "sent_ok W sn'" "sent_ok W sn"
    using p(2) assms by (auto simp: pushed_to_def same_base_def sn_inv_def)
  have "tiles (sn_isn sn) W (sn_una sn) (sn_outstanding sn @ ss) (sn_nxt sn')"
    and "tiles (sn_isn sn) W (sn_una sn) (sn_outstanding sn) (sn_nxt sn)"
    using base ss(1) unfolding sent_ok_def by metis+
  then have "tiles (sn_isn sn) W (sn_nxt sn) ss (sn_nxt sn')"
    unfolding tiles_append using tiles_unique by blast
  from tiles_flight [OF this] have "concat (map symbols sent) = take (sn_nxt sn' - sn_nxt sn) (drop (sn_nxt sn) (full W))"
    using ss(2) by (metis map_map)
  moreover have "length (sm_payload m) \<le> cf_max_payload_size (sn_config sn)" if "m \<in> set sent" for m
    using that p(2) unfolding pushed_to_def sends_def by blast
  ultimately show ?thesis using p base ss by (auto simp: pushed_to_def)
qed

lemma drained_iff:
  assumes "sent_ok W sn"
  shows "drained sn \<longleftrightarrow> sn_nxt sn = 1 + length W + of_bool (bs_closed (sn_outbound sn))"
proof -
  have out: "bs_buffered (sn_outbound sn) = length W - bs_popped (sn_outbound sn)"
    "bs_popped (sn_outbound sn) \<le> length W"
    using assms by (auto simp: sent_ok_def outbound_ok_def bs_wf_def)
  show ?thesis using assms out unfolding drained_def sent_ok_def
    by (cases "sn_syn_sent sn"; cases "sn_fin_sent sn"; cases "bs_closed (sn_outbound sn)") auto
qed

definition example_sender :: TcpSender where
  "example_sender = the (TcpSender_new 8 (Wrap32 4294967294) TcpSenderConfig_default)"

lemma example_sender_inv: "sn_inv [] example_sender" "TcpSender_new 8 (Wrap32 4294967294) TcpSenderConfig_default = Some example_sender"
  using sn_inv_new [of 8 TcpSenderConfig_default "Wrap32 4294967294"]
  by (auto simp: example_sender_def TcpSenderConfig_default_def)

theorem push_fills_window_witness:
  "\<exists>sn' sent. TcpSender_push example_sender = Some (sn', sent) \<and>
    concat (map symbols sent) = take (sn_nxt sn' - sn_nxt example_sender) (drop (sn_nxt example_sender) (full []))"
  using push_fills_window [OF example_sender_inv(1)] by blast

text \<open>
  C13. The outstanding segments are always exactly the unacknowledged part of what was sent, and an
  acknowledgment of number \<open>a\<close>, given as a wrapped number within \<open>2 ^ 31\<close> of the next one, is processed
  as it should: one beyond what was sent changes nothing at all; any other sets the window, and drops
  or trims the segments so that what remains is the sequence space from the larger of \<open>a\<close> and the
  oldest unacknowledged number on; the timer runs exactly while something is outstanding.
\<close>

theorem acknowledgment_trims_flight:
  assumes "sn_inv W sn" and "abs_diff a (sn_nxt sn) < 2147483648" and "a \<le> U64_MAX"
    and "\<not> rm_rst msg" and "rm_ackno msg = Some (Wrap32_wrap a (sn_isn sn))"
  shows "\<exists>sn'. TcpSender_receive sn msg = Some sn' \<and>
    (if a > sn_nxt sn then sn' = sn
     else sn_una sn' = max (sn_una sn) a \<and> sn_nxt sn' = sn_nxt sn \<and>
       sn_advertised_window sn' = unat (rm_window_size msg) \<and>
       (a > sn_una sn \<longrightarrow> sn_current_rto_ms sn' = cf_initial_rto_ms (sn_config sn) \<and>
          sn_consecutive_retransmissions sn' = 0)) \<and>
    concat (map (symbols \<circ> os_message) (sn_outstanding sn')) =
      take (sn_nxt sn' - sn_una sn') (drop (sn_una sn') (full W)) \<and>
    (TcpSender_timer_timeout_ms sn' \<noteq> None \<longleftrightarrow> sn_outstanding sn' \<noteq> [])"
proof -
  have "sn_nxt sn \<le> U64_MAX" using assms(1) sent_ok_bounds by (auto simp: sn_inv_def)
  then have "Wrap32_unwrap (Wrap32_wrap a (sn_isn sn)) (sn_isn sn) (sn_nxt sn) = Some a"
    using unwrap_wrap assms(2,3) by blast
  then obtain sn' where r: "TcpSender_receive sn msg = Some sn'" "sn_inv W sn'"
    "if a > sn_nxt sn then sn' = sn else acked sn (unat (rm_window_size msg)) a sn'"
    using receive_ack [OF assms(1,4,5)] by blast
  have "tiles (sn_isn sn') W (sn_una sn') (sn_outstanding sn') (sn_nxt sn')" and tm: "timer_ok sn'"
    using r(2) unfolding sn_inv_def sent_ok_def by blast+
  from tiles_flight [OF this(1)] tm r(1,3) show ?thesis
    by (auto simp: acked_def TcpSender_timer_timeout_ms_def Timer_timeout_ms_def timer_ok_def split: if_splits)
qed

theorem acknowledgment_trims_flight_witness:
  "\<exists>sn'. TcpSender_receive example_sender \<lparr> rm_ackno = Some (Wrap32 4294967295), rm_window_size = 3, rm_rst = False \<rparr>
    = Some sn' \<and> sn' = example_sender"
proof -
  have s: "sn_nxt example_sender = 0" "sn_isn example_sender = Wrap32 4294967294"
    by (simp_all add: example_sender_def TcpSender_new_def TcpSenderConfig_default_def)
  then show ?thesis
    using acknowledgment_trims_flight [OF example_sender_inv(1), of 1
        "\<lparr> rm_ackno = Some (Wrap32 4294967295), rm_window_size = 3, rm_rst = False \<rparr>"]
    by (simp add: abs_diff_def Wrap32_wrap_def)
qed



text \<open>
  C38. A reset does not silence the sender: after \<open>abort\<close> the SYN and the data not yet sent are still
  transmitted by the next push, each with the RST flag, and are tracked as outstanding again.
\<close>

theorem push_after_reset:
  assumes "sn_inv W sn" and "rm_rst msg" and "\<not> drained sn"
  shows "\<exists>sn1 sn2 sent. TcpSender_receive sn msg = Some sn1 \<and> sn_outstanding sn1 = [] \<and>
    TcpSender_push sn1 = Some (sn2, sent) \<and> sent \<noteq> [] \<and> (\<forall>m \<in> set sent. sm_rst m) \<and>
    map os_message (sn_outstanding sn2) = sent"
proof -
  let ?sn = "TcpSender_abort sn"
  have inv: "sn_inv W ?sn" and rcv: "TcpSender_receive sn msg = Some ?sn"
    using abort_spec [OF assms(1)] assms(2) by (simp_all add: TcpSender_receive_def)
  have ab: "sn_outstanding ?sn = []" "sn_una ?sn = sn_nxt ?sn" "bs_error (sn_outbound ?sn)" "\<not> drained ?sn"
    using assms(3) by (auto simp: TcpSender_abort_def ByteStream_set_error_def drained_def)
  obtain sn2 sent where p: "TcpSender_push ?sn = Some (sn2, sent)"
    "pushed_to W (max (sn_advertised_window ?sn) 1) ?sn sn2 sent"
    using push_spec [OF inv] by blast
  have out: "map os_message (sn_outstanding sn2) = sent"
    and rst: "\<forall>m \<in> set sent. sm_rst m"
    using p(2) ab(1,3) by (auto simp: pushed_to_def sends_def)
  have "sent \<noteq> []"
  proof
    assume "sent = []"
    then have "sn_outstanding sn2 = []" using out by simp
    moreover have sn2: "sent_ok W sn2" "sent_ok W ?sn" "sn_una sn2 = sn_nxt ?sn"
      "bs_closed (sn_outbound sn2) = bs_closed (sn_outbound ?sn)"
      using p(2) inv ab(2) by (auto simp: pushed_to_def sn_inv_def same_base_def)
    ultimately have "sn_nxt sn2 = sn_nxt ?sn" by (auto simp: sent_ok_def)
    moreover from this have "drained sn2" using p(2) sn2(3) by (auto simp: pushed_to_def)
    ultimately show False
      using ab(4) drained_iff [OF sn2(1)] drained_iff [OF sn2(2)] sn2(4) by simp
  qed
  then show ?thesis using rcv ab(1) p(1) out rst by auto
qed

theorem push_after_reset_witness:
  "\<exists>sn1 sn2 sent. TcpSender_receive example_sender \<lparr> rm_ackno = None, rm_window_size = 0, rm_rst = True \<rparr> = Some sn1 \<and>
    sn_outstanding sn1 = [] \<and> TcpSender_push sn1 = Some (sn2, sent) \<and> sent \<noteq> [] \<and> (\<forall>m \<in> set sent. sm_rst m) \<and>
    map os_message (sn_outstanding sn2) = sent"
  by (rule push_after_reset [OF example_sender_inv(1)])
    (simp_all add: drained_def example_sender_def TcpSender_new_def TcpSenderConfig_default_def)

end
