(* ===== verification/Checksum.thy ===== *)
theory Checksum
  imports Prelude
begin

text \<open>
  \<open>src/checksum.rs\<close>: the Internet checksum, incremental and one-shot, and the TCP checksum over the
  IPv4 pseudo-header. The accumulator is a \<open>u32\<close> whose additions are checked.
\<close>

unbundle bit_operations_syntax

section \<open>Model\<close>

record InternetChecksum =
  ic_sum :: nat
  ic_odd_byte :: "byte option"

definition InternetChecksum_new :: InternetChecksum where
  "InternetChecksum_new = \<lparr> ic_sum = 0, ic_odd_byte = None \<rparr>"

text \<open>The \<open>while\<close> loop of \<open>add_bytes\<close> from the current index on, and the byte that may be left.\<close>

fun add_words :: "nat \<Rightarrow> bytes \<Rightarrow> InternetChecksum run" where
  "add_words sum32 (high # low # data) = do {
     sum32 \<leftarrow> add32 sum32 (unat (from_be16 high low));
     add_words sum32 data
   }"
| "add_words sum32 [high] = Some \<lparr> ic_sum = sum32, ic_odd_byte = Some high \<rparr>"
| "add_words sum32 [] = Some \<lparr> ic_sum = sum32, ic_odd_byte = None \<rparr>"

definition InternetChecksum_add_bytes :: "InternetChecksum \<Rightarrow> bytes \<Rightarrow> InternetChecksum run" where
  "InternetChecksum_add_bytes self data =
     (case ic_odd_byte self of
        Some high \<Rightarrow>
          (case data of
             low # rest \<Rightarrow> do {
               sum32 \<leftarrow> add32 (ic_sum self) (unat (from_be16 high low));
               add_words sum32 rest
             }
           | [] \<Rightarrow> Some self)
      | None \<Rightarrow> add_words (ic_sum self) data)"

text \<open>The \<open>while\<close> loop of \<open>checksum\<close>: the two halves of the sum are added until the carry is zero.\<close>

function fold_carries :: "nat \<Rightarrow> nat" where
  "fold_carries sum32 =
     (if sum32 div 65536 \<noteq> 0 then fold_carries (sum32 mod 65536 + sum32 div 65536) else sum32)"
  by auto

termination fold_carries
proof (relation "measure id")
  fix sum32 :: nat
  assume "sum32 div 65536 \<noteq> 0"
  then have "sum32 div 65536 < sum32 div 65536 * 65536" by simp
  then have "sum32 mod 65536 + sum32 div 65536 < sum32" using div_mult_mod_eq [of sum32 65536] by linarith
  then show "(sum32 mod 65536 + sum32 div 65536, sum32) \<in> measure id" by simp
qed simp

declare fold_carries.simps [simp del]

definition InternetChecksum_checksum :: "InternetChecksum \<Rightarrow> u16 run" where
  "InternetChecksum_checksum self = do {
     sum32 \<leftarrow> (case ic_odd_byte self of
        Some high \<Rightarrow> add32 (ic_sum self) (unat (from_be16 high 0))
      | None \<Rightarrow> Some (ic_sum self));
     Some (NOT (of_nat (fold_carries sum32)))
   }"

definition internet_checksum :: "bytes \<Rightarrow> u16 run" where
  "internet_checksum data = do {
     checksum \<leftarrow> InternetChecksum_add_bytes InternetChecksum_new data;
     InternetChecksum_checksum checksum
   }"

definition verify_internet_checksum :: "bytes \<Rightarrow> bool run" where
  "verify_internet_checksum data = do { c \<leftarrow> internet_checksum data; Some (c = 0) }"

definition tcp_checksum_ipv4 :: "octets4 \<Rightarrow> octets4 \<Rightarrow> bytes \<Rightarrow> u16 run" where
  "tcp_checksum_ipv4 src_ip dst_ip tcp_segment = do {
     _ \<leftarrow> ensure (length tcp_segment \<le> U16_MAX);
     let tcp_len = (of_nat (length tcp_segment) :: u16);
     let checksum = InternetChecksum_new;
     checksum \<leftarrow> InternetChecksum_add_bytes checksum (octets4_bytes src_ip);
     checksum \<leftarrow> InternetChecksum_add_bytes checksum (octets4_bytes dst_ip);
     checksum \<leftarrow> InternetChecksum_add_bytes checksum [0];
     checksum \<leftarrow> InternetChecksum_add_bytes checksum [6];
     checksum \<leftarrow> InternetChecksum_add_bytes checksum (be16 tcp_len);
     checksum \<leftarrow> InternetChecksum_add_bytes checksum tcp_segment;
     InternetChecksum_checksum checksum
   }"

section \<open>The sum of a byte sequence\<close>

text \<open>
  The reference: the sum of the big-endian 16-bit words, the last byte padded with zero; and the
  accumulator after a sequence of bytes.
\<close>

fun word_sum :: "bytes \<Rightarrow> nat" where
  "word_sum (a # b # xs) = 256 * unat a + unat b + word_sum xs"
| "word_sum [a] = 256 * unat a"
| "word_sum [] = 0"

fun acc_of :: "bytes \<Rightarrow> InternetChecksum" where
  "acc_of (a # b # xs) = (acc_of xs)\<lparr> ic_sum := 256 * unat a + unat b + ic_sum (acc_of xs) \<rparr>"
| "acc_of [a] = \<lparr> ic_sum = 0, ic_odd_byte = Some a \<rparr>"
| "acc_of [] = \<lparr> ic_sum = 0, ic_odd_byte = None \<rparr>"

definition acc_total :: "InternetChecksum \<Rightarrow> nat" where
  "acc_total c = ic_sum c + (case ic_odd_byte c of None \<Rightarrow> 0 | Some h \<Rightarrow> 256 * unat h)"

lemma acc_total_of: "acc_total (acc_of xs) = word_sum xs"
  by (induction xs rule: word_sum.induct) (auto simp: acc_total_def)

lemma word_sum_bound: "2 * word_sum xs \<le> 65535 * (length xs + 1)"
proof (induction xs rule: word_sum.induct)
  case (1 a b xs)
  then show ?case using unat_byte_less [of a] unat_byte_less [of b] by simp
next
  case (2 a)
  then show ?case using unat_byte_less [of a] by simp
qed simp

lemma word_sum_append:
  "even (length xs) \<Longrightarrow> word_sum (xs @ ys) = word_sum xs + word_sum ys"
  by (induction xs rule: word_sum.induct) auto

definition shift :: "nat \<Rightarrow> InternetChecksum \<Rightarrow> InternetChecksum" where
  "shift s c = c\<lparr> ic_sum := s + ic_sum c \<rparr>"

lemma shift_0 [simp]: "shift 0 c = c"
  by (simp add: shift_def)

lemma shift_acc_of: "shift s (acc_of (a # b # xs)) = shift (s + (256 * unat a + unat b)) (acc_of xs)"
  by (simp add: shift_def)

lemma add_words_acc: "s + word_sum xs \<le> U32_MAX \<Longrightarrow> add_words s xs = Some (shift s (acc_of xs))"
  by (induction s xs rule: add_words.induct) (auto simp: add32_def unat_from_be16 add.assoc shift_def)

lemma add_bytes_shift:
  "s + word_sum (xs @ ys) \<le> U32_MAX \<Longrightarrow>
     InternetChecksum_add_bytes (shift s (acc_of xs)) ys = Some (shift s (acc_of (xs @ ys)))"
proof (induction xs arbitrary: s rule: acc_of.induct)
  case (1 a b xs)
  then show ?case unfolding append_Cons shift_acc_of by (intro 1) simp
next
  case (2 a)
  then show ?case
    by (cases ys) (auto simp: InternetChecksum_add_bytes_def add32_def unat_from_be16 add_words_acc
        shift_def add.assoc)
next
  case 3
  then show ?case using add_words_acc [of s ys] by (simp add: InternetChecksum_add_bytes_def shift_def)
qed

lemma add_bytes_append:
  "word_sum (xs @ ys) \<le> U32_MAX \<Longrightarrow> InternetChecksum_add_bytes (acc_of xs) ys = Some (acc_of (xs @ ys))"
  using add_bytes_shift [of 0 xs ys] by simp

lemma acc_of_new: "InternetChecksum_new = acc_of []"
  by (simp add: InternetChecksum_new_def)

lemma short_sum:
  assumes "length xs \<le> 131072"
  shows "word_sum xs \<le> U32_MAX"
proof -
  have "65535 * (length xs + 1) \<le> 65535 * 131073" using assms by (intro mult_le_mono2) simp
  then show ?thesis using word_sum_bound [of xs] by simp
qed

section \<open>Folding\<close>

lemma fold_carries_spec:
  "fold_carries n \<le> 65535" "fold_carries n mod 65535 = n mod 65535" "fold_carries n = 0 \<longleftrightarrow> n = 0"
proof (induction n rule: fold_carries.induct)
  case (1 n)
  have "n = n mod 65536 + n div 65536 + n div 65536 * 65535"
    using div_mult_mod_eq [of n 65536] by linarith
  then have cong: "(n mod 65536 + n div 65536) mod 65535 = n mod 65535" by (metis mod_mult_self1)
  {
    case 1
    then show ?case using "1.IH"(1) by (subst fold_carries.simps) (auto simp: div_eq_0_iff)
  next
    case 2
    then show ?case using "1.IH"(2) cong by (subst fold_carries.simps) auto
  next
    case 3
    then show ?case using "1.IH"(3) by (subst fold_carries.simps) auto
  }
qed

text \<open>The value of a checksum: the complement of the folded sum.\<close>

definition checksum_of :: "bytes \<Rightarrow> u16" where
  "checksum_of xs = NOT (of_nat (fold_carries (word_sum xs)))"

lemma unat_checksum_of: "unat (checksum_of xs) = 65535 - fold_carries (word_sum xs)"
proof -
  have "unat (of_nat (fold_carries (word_sum xs)) :: u16) = fold_carries (word_sum xs)"
    using fold_carries_spec(1) [of "word_sum xs"] unfolding unat_of_nat16 by simp
  moreover have "unat (NOT w) = 65535 - unat w" for w :: u16
  proof -
    have "take_bit 16 (uint w) = uint w"
      using unsigned_less [of w, where ?'a = int] by (simp add: take_bit_int_eq_self_iff)
    moreover have "uint (NOT w) = take_bit 16 (NOT (uint w))" unfolding unsigned_not_eq by simp
    ultimately have "uint (NOT w) = 65535 - uint w"
      unfolding take_bit_not_eq_mask_diff by (simp add: mask_eq_exp_minus_1)
    moreover have "uint w \<le> 65535" using unsigned_less [of w, where ?'a = int] by simp
    ultimately show ?thesis unfolding unat_eq_nat_uint by (simp add: nat_diff_distrib)
  qed
  ultimately show ?thesis by (simp add: checksum_of_def)
qed

lemma checksum_acc:
  assumes "word_sum xs \<le> U32_MAX"
  shows "InternetChecksum_checksum (acc_of xs) = Some (checksum_of xs)"
proof -
  have "ic_sum (acc_of xs) + (case ic_odd_byte (acc_of xs) of None \<Rightarrow> 0 | Some h \<Rightarrow> 256 * unat h) = word_sum xs"
    using acc_total_of [of xs] by (simp add: acc_total_def)
  then show ?thesis using assms
    by (auto simp: InternetChecksum_checksum_def checksum_of_def add32_def unat_from_be16 split: option.splits)
qed

lemma internet_checksum_eq: "word_sum xs \<le> U32_MAX \<Longrightarrow> internet_checksum xs = Some (checksum_of xs)"
  using add_bytes_append [of "[]" xs] by (simp add: internet_checksum_def acc_of_new checksum_acc del: acc_of.simps)

lemma checksum_of_zero_iff: "checksum_of xs = 0 \<longleftrightarrow> 0 < word_sum xs \<and> word_sum xs mod 65535 = 0"
proof -
  have "checksum_of xs = 0 \<longleftrightarrow> fold_carries (word_sum xs) = 65535"
    using unat_checksum_of [of xs] fold_carries_spec(1) [of "word_sum xs"]
    by (metis diff_is_0_eq diff_self_eq_0 le_antisym unat_eq_zero)
  also have "\<dots> \<longleftrightarrow> 0 < word_sum xs \<and> word_sum xs mod 65535 = 0"
    using fold_carries_spec [of "word_sum xs"]
    by (cases "fold_carries (word_sum xs) = 65535") auto
  finally show ?thesis .
qed


section \<open>Writing and verifying a checksum\<close>

lemma word_sum_be16: "word_sum (be16 w @ xs) = unat w + word_sum xs"
proof -
  have "256 * (unat w div 256 mod 256) + unat w mod 256 = unat w"
    using unat_u16_less [of w] div_mult_mod_eq [of "unat w" 256] by simp
  then show ?thesis unfolding be16_def by (simp add: unat_of_nat8 del: unat_of_nat of_nat_unat)
qed

lemma word_sum_splice:
  assumes "even (length p)"
  shows "word_sum (p @ be16 w @ s) = word_sum (p @ be16 0 @ s) + unat w"
  unfolding word_sum_append [OF assms] word_sum_be16 by simp

lemma checksum_completes: "(word_sum xs + unat (checksum_of xs)) mod 65535 = 0"
  and checksum_positive: "0 < word_sum xs + unat (checksum_of xs)"
proof -
  let ?n = "word_sum xs" and ?f = "fold_carries (word_sum xs)"
  have "?f \<le> 65535" and cong: "?f mod 65535 = ?n mod 65535" using fold_carries_spec by blast+
  then have "(?f + (65535 - ?f)) mod 65535 = 0" by simp
  then show "(?n + unat (checksum_of xs)) mod 65535 = 0"
    using cong unfolding unat_checksum_of by (metis mod_add_left_eq)
  show "0 < ?n + unat (checksum_of xs)"
    using fold_carries_spec(3) [of ?n] unfolding unat_checksum_of by (cases "?n = 0") auto
qed

lemma checksum_of_written:
  assumes "even (length p)"
  shows "checksum_of (p @ be16 (checksum_of (p @ be16 0 @ s)) @ s) = 0"
  unfolding checksum_of_zero_iff word_sum_splice [OF assms, of "checksum_of (p @ be16 0 @ s)"]
  by (intro conjI checksum_positive checksum_completes)

text \<open>The pseudo-header of a TCP segment.\<close>

definition pseudo_header :: "octets4 \<Rightarrow> octets4 \<Rightarrow> nat \<Rightarrow> bytes" where
  "pseudo_header src dst n = octets4_bytes src @ octets4_bytes dst @ [0, 6] @ be16 (of_nat n)"

lemma length_pseudo_header [simp]: "length (pseudo_header src dst n) = 12"
  by (simp add: pseudo_header_def)

lemma tcp_checksum_eq:
  assumes "length seg \<le> U16_MAX"
  shows "tcp_checksum_ipv4 src dst seg = Some (checksum_of (pseudo_header src dst (length seg) @ seg))"
proof -
  let ?n = "be16 (of_nat (length seg) :: u16)"
  have bound: "word_sum xs \<le> U32_MAX" if "length xs \<le> 65547" for xs
    using that by (intro short_sum) simp
  have step: "InternetChecksum_add_bytes (acc_of xs) ys = Some (acc_of (xs @ ys))" if "length (xs @ ys) \<le> 65547" for xs ys
    using that by (intro add_bytes_append bound)
  have "tcp_checksum_ipv4 src dst seg =
      InternetChecksum_checksum (acc_of ((((((([] @ octets4_bytes src) @ octets4_bytes dst) @ [0]) @ [6]) @ ?n) @ seg)))"
    using assms by (simp only: tcp_checksum_ipv4_def ensure_Some Let_def Option.bind.simps acc_of_new step
        length_append list.size length_be16 length_octets4_bytes)
  also have "\<dots> = Some (checksum_of (pseudo_header src dst (length seg) @ seg))"
    using checksum_acc [OF bound, of "pseudo_header src dst (length seg) @ seg"] assms
    by (simp add: pseudo_header_def)
  finally show ?thesis .
qed

lemma shifted_residue:
  fixes n a b m :: nat
  assumes "(n + a) mod m = 0" and "a \<noteq> b" and "a \<le> m" and "b \<le> m" and "{a, b} \<noteq> {0, m}"
  shows "(n + b) mod m \<noteq> 0"
proof
  assume "(n + b) mod m = 0"
  then have "m dvd n + max a b" and "m dvd n + min a b"
    using assms(1) by (simp_all add: mod_eq_0_iff_dvd max_def min_def)
  then have "m dvd (n + max a b) - (n + min a b)" by (rule dvd_diff_nat)
  moreover have "0 < max a b - min a b" using assms(2) by (simp add: max_def min_def)
  ultimately have "m \<le> max a b - min a b" by (intro dvd_imp_le) simp_all
  then show False using assms(2-5) by (auto simp: max_def min_def split: if_splits)
qed

section \<open>Properties\<close>

text \<open>
  C30. The accumulator is incremental: adding a packet of up to 128 KiB in any pieces, odd ones and
  empty ones included, gives the checksum of the whole packet without an overflow, and the checksum
  completes the one's complement sum of the packet's big-endian words to a multiple of 65535.
\<close>

theorem checksum_incremental:
  assumes "length (concat chunks) \<le> 131072"
  shows "\<exists>c. (do { acc \<leftarrow> run_all InternetChecksum_add_bytes InternetChecksum_new chunks;
        InternetChecksum_checksum acc }) = Some c \<and>
    internet_checksum (concat chunks) = Some c \<and>
    (word_sum (concat chunks) + unat c) mod 65535 = 0"
proof -
  have "run_all InternetChecksum_add_bytes (acc_of xs) chunks = Some (acc_of (xs @ concat chunks))"
    if "length (xs @ concat chunks) \<le> 131072" for xs
    using that
  proof (induction chunks arbitrary: xs)
    case Nil
    then show ?case by simp
  next
    case (Cons d chunks)
    then have "word_sum (xs @ d) \<le> U32_MAX" by (intro short_sum) simp
    then show ?case using Cons.IH [of "xs @ d"] Cons.prems add_bytes_append [of xs d] by simp
  qed
  from this [of "[]"] have "run_all InternetChecksum_add_bytes InternetChecksum_new chunks = Some (acc_of (concat chunks))"
    using assms unfolding acc_of_new by simp
  moreover have "word_sum (concat chunks) \<le> U32_MAX" using assms by (rule short_sum)
  ultimately show ?thesis
    using checksum_acc internet_checksum_eq checksum_completes by auto
qed

theorem checksum_incremental_witness:
  "\<exists>c. (do { acc \<leftarrow> run_all InternetChecksum_add_bytes InternetChecksum_new [[1], [], [2, 3], [4, 5]];
        InternetChecksum_checksum acc }) = Some c \<and>
    internet_checksum [1, 2, 3, 4, 5] = Some c \<and> (word_sum [1, 2, 3, 4, 5] + unat c) mod 65535 = 0"
  using checksum_incremental [of "[[1], [], [2, 3], [4, 5]]"] by simp

text \<open>
  Writing the checksum of a packet into its zeroed checksum field, at any even offset, makes the
  packet verify.
\<close>

lemma written_checksum_verifies:
  assumes "even (length p)" and "length p + 2 + length s \<le> 131072"
    and "internet_checksum (p @ be16 0 @ s) = Some c"
  shows "verify_internet_checksum (p @ be16 c @ s) = Some True"
proof -
  have "c = checksum_of (p @ be16 0 @ s)"
    using assms(2,3) internet_checksum_eq [OF short_sum, of "p @ be16 0 @ s"] by simp
  then show ?thesis
    using internet_checksum_eq [OF short_sum, of "p @ be16 c @ s"] assms(1,2)
    by (simp add: verify_internet_checksum_def checksum_of_written)
qed

text \<open>
  Corruption of one 16-bit word of a packet that verifies is detected, whatever the two values
  are, unless they are the two representations 0 and 0xffff of zero in one's complement.
\<close>

lemma corrupted_word_detected:
  assumes "even (length p)" and "length p + 2 + length s \<le> 131072" and "v \<noteq> w"
    and "{unat v, unat w} \<noteq> {0, 65535}"
    and "verify_internet_checksum (p @ be16 v @ s) = Some True"
  shows "verify_internet_checksum (p @ be16 w @ s) = Some False"
proof -
  have ver: "verify_internet_checksum (p @ be16 x @ s) = Some (checksum_of (p @ be16 x @ s) = 0)" for x
    using internet_checksum_eq [OF short_sum, of "p @ be16 x @ s"] assms(2)
    by (simp add: verify_internet_checksum_def)
  let ?n = "word_sum (p @ be16 0 @ s)"
  have "(?n + unat v) mod 65535 = 0"
    using assms(5) unfolding ver checksum_of_zero_iff word_sum_splice [OF assms(1), of v] by simp
  moreover have "unat v \<noteq> unat w" using assms(3) by (simp add: word_unat_eq_iff)
  moreover have "unat v \<le> 65535" "unat w \<le> 65535" using unat_u16_less [of v] unat_u16_less [of w] by simp_all
  ultimately have "(?n + unat w) mod 65535 \<noteq> 0" using assms(4) by (intro shifted_residue) auto
  then show ?thesis unfolding ver checksum_of_zero_iff word_sum_splice [OF assms(1), of w] by simp
qed

end
