(* ===== verification/Wire_Format.thy ===== *)
theory Wire_Format
  imports Prelude
begin

text \<open>
  The interface of the packet formats: a serializer that may panic on a value the format cannot
  express, and a parser that returns an error or a value. The law is the round trip; the locale
  derives that serialization is injective and that what it writes is accepted.
\<close>

locale wire_format =
  fixes encode :: "'a \<Rightarrow> bytes run"
    and decode :: "bytes \<Rightarrow> ('e + 'a) run"
    and fits_format :: "'a \<Rightarrow> bool"
  assumes encodes: "fits_format x \<Longrightarrow> \<exists>bs. encode x = Some bs"
    and decodes: "fits_format x \<Longrightarrow> encode x = Some bs \<Longrightarrow> decode bs = Some (Inr x)"
begin

lemma roundtrip: "fits_format x \<Longrightarrow> \<exists>bs. encode x = Some bs \<and> decode bs = Some (Inr x)"
  using encodes decodes by blast

lemma encode_inject: "fits_format x \<Longrightarrow> fits_format y \<Longrightarrow> encode x = encode y \<Longrightarrow> x = y"
  using encodes [of x] decodes [of x] decodes [of y] by auto

lemma decode_not_error: "fits_format x \<Longrightarrow> encode x = Some bs \<Longrightarrow> decode bs \<noteq> Some (Inl e)"
  using decodes by auto

end

text \<open>Overwriting two bytes behind a prefix of known length.\<close>

lemma splice2_append:
  "length p = i \<Longrightarrow> length ys = length zs \<Longrightarrow> splice2 i ys (p @ zs @ s) = p @ ys @ s"
  by (simp add: splice2_def)

end
