(* ===== verification/Tcp_Segment.thy ===== *)
theory Tcp_Segment
  imports Checksum Tcp_Message Wire_Format
begin

text \<open>
  \<open>src/tcp_segment.rs\<close>: the TCP header and segment, their construction from the two messages of an
  endpoint, and the wire format over IPv4. The parser indexes the segment only after it has checked
  that 20 bytes are there.
\<close>

unbundle bit_operations_syntax

section \<open>Model\<close>

abbreviation TCP_HEADER_MIN_LEN :: nat where "TCP_HEADER_MIN_LEN \<equiv> 20"

definition TCP_FLAG_FIN :: u16 where "TCP_FLAG_FIN = 0x001"
definition TCP_FLAG_SYN :: u16 where "TCP_FLAG_SYN = 0x002"
definition TCP_FLAG_RST :: u16 where "TCP_FLAG_RST = 0x004"
definition TCP_FLAG_ACK :: u16 where "TCP_FLAG_ACK = 0x010"

record TcpHeader =
  th_src_port :: u16
  th_dst_port :: u16
  th_seqno :: Wrap32
  th_ackno :: "Wrap32 option"
  th_window_size :: u16
  th_syn :: bool
  th_fin :: bool
  th_rst :: bool

definition TcpHeader_flags :: "TcpHeader \<Rightarrow> u16" where
  "TcpHeader_flags self =
     (let flags = 0;
          flags = (if th_fin self then flags OR TCP_FLAG_FIN else flags);
          flags = (if th_syn self then flags OR TCP_FLAG_SYN else flags);
          flags = (if th_rst self then flags OR TCP_FLAG_RST else flags);
          flags = (if th_ackno self \<noteq> None then flags OR TCP_FLAG_ACK else flags)
      in flags)"

record TcpSegment =
  ts_header :: TcpHeader
  ts_payload :: bytes

datatype TcpParseError = SegmentTooShort | InvalidDataOffset | InvalidChecksum

definition TcpSegment_from_messages ::
  "u16 \<Rightarrow> u16 \<Rightarrow> TcpSenderMessage \<Rightarrow> TcpReceiverMessage option \<Rightarrow> TcpSegment" where
  "TcpSegment_from_messages src_port dst_port sender receiver =
     (let ackno = (case receiver of None \<Rightarrow> None | Some message \<Rightarrow> rm_ackno message);
          window_size = (case receiver of None \<Rightarrow> 0 | Some message \<Rightarrow> rm_window_size message);
          rst = (sm_rst sender \<or> (case receiver of None \<Rightarrow> False | Some message \<Rightarrow> rm_rst message))
      in \<lparr> ts_header = \<lparr> th_src_port = src_port, th_dst_port = dst_port, th_seqno = sm_seqno sender,
              th_ackno = ackno, th_window_size = window_size, th_syn = sm_syn sender,
              th_fin = sm_fin sender, th_rst = rst \<rparr>,
           ts_payload = sm_payload sender \<rparr>)"

definition TcpSegment_to_sender_message :: "TcpSegment \<Rightarrow> TcpSenderMessage" where
  "TcpSegment_to_sender_message self =
     \<lparr> sm_seqno = th_seqno (ts_header self), sm_syn = th_syn (ts_header self),
       sm_payload = ts_payload self, sm_fin = th_fin (ts_header self), sm_rst = th_rst (ts_header self) \<rparr>"

definition TcpSegment_to_receiver_message :: "TcpSegment \<Rightarrow> TcpReceiverMessage" where
  "TcpSegment_to_receiver_message self =
     \<lparr> rm_ackno = th_ackno (ts_header self), rm_window_size = th_window_size (ts_header self),
       rm_rst = th_rst (ts_header self) \<rparr>"

definition TcpSegment_serialize_ipv4 :: "TcpSegment \<Rightarrow> octets4 \<Rightarrow> octets4 \<Rightarrow> bytes run" where
  "TcpSegment_serialize_ipv4 self src_ip dst_ip = do {
     tcp_len \<leftarrow> add64 TCP_HEADER_MIN_LEN (length (ts_payload self));
     _ \<leftarrow> ensure (tcp_len \<le> U16_MAX);
     let h = ts_header self;
     let data_offset = (5 :: u16);
     let offset_and_flags = push_bit 12 data_offset OR (TcpHeader_flags h AND 0x01ff);
     let buf = be16 (th_src_port h) @ be16 (th_dst_port h) @ be32 (raw_value (th_seqno h)) @
           be32 (case th_ackno h of None \<Rightarrow> 0 | Some a \<Rightarrow> raw_value a) @
           be16 offset_and_flags @ be16 (th_window_size h) @ be16 0 @ be16 0;
     _ \<leftarrow> ensure (length buf = TCP_HEADER_MIN_LEN);
     let buf = buf @ ts_payload self;
     checksum \<leftarrow> tcp_checksum_ipv4 src_ip dst_ip buf;
     Some (splice2 16 (be16 checksum) buf)
   }"

definition TcpSegment_parse_ipv4_bytes ::
  "octets4 \<Rightarrow> octets4 \<Rightarrow> bytes \<Rightarrow> (TcpParseError + TcpSegment) run" where
  "TcpSegment_parse_ipv4_bytes src_ip dst_ip segment =
     (if length segment < TCP_HEADER_MIN_LEN then Some (Inl SegmentTooShort)
      else do {
        checksum \<leftarrow> tcp_checksum_ipv4 src_ip dst_ip segment;
        if checksum \<noteq> 0 then Some (Inl InvalidChecksum)
        else
          let data_offset = drop_bit 4 (segment ! 12);
              header_len = unat data_offset * 4
          in if header_len < TCP_HEADER_MIN_LEN \<or> header_len > length segment
             then Some (Inl InvalidDataOffset)
             else do {
               let src_port = from_be16 (segment ! 0) (segment ! 1);
               let dst_port = from_be16 (segment ! 2) (segment ! 3);
               let seqno = Wrap32 (from_be32 (segment ! 4) (segment ! 5) (segment ! 6) (segment ! 7));
               let raw_ackno = from_be32 (segment ! 8) (segment ! 9) (segment ! 10) (segment ! 11);
               let offset_and_flags = from_be16 (segment ! 12) (segment ! 13);
               let flags = offset_and_flags AND 0x01ff;
               let ackno = (if flags AND TCP_FLAG_ACK \<noteq> 0 then Some (Wrap32 raw_ackno) else None);
               let window_size = from_be16 (segment ! 14) (segment ! 15);
               let header = \<lparr> th_src_port = src_port, th_dst_port = dst_port, th_seqno = seqno,
                     th_ackno = ackno, th_window_size = window_size,
                     th_syn = (flags AND TCP_FLAG_SYN \<noteq> 0), th_fin = (flags AND TCP_FLAG_FIN \<noteq> 0),
                     th_rst = (flags AND TCP_FLAG_RST \<noteq> 0) \<rparr>;
               payload \<leftarrow> slice_from header_len segment;
               Some (Inr \<lparr> ts_header = header, ts_payload = payload \<rparr>)
             }
      })"

definition TcpSegment_parse_ipv4 ::
  "octets4 \<Rightarrow> octets4 \<Rightarrow> bytes \<Rightarrow> (TcpParseError + TcpSegment) run" where
  "TcpSegment_parse_ipv4 src_ip dst_ip segment = TcpSegment_parse_ipv4_bytes src_ip dst_ip segment"

section \<open>Round trip\<close>

definition flag_bits :: "TcpHeader \<Rightarrow> nat" where
  "flag_bits h = of_bool (th_fin h) + 2 * of_bool (th_syn h) + 4 * of_bool (th_rst h)
     + 16 * of_bool (th_ackno h \<noteq> None)"

lemma offset_and_flags_eq:
  "push_bit 12 (5 :: u16) OR (TcpHeader_flags h AND 0x01ff) = of_nat (20480 + flag_bits h)"
  by (cases "th_fin h"; cases "th_syn h"; cases "th_rst h"; cases "th_ackno h = None")
    (simp_all add: TcpHeader_flags_def TCP_FLAG_FIN_def TCP_FLAG_SYN_def TCP_FLAG_RST_def TCP_FLAG_ACK_def
      flag_bits_def)

lemma flags_decode:
  fixes h :: TcpHeader
  defines "w \<equiv> (of_nat (20480 + flag_bits h) :: u16)"
  shows "drop_bit 4 (of_nat (unat w div 256) :: byte) = 5"
    and "(w AND 0x01ff) AND TCP_FLAG_ACK \<noteq> 0 \<longleftrightarrow> th_ackno h \<noteq> None"
    and "(w AND 0x01ff) AND TCP_FLAG_SYN \<noteq> 0 \<longleftrightarrow> th_syn h"
    and "(w AND 0x01ff) AND TCP_FLAG_FIN \<noteq> 0 \<longleftrightarrow> th_fin h"
    and "(w AND 0x01ff) AND TCP_FLAG_RST \<noteq> 0 \<longleftrightarrow> th_rst h"
  unfolding w_def TCP_FLAG_FIN_def TCP_FLAG_SYN_def TCP_FLAG_RST_def TCP_FLAG_ACK_def flag_bits_def
  by (cases "th_fin h"; cases "th_syn h"; cases "th_rst h"; cases "th_ackno h = None"; simp)+


text \<open>The header before the checksum field, and the segment on the wire.\<close>

definition header_front :: "TcpHeader \<Rightarrow> bytes" where
  "header_front h = be16 (th_src_port h) @ be16 (th_dst_port h) @ be32 (raw_value (th_seqno h)) @
     be32 (case th_ackno h of None \<Rightarrow> 0 | Some a \<Rightarrow> raw_value a) @
     be16 (of_nat (20480 + flag_bits h)) @ be16 (th_window_size h)"

lemma length_header_front [simp]: "length (header_front h) = 16"
  by (simp add: header_front_def)

lemma serialize_eq:
  assumes "20 + length (ts_payload s) \<le> U16_MAX"
  shows "TcpSegment_serialize_ipv4 s src dst = Some (header_front (ts_header s) @
    be16 (checksum_of (pseudo_header src dst (20 + length (ts_payload s)) @
      header_front (ts_header s) @ be16 0 @ be16 0 @ ts_payload s)) @ be16 0 @ ts_payload s)"
proof -
  let ?h = "header_front (ts_header s)" and ?p = "ts_payload s"
  have "length (?h @ be16 0 @ be16 0 @ ?p) = 20 + length ?p" by simp
  then have "tcp_checksum_ipv4 src dst (?h @ be16 0 @ be16 0 @ ?p) =
      Some (checksum_of (pseudo_header src dst (20 + length ?p) @ ?h @ be16 0 @ be16 0 @ ?p))"
    using tcp_checksum_eq [of "?h @ be16 0 @ be16 0 @ ?p" src dst] assms by simp
  moreover have "splice2 16 (be16 c) (?h @ be16 0 @ be16 0 @ ?p) = ?h @ be16 c @ be16 0 @ ?p" for c
    by (rule splice2_append) simp_all
  moreover have buf: "be16 (th_src_port h) @ be16 (th_dst_port h) @ be32 (raw_value (th_seqno h)) @
      be32 (case th_ackno h of None \<Rightarrow> 0 | Some a \<Rightarrow> raw_value a) @
      be16 (of_nat (20480 + flag_bits h)) @ be16 (th_window_size h) @ be16 0 @ be16 0 =
      header_front h @ be16 0 @ be16 0" for h
    by (simp add: header_front_def)
  ultimately show ?thesis
    using assms unfolding TcpSegment_serialize_ipv4_def Let_def offset_and_flags_eq buf
    by (simp add: add64_def)
qed

lemma parse_serialized:
  assumes "20 + length (ts_payload s) \<le> U16_MAX" and "TcpSegment_serialize_ipv4 s src dst = Some bs"
  shows "TcpSegment_parse_ipv4_bytes src dst bs = Some (Inr s)"
proof -
  let ?h = "ts_header s" and ?w = "of_nat (20480 + flag_bits (ts_header s)) :: u16"
  let ?ps = "pseudo_header src dst (20 + length (ts_payload s))"
  obtain c where c: "c = checksum_of ((?ps @ header_front ?h) @ be16 0 @ be16 0 @ ts_payload s)"
    and bs: "bs = header_front ?h @ be16 c @ be16 0 @ ts_payload s"
    using serialize_eq [OF assms(1), of src dst] assms(2) by simp
  have len: "length bs = 20 + length (ts_payload s)" using bs by simp
  have "checksum_of ((?ps @ header_front ?h) @ be16 c @ be16 0 @ ts_payload s) = 0"
    unfolding c by (rule checksum_of_written) simp
  then have chk: "tcp_checksum_ipv4 src dst bs = Some 0"
    using tcp_checksum_eq [of bs src dst] assms(1) len bs by simp
  have nth: "bs ! 0 = of_nat (unat (th_src_port ?h) div 256)" "bs ! 1 = of_nat (unat (th_src_port ?h))"
    "bs ! 2 = of_nat (unat (th_dst_port ?h) div 256)" "bs ! 3 = of_nat (unat (th_dst_port ?h))"
    "[bs ! 4, bs ! 5, bs ! 6, bs ! 7] = be32 (raw_value (th_seqno ?h))"
    "[bs ! 8, bs ! 9, bs ! 10, bs ! 11] = be32 (case th_ackno ?h of None \<Rightarrow> 0 | Some a \<Rightarrow> raw_value a)"
    "bs ! 12 = of_nat (unat ?w div 256)" "bs ! 13 = of_nat (unat ?w)"
    "bs ! 14 = of_nat (unat (th_window_size ?h) div 256)" "bs ! 15 = of_nat (unat (th_window_size ?h))"
    unfolding bs header_front_def be16_def be32_def by simp_all
  have drp: "slice_from 20 bs = Some (ts_payload s)"
    unfolding bs by (simp add: slice_from_def)
  have rec: "\<lparr>ts_header = \<lparr>th_src_port = th_src_port ?h, th_dst_port = th_dst_port ?h,
        th_seqno = Wrap32 (raw_value (th_seqno ?h)),
        th_ackno = (if th_ackno ?h \<noteq> None
          then Some (Wrap32 (case th_ackno ?h of None \<Rightarrow> 0 | Some a \<Rightarrow> raw_value a)) else None),
        th_window_size = th_window_size ?h, th_syn = th_syn ?h, th_fin = th_fin ?h, th_rst = th_rst ?h\<rparr>,
      ts_payload = ts_payload s\<rparr> = s"
    by (cases s; cases "ts_header s") (auto split: option.splits)
  have "\<not> length bs < 20" "\<not> (unat (5 :: byte) * 4 < 20 \<or> length bs < unat (5 :: byte) * 4)"
    "unat (5 :: byte) * 4 = 20" using len by simp_all
  then show ?thesis
    unfolding TcpSegment_parse_ipv4_bytes_def chk nth(1-4,7-10) from_be16_be16 flags_decode Let_def
      from_be32_eq [OF nth(5)] from_be32_eq [OF nth(6)]
    by (simp only: if_False Option.bind.simps not_True_eq_False simp_thms drp rec)
qed

interpretation tcp_wire: wire_format "\<lambda>s. TcpSegment_serialize_ipv4 s src dst"
  "TcpSegment_parse_ipv4_bytes src dst" "\<lambda>s. 20 + length (ts_payload s) \<le> U16_MAX" for src dst
  by unfold_locales (use serialize_eq parse_serialized in blast)+

text \<open>The segment of an endpoint carries both of its messages.\<close>

lemma messages_of_segment:
  fixes sp dp :: u16 and sm :: TcpSenderMessage and rm :: TcpReceiverMessage
  defines "s \<equiv> TcpSegment_from_messages sp dp sm (Some rm)"
  shows "TcpSegment_to_sender_message s = sm\<lparr> sm_rst := sm_rst sm \<or> rm_rst rm \<rparr>"
    and "TcpSegment_to_receiver_message s = rm\<lparr> rm_rst := sm_rst sm \<or> rm_rst rm \<rparr>"
  by (simp_all add: s_def TcpSegment_from_messages_def TcpSegment_to_sender_message_def
      TcpSegment_to_receiver_message_def Let_def)

lemma parse_total:
  assumes "length bs \<le> U16_MAX"
  shows "\<exists>r. TcpSegment_parse_ipv4_bytes src dst bs = Some r"
  using assms tcp_checksum_eq [OF assms, of src dst]
  by (auto simp: TcpSegment_parse_ipv4_bytes_def Let_def slice_from_def)

section \<open>Properties\<close>

text \<open>
  C32. Round trip of the wire format: a segment that fits an IPv4 packet is serialized without a
  panic, and the receiver of the bytes parses exactly that segment, the checksum included.
\<close>

theorem tcp_roundtrip:
  assumes "20 + length (ts_payload s) \<le> U16_MAX"
  shows "\<exists>bs. TcpSegment_serialize_ipv4 s src dst = Some bs \<and> length bs = 20 + length (ts_payload s) \<and>
    TcpSegment_parse_ipv4_bytes src dst bs = Some (Inr s)"
  using tcp_wire.roundtrip [OF assms, of src dst] serialize_eq [OF assms, of src dst] by auto

definition example_segment :: TcpSegment where
  "example_segment = \<lparr> ts_header = \<lparr> th_src_port = 1234, th_dst_port = 80, th_seqno = Wrap32 4294967295,
     th_ackno = Some (Wrap32 7), th_window_size = 65535, th_syn = True, th_fin = False, th_rst = False \<rparr>,
     ts_payload = [104, 105] \<rparr>"

theorem tcp_roundtrip_witness:
  "\<exists>bs. TcpSegment_serialize_ipv4 example_segment (10, 0, 0, 1) (10, 0, 0, 2) = Some bs \<and> length bs = 22 \<and>
    TcpSegment_parse_ipv4_bytes (10, 0, 0, 1) (10, 0, 0, 2) bs = Some (Inr example_segment)"
  using tcp_roundtrip [of example_segment "(10, 0, 0, 1)" "(10, 0, 0, 2)"] by (simp add: example_segment_def)



end
