(* ===== verification/Tcp_Connection.thy ===== *)
theory Tcp_Connection
  imports Tcp_Receiver Tcp_Sender Tcp_Segment
begin

text \<open>
  \<open>src/tcp_connection.rs\<close>: a full-duplex endpoint that combines a sender and a receiver and exchanges
  segments. The vectors of outgoing segments of the source are lists.
\<close>

section \<open>Model\<close>

record TcpConnectionConfig =
  cc_local_port :: u16
  cc_peer_port :: u16
  cc_sender_capacity :: nat
  cc_receiver_capacity :: nat
  cc_isn :: Wrap32
  cc_sender_config :: TcpSenderConfig

definition TcpConnectionConfig_new ::
  "u16 \<Rightarrow> u16 \<Rightarrow> nat \<Rightarrow> nat \<Rightarrow> Wrap32 \<Rightarrow> TcpSenderConfig \<Rightarrow> TcpConnectionConfig" where
  "TcpConnectionConfig_new local_port peer_port sender_capacity receiver_capacity isn sender_config =
     \<lparr> cc_local_port = local_port, cc_peer_port = peer_port, cc_sender_capacity = sender_capacity,
       cc_receiver_capacity = receiver_capacity, cc_isn = isn, cc_sender_config = sender_config \<rparr>"

record TcpConnection =
  tc_local_port :: u16
  tc_peer_port :: u16
  tc_sender :: TcpSender
  tc_receiver :: TcpReceiver

definition TcpConnection_new :: "TcpConnectionConfig \<Rightarrow> TcpConnection run" where
  "TcpConnection_new config = do {
     _ \<leftarrow> ensure (cc_local_port config \<noteq> 0);
     _ \<leftarrow> ensure (cc_peer_port config \<noteq> 0);
     sender \<leftarrow> TcpSender_new (cc_sender_capacity config) (cc_isn config) (cc_sender_config config);
     receiver \<leftarrow> TcpReceiver_new (cc_receiver_capacity config);
     Some \<lparr> tc_local_port = cc_local_port config, tc_peer_port = cc_peer_port config,
            tc_sender = sender, tc_receiver = receiver \<rparr>
   }"

definition TcpConnection_receiver_message :: "TcpConnection \<Rightarrow> TcpReceiverMessage run" where
  "TcpConnection_receiver_message self = TcpReceiver_send (tc_receiver self)"

definition TcpConnection_empty_sender_message :: "TcpConnection \<Rightarrow> TcpSenderMessage" where
  "TcpConnection_empty_sender_message self = TcpSender_make_empty_message (tc_sender self)"

definition TcpConnection_is_established :: "TcpConnection \<Rightarrow> bool run" where
  "TcpConnection_is_established self =
     (if sn_syn_sent (tc_sender self) \<and> sn_una (tc_sender self) > 0
      then do { message \<leftarrow> TcpReceiver_send (tc_receiver self); Some (rm_ackno message \<noteq> None) }
      else Some False)"

definition TcpConnection_bytes_in_flight :: "TcpConnection \<Rightarrow> nat run" where
  "TcpConnection_bytes_in_flight self = TcpSender_bytes_in_flight (tc_sender self)"

definition TcpConnection_outstanding_segments :: "TcpConnection \<Rightarrow> nat" where
  "TcpConnection_outstanding_segments self = TcpSender_outstanding_segments (tc_sender self)"

definition TcpConnection_is_finished :: "TcpConnection \<Rightarrow> bool" where
  "TcpConnection_is_finished self = TcpSender_is_finished (tc_sender self)"

definition TcpConnection_build_segment ::
  "u16 \<Rightarrow> u16 \<Rightarrow> TcpSenderMessage \<Rightarrow> TcpReceiverMessage \<Rightarrow> TcpSegment" where
  "TcpConnection_build_segment local_port peer_port sender_message receiver_feedback =
     TcpSegment_from_messages local_port peer_port sender_message (Some receiver_feedback)"

definition TcpConnection_flush_sender :: "TcpConnection \<Rightarrow> (TcpConnection \<times> TcpSegment list) run" where
  "TcpConnection_flush_sender self = do {
     receiver_feedback \<leftarrow> TcpReceiver_send (tc_receiver self);
     (sender, sent) \<leftarrow> TcpSender_push (tc_sender self);
     Some (self\<lparr> tc_sender := sender \<rparr>,
           map (\<lambda>m. TcpConnection_build_segment (tc_local_port self) (tc_peer_port self) m receiver_feedback) sent)
   }"

definition TcpConnection_connect :: "TcpConnection \<Rightarrow> (TcpConnection \<times> TcpSegment list) run" where
  "TcpConnection_connect self = TcpConnection_flush_sender self"

definition TcpConnection_write ::
  "TcpConnection \<Rightarrow> bytes \<Rightarrow> (TcpConnection \<times> nat \<times> TcpSegment list) run" where
  "TcpConnection_write self data = do {
     (outbound, bytes_written) \<leftarrow> ByteStream_push (sn_outbound (tc_sender self)) data;
     let self = self\<lparr> tc_sender := (tc_sender self)\<lparr> sn_outbound := outbound \<rparr> \<rparr>;
     (self, segments) \<leftarrow> TcpConnection_flush_sender self;
     Some (self, bytes_written, segments)
   }"

definition TcpConnection_close :: "TcpConnection \<Rightarrow> (TcpConnection \<times> TcpSegment list) run" where
  "TcpConnection_close self =
     TcpConnection_flush_sender (self\<lparr> tc_sender := (tc_sender self)
       \<lparr> sn_outbound := ByteStream_close (sn_outbound (tc_sender self)) \<rparr> \<rparr>)"

definition TcpConnection_belongs_to_this_connection :: "TcpConnection \<Rightarrow> TcpSegment \<Rightarrow> bool" where
  "TcpConnection_belongs_to_this_connection self segment =
     (th_src_port (ts_header segment) = tc_peer_port self \<and>
      th_dst_port (ts_header segment) = tc_local_port self)"

definition TcpConnection_make_pure_ack_segment :: "TcpConnection \<Rightarrow> TcpSegment option run" where
  "TcpConnection_make_pure_ack_segment self = do {
     receiver_feedback \<leftarrow> TcpReceiver_send (tc_receiver self);
     if rm_ackno receiver_feedback = None \<and> \<not> rm_rst receiver_feedback then Some None
     else
       let sender_message = TcpSender_make_empty_message (tc_sender self)
       in Some (Some (TcpConnection_build_segment (tc_local_port self) (tc_peer_port self)
            sender_message receiver_feedback))
   }"

definition TcpConnection_receive_segment ::
  "TcpConnection \<Rightarrow> TcpSegment \<Rightarrow> (TcpConnection \<times> TcpSegment list) run" where
  "TcpConnection_receive_segment self segment =
     (if \<not> TcpConnection_belongs_to_this_connection self segment then Some (self, [])
      else do {
        let incoming_sender_message = TcpSegment_to_sender_message segment;
        let incoming_receiver_message = TcpSegment_to_receiver_message segment;
        let incoming_sequence_len = TcpSenderMessage_sequence_length incoming_sender_message;
        sender \<leftarrow> TcpSender_receive (tc_sender self) incoming_receiver_message;
        let self = self\<lparr> tc_sender := sender \<rparr>;
        self \<leftarrow> (if incoming_sequence_len > 0 \<or> sm_rst incoming_sender_message
          then do {
            (receiver, result) \<leftarrow> TcpReceiver_receive (tc_receiver self) incoming_sender_message;
            let self = self\<lparr> tc_receiver := receiver \<rparr>;
            (case result of
               Inr _ \<Rightarrow> Some self
             | Inl _ \<Rightarrow> Some (self\<lparr> tc_receiver := (tc_receiver self)
                 \<lparr> rc_reassembler := (rc_reassembler (tc_receiver self))
                     \<lparr> ra_output := ByteStream_set_error (TcpReceiver_output (tc_receiver self)) \<rparr> \<rparr> \<rparr>))
          } else Some self);
        (self, outgoing) \<leftarrow> TcpConnection_flush_sender self;
        if incoming_sequence_len > 0 \<and> outgoing = [] then do {
          ack \<leftarrow> TcpConnection_make_pure_ack_segment self;
          Some (self, outgoing @ (case ack of None \<Rightarrow> [] | Some ack \<Rightarrow> [ack]))
        } else Some (self, outgoing)
      })"

definition TcpConnection_tick :: "TcpConnection \<Rightarrow> nat \<Rightarrow> (TcpConnection \<times> TcpSegment list) run" where
  "TcpConnection_tick self elapsed_ms = do {
     receiver_feedback \<leftarrow> TcpReceiver_send (tc_receiver self);
     (sender, sent) \<leftarrow> TcpSender_tick (tc_sender self) elapsed_ms;
     Some (self\<lparr> tc_sender := sender \<rparr>,
           map (\<lambda>m. TcpConnection_build_segment (tc_local_port self) (tc_peer_port self) m receiver_feedback) sent)
   }"

section \<open>Safety\<close>

text \<open>
  No message in flight carries more than the configured payload, and only a sender that has been reset
  has messages with the RST flag in flight.
\<close>

definition small :: "TcpSender \<Rightarrow> TcpSenderMessage \<Rightarrow> bool" where
  "small sn m \<longleftrightarrow> length (sm_payload m) \<le> cf_max_payload_size (sn_config sn) \<and>
     (sm_rst m \<longrightarrow> bs_error (sn_outbound sn))"

definition flight_ok :: "TcpSender \<Rightarrow> bool" where
  "flight_ok sn \<longleftrightarrow> (\<forall>s \<in> set (sn_outstanding sn). small sn (os_message s))"

lemma flight_ok_cong:
  "flight_ok a \<Longrightarrow> sn_outstanding b = sn_outstanding a \<Longrightarrow> sn_config b = sn_config a \<Longrightarrow>
     bs_error (sn_outbound b) = bs_error (sn_outbound a) \<Longrightarrow> flight_ok b"
  by (simp add: flight_ok_def small_def)

lemma trim_small:
  assumes "OutstandingSegment_trim_prefix s k isn = Some s'" and "small sn (os_message s)"
  shows "small sn (os_message s')"
proof -
  have "length (sm_payload (os_message s')) \<le> length (sm_payload (os_message s)) \<and>
      sm_rst (os_message s') = sm_rst (os_message s)"
    using assms(1) by (auto simp: OutstandingSegment_trim_prefix_def Let_def bind_eq_Some_conv slice_from_def
        split: if_splits prod.splits)
  then show ?thesis using assms(2) by (auto simp: small_def)
qed

lemma drop_acknowledged_subset:
  "drop_acknowledged u ss = Some ss' \<Longrightarrow> set ss' \<subseteq> set ss"
  by (induction ss) (auto simp: bind_eq_Some_conv split: if_splits)

lemma discard_flight:
  assumes "TcpSender_discard_acknowledged_prefix sn = Some sn'" and "flight_ok sn"
  shows "flight_ok sn' \<and> sn_config sn' = sn_config sn \<and> sn_outbound sn' = sn_outbound sn"
proof -
  obtain ss where ss: "drop_acknowledged (sn_una sn) (sn_outstanding sn) = Some ss"
    using assms(1) by (auto simp: TcpSender_discard_acknowledged_prefix_def bind_eq_Some_conv)
  have small: "\<forall>s \<in> set ss. small sn (os_message s)"
    using drop_acknowledged_subset [OF ss] assms(2) unfolding flight_ok_def by blast
  obtain ss' where ss': "sn' = sn\<lparr>sn_outstanding := ss'\<rparr>" "\<forall>s \<in> set ss'. small sn (os_message s)"
    using assms(1) ss small trim_small
    by (cases ss) (fastforce simp: TcpSender_discard_acknowledged_prefix_def bind_eq_Some_conv split: if_splits)+
  then show ?thesis by (auto simp: flight_ok_def small_def)
qed

lemma restart_flight:
  "TcpSender_restart_timer_for_current_window sn = Some sn' \<Longrightarrow> sn_outstanding sn' = sn_outstanding sn \<and>
     sn_config sn' = sn_config sn \<and> sn_outbound sn' = sn_outbound sn"
  by (auto simp: TcpSender_restart_timer_for_current_window_def bind_eq_Some_conv split: if_splits)

lemma receive_flight:
  assumes "TcpSender_receive sn msg = Some sn'" and "flight_ok sn"
  shows "flight_ok sn'"
proof -
  consider "rm_rst msg" | "\<not> rm_rst msg" "rm_ackno msg = None" | w where "\<not> rm_rst msg" "rm_ackno msg = Some w" by blast
  then show ?thesis
  proof cases
    case 1
    then show ?thesis using assms by (auto simp: TcpSender_receive_def TcpSender_abort_def flight_ok_def)
  next
    case 2
    then show ?thesis using assms(1) restart_flight
      by (intro flight_ok_cong [OF assms(2)]) (fastforce simp: TcpSender_receive_def Let_def bind_eq_Some_conv split: if_splits)+
  next
    case 3
    obtain a where a: "Wrap32_unwrap w (sn_isn sn) (sn_nxt sn) = Some a"
      using assms(1) 3 by (auto simp: TcpSender_receive_def Let_def bind_eq_Some_conv)
    show ?thesis
    proof (cases "a > sn_nxt sn")
      case True
      then show ?thesis using assms 3 a by (simp add: TcpSender_receive_def Let_def)
    next
      case False
      let ?sn = "sn\<lparr>sn_advertised_window := unat (rm_window_size msg)\<rparr>"
      have "\<exists>sn1. flight_ok sn1 \<and> sn_outstanding sn' = sn_outstanding sn1 \<and> sn_config sn' = sn_config sn1 \<and>
        sn_outbound sn' = sn_outbound sn1"
      proof (cases "a > sn_una sn")
        case True
        obtain sn1 where sn1: "TcpSender_discard_acknowledged_prefix (?sn\<lparr>sn_una := a\<rparr>) = Some sn1"
          using assms(1) 3 a True False by (auto simp: TcpSender_receive_def Let_def bind_eq_Some_conv)
        have "flight_ok (?sn\<lparr>sn_una := a\<rparr>)" by (rule flight_ok_cong [OF assms(2)]) simp_all
        then have "flight_ok sn1" using discard_flight [OF sn1] by blast
        then show ?thesis using assms(1) 3 a True False sn1
          by (intro exI [of _ sn1])
            (auto simp: TcpSender_receive_def Let_def bind_eq_Some_conv split: if_splits dest!: restart_flight)
      next
        case na: False
        then show ?thesis using assms 3 a False
          by (intro exI [of _ sn])
            (auto simp: TcpSender_receive_def Let_def bind_eq_Some_conv split: if_splits dest!: restart_flight)
      qed
      then show ?thesis using flight_ok_cong by metis
    qed
  qed
qed

lemma receive_window:
  assumes "sn_inv W sn" and "TcpSender_receive sn msg = Some sn'" and "sn_advertised_window sn \<le> U16_MAX"
  shows "sn_advertised_window sn' \<le> U16_MAX"
proof -
  have w: "unat (rm_window_size msg) \<le> U16_MAX" using unat_u16_less [of "rm_window_size msg"] by simp
  consider "rm_rst msg" | "\<not> rm_rst msg" "rm_ackno msg = None" | a where "\<not> rm_rst msg" "rm_ackno msg = Some a" by blast
  then show ?thesis
  proof cases
    case 1
    then show ?thesis using assms(2,3) by (auto simp: TcpSender_receive_def TcpSender_abort_def)
  next
    case 2
    then show ?thesis using receive_no_ack [OF assms(1)] assms(2) w by fastforce
  next
    case 3
    then obtain k where "Wrap32_unwrap a (sn_isn sn) (sn_nxt sn) = Some k"
      using assms(2) by (auto simp: TcpSender_receive_def Let_def bind_eq_Some_conv)
    then show ?thesis using receive_ack [OF assms(1) 3] assms(2,3) w by (auto simp: acked_def split: if_splits)
  qed
qed

lemma push_flight:
  assumes "pushed_to W eff sn sn' sent" and "flight_ok sn"
  shows "flight_ok sn'" and "\<forall>m \<in> set sent. small sn' m"
proof -
  have base: "sn_config sn' = sn_config sn" "bs_error (sn_outbound sn') = bs_error (sn_outbound sn)"
    using assms(1) by (simp_all add: pushed_to_def same_base_def)
  then have cong: "small sn' = small sn" by (simp add: small_def fun_eq_iff)
  obtain ss where ss: "sn_outstanding sn' = sn_outstanding sn @ ss" "map os_message ss = sent"
    using assms(1) unfolding pushed_to_def by blast
  have sent: "small sn m" if "m \<in> set sent" for m
    using assms(1) that unfolding pushed_to_def sends_def small_def by blast
  then have "small sn (os_message s)" if "s \<in> set ss" for s
    using that ss(2) by auto
  then show "flight_ok sn'" "\<forall>m \<in> set sent. small sn' m"
    using cong ss(1) sent assms(2) by (auto simp: flight_ok_def)
qed

definition tc_inv :: "bytes \<Rightarrow> TcpConnection \<Rightarrow> bool" where
  "tc_inv W tc \<longleftrightarrow> sn_inv W (tc_sender tc) \<and> rc_inv (tc_receiver tc) \<and> flight_ok (tc_sender tc) \<and>
     sn_advertised_window (tc_sender tc) \<le> U16_MAX"

lemma send_total:
  assumes "rc_inv rc"
  shows "\<exists>msg. TcpReceiver_send rc = Some msg \<and> (rm_ackno msg \<noteq> None \<longleftrightarrow> rc_isn rc \<noteq> None) \<and>
    rm_rst msg = bs_error (TcpReceiver_output rc)"
proof -
  have "bs_buffered (TcpReceiver_output rc) \<le> bs_capacity (TcpReceiver_output rc)"
    using assms by (auto simp: rc_inv_def TcpReceiver_output_def ra_inv_def ra_wf_def stored_ok_def bs_wf_def)
  then show ?thesis
    by (auto simp: TcpReceiver_send_def ByteStream_available_capacity_def run_simps Let_def stream_accessors)
qed

text \<open>
  What every outgoing segment of an endpoint is: one of its messages with its feedback. The message is
  empty or a piece of the stream; it carries a FIN only if the sender has sent it.
\<close>

definition own_message :: "bytes \<Rightarrow> TcpSender \<Rightarrow> TcpSenderMessage \<Rightarrow> bool" where
  "own_message W sn m \<longleftrightarrow> (symbols m = [] \<or> speaks_to W (sn_isn sn) (sn_nxt sn) m) \<and> small sn m \<and> (sm_fin m \<longrightarrow> sn_fin_sent sn)"

definition from_endpoint :: "bytes \<Rightarrow> TcpConnection \<Rightarrow> TcpReceiverMessage \<Rightarrow> TcpSegment \<Rightarrow> bool" where
  "from_endpoint W tc fb seg \<longleftrightarrow>
     (\<exists>m. seg = TcpConnection_build_segment (tc_local_port tc) (tc_peer_port tc) m fb \<and> own_message W (tc_sender tc) m)"

definition emits :: "bytes \<Rightarrow> TcpConnection \<Rightarrow> TcpSegment list \<Rightarrow> bool" where
  "emits W tc out \<longleftrightarrow> (\<exists>fb. TcpReceiver_send (tc_receiver tc) = Some fb \<and> (\<forall>seg \<in> set out. from_endpoint W tc fb seg))"

text \<open>
  How an endpoint that has been given the stream \<open>W\<close> evolves: its identity stays, the invariant is
  kept, and after a FIN the stream does not grow. What it does by itself acknowledges nothing.
\<close>

definition evolves :: "bytes \<Rightarrow> TcpConnection \<Rightarrow> bytes \<Rightarrow> TcpConnection \<Rightarrow> bool" where
  "evolves W tc W' tc' \<longleftrightarrow> tc_inv W' tc' \<and> tc_local_port tc' = tc_local_port tc \<and> tc_peer_port tc' = tc_peer_port tc \<and>
     sn_isn (tc_sender tc') = sn_isn (tc_sender tc) \<and> sn_config (tc_sender tc') = sn_config (tc_sender tc) \<and>
     (sn_fin_sent (tc_sender tc) \<longrightarrow> sn_fin_sent (tc_sender tc') \<and> W' = W) \<and> (\<exists>d. W' = W @ d) \<and>
     sn_nxt (tc_sender tc) \<le> sn_nxt (tc_sender tc') \<and>
     (bs_closed (sn_outbound (tc_sender tc)) \<longrightarrow> bs_closed (sn_outbound (tc_sender tc')))"

definition own_step :: "bytes \<Rightarrow> TcpConnection \<Rightarrow> bytes \<Rightarrow> TcpConnection \<Rightarrow> TcpSegment list \<Rightarrow> bool" where
  "own_step W tc W' tc' out \<longleftrightarrow> evolves W tc W' tc' \<and> emits W' tc' out \<and> tc_receiver tc' = tc_receiver tc \<and>
     bs_error (sn_outbound (tc_sender tc')) = bs_error (sn_outbound (tc_sender tc)) \<and>
     sn_una (tc_sender tc') = sn_una (tc_sender tc)"

lemma own_stepI:
  assumes "tc_inv W0 tc" and "sn_inv W sn'" and "flight_ok sn'" and "sn_isn sn' = sn_isn (tc_sender tc)"
    and "sn_config sn' = sn_config (tc_sender tc)"
    and "bs_error (sn_outbound sn') = bs_error (sn_outbound (tc_sender tc))"
    and "sn_fin_sent (tc_sender tc) \<Longrightarrow> sn_fin_sent sn' \<and> W = W0" and "\<exists>d. W = W0 @ d"
    and "TcpReceiver_send (tc_receiver tc) = Some fb" and "\<And>m. m \<in> set sent \<Longrightarrow> own_message W sn' m"
    and "sn_una sn' = sn_una (tc_sender tc)" and "sn_nxt (tc_sender tc) \<le> sn_nxt sn'"
    and "bs_closed (sn_outbound (tc_sender tc)) \<Longrightarrow> bs_closed (sn_outbound sn')"
    and "sn_advertised_window sn' = sn_advertised_window (tc_sender tc)"
  shows "own_step W0 tc W (tc\<lparr>tc_sender := sn'\<rparr>)
    (map (\<lambda>m. TcpConnection_build_segment (tc_local_port tc) (tc_peer_port tc) m fb) sent)"
proof -
  have "from_endpoint W (tc\<lparr>tc_sender := sn'\<rparr>) fb
      (TcpConnection_build_segment (tc_local_port tc) (tc_peer_port tc) m fb)" if "m \<in> set sent" for m
    unfolding from_endpoint_def using assms(10) [OF that] by (intro exI [of _ m]) simp
  then show ?thesis using assms by (auto simp: own_step_def evolves_def emits_def tc_inv_def)
qed

lemma flush_sender_spec:
  assumes "tc_inv W tc"
  shows "\<exists>tc' out. TcpConnection_flush_sender tc = Some (tc', out) \<and> own_step W tc W tc' out \<and>
    bs_closed (sn_outbound (tc_sender tc')) = bs_closed (sn_outbound (tc_sender tc)) \<and>
    (sn_una (tc_sender tc') < sn_nxt (tc_sender tc') \<or> drained (tc_sender tc'))"
proof -
  have inv: "sn_inv W (tc_sender tc)" "flight_ok (tc_sender tc)" using assms by (auto simp: tc_inv_def)
  obtain fb where fb: "TcpReceiver_send (tc_receiver tc) = Some fb"
    using send_total assms unfolding tc_inv_def by blast
  obtain sn' sent where p: "TcpSender_push (tc_sender tc) = Some (sn', sent)"
    "pushed_to W (max (sn_advertised_window (tc_sender tc)) 1) (tc_sender tc) sn' sent"
    using push_spec [OF inv(1)] by blast
  have base: "sn_inv W sn'" "sn_isn sn' = sn_isn (tc_sender tc)" "sn_config sn' = sn_config (tc_sender tc)"
    "bs_error (sn_outbound sn') = bs_error (sn_outbound (tc_sender tc))" "sn_una sn' = sn_una (tc_sender tc)"
    "sn_nxt (tc_sender tc) \<le> sn_nxt sn'" "bs_closed (sn_outbound sn') = bs_closed (sn_outbound (tc_sender tc))"
    "sn_advertised_window sn' = sn_advertised_window (tc_sender tc)"
    using p(2) by (auto simp: pushed_to_def same_base_def)
  have "own_step W tc W (tc\<lparr>tc_sender := sn'\<rparr>)
      (map (\<lambda>m. TcpConnection_build_segment (tc_local_port tc) (tc_peer_port tc) m fb) sent)"
    using pushed_to_speaks [OF p(2)] push_flight [OF p(2) inv(2)] push_keeps_fin [OF inv(1) p(2)]
    by (intro own_stepI [OF assms base(1) _ base(2,3,4) _ _ fb _ base(5,6)]) (auto simp: own_message_def base(7,8))
  moreover have "sn_una sn' < sn_nxt sn' \<or> drained sn'" using p(2) by (auto simp: pushed_to_def)
  ultimately show ?thesis using fb p(1) base(7) by (simp add: TcpConnection_flush_sender_def)
qed

lemma tick_conn_spec:
  assumes "tc_inv W tc"
  shows "\<exists>tc' out. TcpConnection_tick tc ms = Some (tc', out) \<and> own_step W tc W tc' out \<and>
    bs_closed (sn_outbound (tc_sender tc')) = bs_closed (sn_outbound (tc_sender tc)) \<and>
    (expires (tc_sender tc) ms \<longrightarrow> (\<exists>fb. TcpConnection_build_segment (tc_local_port tc) (tc_peer_port tc)
       (os_message (hd (sn_outstanding (tc_sender tc)))) fb \<in> set out))"
proof -
  let ?sn = "tc_sender tc"
  have inv: "sn_inv W ?sn" "flight_ok ?sn" "sent_ok W ?sn" using assms by (auto simp: tc_inv_def sn_inv_def)
  obtain fb where fb: "TcpReceiver_send (tc_receiver tc) = Some fb"
    using send_total assms unfolding tc_inv_def by blast
  obtain sn' sent where t: "TcpSender_tick ?sn ms = Some (sn', sent)" "sn_inv W sn'" "sn_isn sn' = sn_isn ?sn"
    "sn_config sn' = sn_config ?sn" "sn_outbound sn' = sn_outbound ?sn" "sn_outstanding sn' = sn_outstanding ?sn"
    "sn_fin_sent sn' = sn_fin_sent ?sn" "set sent \<subseteq> os_message ` set (sn_outstanding ?sn)"
    "sn_una sn' = sn_una ?sn" "sn_nxt sn' = sn_nxt ?sn" "sn_advertised_window sn' = sn_advertised_window ?sn"
    "expires ?sn ms \<longrightarrow> os_message (hd (sn_outstanding ?sn)) \<in> set sent"
    using tick_spec [OF inv(1)] by blast
  have "own_message W sn' m" if "m \<in> set sent" for m
    using that t inv(2) sent_ok_outstanding [OF inv(3)] by (auto simp: own_message_def flight_ok_def small_def)
  moreover have "flight_ok sn'" using t by (intro flight_ok_cong [OF inv(2)]) simp_all
  ultimately have "own_step W tc W (tc\<lparr>tc_sender := sn'\<rparr>)
      (map (\<lambda>m. TcpConnection_build_segment (tc_local_port tc) (tc_peer_port tc) m fb) sent)"
    using t by (intro own_stepI [OF assms t(2) _ t(3,4) _ _ _ fb]) simp_all
  then show ?thesis using fb t(1,5,12) by (auto simp: TcpConnection_tick_def)
qed

lemma write_conn_spec:
  assumes "tc_inv W tc" and "length W + length d + 2 \<le> U64_MAX"
  shows "\<exists>tc' n out. TcpConnection_write tc d = Some (tc', n, out) \<and> own_step W tc (W @ take n d) tc' out"
proof -
  obtain s n where s: "ByteStream_push (sn_outbound (tc_sender tc)) d = Some (s, n)"
    "sn_inv (W @ take n d) ((tc_sender tc)\<lparr>sn_outbound := s\<rparr>)" "sn_fin_sent (tc_sender tc) \<longrightarrow> take n d = []"
    "bs_error s = bs_error (sn_outbound (tc_sender tc))" "bs_closed s = bs_closed (sn_outbound (tc_sender tc))"
    using write_spec assms unfolding tc_inv_def by blast
  let ?tc = "tc\<lparr>tc_sender := (tc_sender tc)\<lparr>sn_outbound := s\<rparr>\<rparr>"
  have "tc_inv (W @ take n d) ?tc"
    using assms(1) s flight_ok_cong [of "tc_sender tc" "tc_sender ?tc"] by (simp add: tc_inv_def)
  from flush_sender_spec [OF this] obtain tc' out where fl: "TcpConnection_flush_sender ?tc = Some (tc', out)"
    "own_step (W @ take n d) ?tc (W @ take n d) tc' out" by blast
  have "own_step W tc (W @ take n d) tc' out"
    using fl(2) s(3-5) by (auto simp: own_step_def evolves_def)
  then show ?thesis using s(1) fl(1) by (simp add: TcpConnection_write_def)
qed

lemma close_conn_spec:
  assumes "tc_inv W tc"
  shows "\<exists>tc' out. TcpConnection_close tc = Some (tc', out) \<and> own_step W tc W tc' out"
proof -
  let ?tc = "tc\<lparr>tc_sender := (tc_sender tc)\<lparr>sn_outbound := ByteStream_close (sn_outbound (tc_sender tc))\<rparr>\<rparr>"
  have err: "bs_error (ByteStream_close s) = bs_error s" "bs_closed (ByteStream_close s)" for s
    by (simp_all add: ByteStream_close_def)
  have "tc_inv W ?tc"
    using assms close_spec flight_ok_cong [of "tc_sender tc" "tc_sender ?tc"] err by (simp add: tc_inv_def)
  from flush_sender_spec [OF this] obtain tc' out where fl: "TcpConnection_flush_sender ?tc = Some (tc', out)"
    "own_step W ?tc W tc' out" by blast
  have "own_step W tc W tc' out"
    using fl(2) err by (auto simp: own_step_def evolves_def)
  then show ?thesis using fl(1) by (simp add: TcpConnection_close_def)
qed

lemma pure_ack_spec:
  assumes "tc_inv W tc" and "TcpReceiver_send (tc_receiver tc) = Some fb"
  shows "\<exists>ack. TcpConnection_make_pure_ack_segment tc = Some ack \<and>
    (\<forall>seg. ack = Some seg \<longrightarrow> from_endpoint W tc fb seg) \<and> (rm_ackno fb \<noteq> None \<longrightarrow> ack \<noteq> None)"
proof -
  have "own_message W sn (TcpSender_make_empty_message sn)" for sn
    by (simp add: own_message_def symbols_def small_def TcpSender_make_empty_message_def stream_accessors)
  then show ?thesis using assms
    by (auto simp: TcpConnection_make_pure_ack_segment_def from_endpoint_def Let_def)
qed

text \<open>What a segment of this connection does to the receiver: a rejected one puts it into error.\<close>

definition receiver_after :: "TcpReceiver \<Rightarrow> TcpSenderMessage \<Rightarrow> TcpReceiver" where
  "receiver_after rc m =
     (if symbols m \<noteq> [] \<or> sm_rst m
      then (case the (TcpReceiver_receive rc m) of
         (rc', Inr _) \<Rightarrow> rc'
       | (rc', Inl _) \<Rightarrow> rc'\<lparr>rc_reassembler := (rc_reassembler rc')\<lparr>ra_output := ByteStream_set_error (TcpReceiver_output rc')\<rparr>\<rparr>)
      else rc)"

lemma receiver_after_inv:
  assumes "rc_inv rc"
  shows "rc_inv (receiver_after rc m)"
proof -
  obtain rc' res where rc: "TcpReceiver_receive rc m = Some (rc', res)" "rc_inv rc'"
    using receive_safe assms by blast
  have "rc_inv (rc'\<lparr>rc_reassembler := (rc_reassembler rc')\<lparr>ra_output := ByteStream_set_error (TcpReceiver_output rc')\<rparr>\<rparr>)"
    using rc(2) set_error_keeps by (simp add: rc_inv_def TcpReceiver_output_def)
  then show ?thesis using assms rc by (simp add: receiver_after_def split: sum.splits)
qed

lemma receive_segment_spec:
  assumes "tc_inv W tc" and "TcpConnection_belongs_to_this_connection tc seg"
  shows "\<exists>tc' out. TcpConnection_receive_segment tc seg = Some (tc', out) \<and> evolves W tc W tc' \<and> emits W tc' out \<and>
    tc_receiver tc' = receiver_after (tc_receiver tc) (TcpSegment_to_sender_message seg) \<and>
    bs_error (sn_outbound (tc_sender tc')) = (bs_error (sn_outbound (tc_sender tc)) \<or> th_rst (ts_header seg)) \<and>
    (symbols (TcpSegment_to_sender_message seg) \<noteq> [] \<longrightarrow> rc_isn (tc_receiver tc') \<noteq> None \<longrightarrow> out \<noteq> []) \<and>
    map_option sn_una (TcpSender_receive (tc_sender tc) (TcpSegment_to_receiver_message seg)) = Some (sn_una (tc_sender tc')) \<and>
    bs_closed (sn_outbound (tc_sender tc')) = bs_closed (sn_outbound (tc_sender tc))"
proof -
  let ?sm = "TcpSegment_to_sender_message seg" and ?rm = "TcpSegment_to_receiver_message seg"
  obtain sn where sn: "TcpSender_receive (tc_sender tc) ?rm = Some sn" "sn_inv W sn"
    "sn_isn sn = sn_isn (tc_sender tc)" "sn_config sn = sn_config (tc_sender tc)"
    "sn_fin_sent sn = sn_fin_sent (tc_sender tc)" "sn_nxt sn = sn_nxt (tc_sender tc)" "bs_closed (sn_outbound sn) = bs_closed (sn_outbound (tc_sender tc))" "bs_error (sn_outbound sn) = (bs_error (sn_outbound (tc_sender tc)) \<or> rm_rst ?rm)"
    using receive_spec assms(1) unfolding tc_inv_def by blast
  have flight: "flight_ok sn" using receive_flight [OF sn(1)] assms(1) by (simp add: tc_inv_def)
  obtain rc res where rc: "TcpReceiver_receive (tc_receiver tc) ?sm = Some (rc, res)"
    using receive_safe assms(1) unfolding tc_inv_def by blast
  define tc2 where "tc2 = tc\<lparr>tc_sender := sn, tc_receiver := receiver_after (tc_receiver tc) ?sm\<rparr>"
  have "sn_advertised_window sn \<le> U16_MAX" using receive_window [OF _ sn(1)] assms(1) by (auto simp: tc_inv_def)
  then have tc2: "tc_inv W tc2" using receiver_after_inv sn(2) flight assms(1) by (simp add: tc2_def tc_inv_def)
  obtain tc3 out where fl: "TcpConnection_flush_sender tc2 = Some (tc3, out)" "own_step W tc2 W tc3 out"
    "bs_closed (sn_outbound (tc_sender tc3)) = bs_closed (sn_outbound (tc_sender tc2))"
    using flush_sender_spec [OF tc2] by blast
  obtain fb where fb: "TcpReceiver_send (tc_receiver tc3) = Some fb" "\<forall>s \<in> set out. from_endpoint W tc3 fb s"
    using fl(2) by (auto simp: own_step_def emits_def)
  have inv3: "tc_inv W tc3" using fl(2) by (simp add: own_step_def evolves_def)
  have known: "rm_ackno fb \<noteq> None \<longleftrightarrow> rc_isn (tc_receiver tc3) \<noteq> None"
    using send_total [of "tc_receiver tc3"] inv3 fb(1) by (auto simp: tc_inv_def)
  obtain ack where ack: "TcpConnection_make_pure_ack_segment tc3 = Some ack"
    "\<forall>seg. ack = Some seg \<longrightarrow> from_endpoint W tc3 fb seg" "rm_ackno fb \<noteq> None \<longrightarrow> ack \<noteq> None"
    using pure_ack_spec [OF inv3 fb(1)] by blast
  define out' where "out' = (if length (symbols ?sm) > 0 \<and> out = []
    then (case ack of None \<Rightarrow> [] | Some a \<Rightarrow> [a]) else out)"
  have "TcpConnection_receive_segment tc seg = Some (tc3, out')"
    using assms(2) sn(1) rc fl(1) ack(1)
    by (cases res; cases "symbols ?sm = []"; cases "sm_rst ?sm")
      (simp_all add: TcpConnection_receive_segment_def Let_def out'_def tc2_def receiver_after_def)
  moreover have "emits W tc3 out'" and "symbols ?sm \<noteq> [] \<longrightarrow> rc_isn (tc_receiver tc3) \<noteq> None \<longrightarrow> out' \<noteq> []"
    using fb ack(2,3) known by (auto simp: out'_def emits_def split: option.splits)
  moreover have "rm_rst ?rm = th_rst (ts_header seg)" by (simp add: TcpSegment_to_receiver_message_def)
  moreover have "evolves W tc W tc3" "tc_receiver tc3 = receiver_after (tc_receiver tc) ?sm"
    "bs_error (sn_outbound (tc_sender tc3)) = bs_error (sn_outbound sn)" "sn_una (tc_sender tc3) = sn_una sn"
    "bs_closed (sn_outbound (tc_sender tc3)) = bs_closed (sn_outbound (tc_sender tc))"
    using fl(2,3) sn(3-7) by (simp_all add: own_step_def evolves_def tc2_def)
  ultimately show ?thesis using sn(1,8) by auto
qed

section \<open>Executions\<close>

text \<open>
  The calls of an application and of the network in any order; the bytes the application has written
  and all outgoing segments are recorded.
\<close>

datatype conn_op = CConnect | CWrite bytes | CClose | CSegment TcpSegment | CTick nat | CRead nat

fun conn_step ::
  "TcpConnection \<times> bytes \<times> TcpSegment list \<Rightarrow> conn_op \<Rightarrow> (TcpConnection \<times> bytes \<times> TcpSegment list) run"
where
  "conn_step (tc, W, out) CConnect = do {
     (tc, segs) \<leftarrow> TcpConnection_connect tc; Some (tc, W, out @ segs) }"
| "conn_step (tc, W, out) (CWrite d) = do {
     (tc, n, segs) \<leftarrow> TcpConnection_write tc d; Some (tc, W @ take n d, out @ segs) }"
| "conn_step (tc, W, out) CClose = do {
     (tc, segs) \<leftarrow> TcpConnection_close tc; Some (tc, W, out @ segs) }"
| "conn_step (tc, W, out) (CSegment seg) = do {
     (tc, segs) \<leftarrow> TcpConnection_receive_segment tc seg; Some (tc, W, out @ segs) }"
| "conn_step (tc, W, out) (CTick ms) = do {
     (tc, segs) \<leftarrow> TcpConnection_tick tc ms; Some (tc, W, out @ segs) }"
| "conn_step (tc, W, out) (CRead n) = do {
     (rc, _) \<leftarrow> receiver_step (tc_receiver tc, []) (TRead n); Some (tc\<lparr>tc_receiver := rc\<rparr>, W, out) }"

fun conn_bytes :: "conn_op \<Rightarrow> nat" where
  "conn_bytes (CWrite d) = length d"
| "conn_bytes _ = 0"

fun conn_inv :: "TcpConnection \<times> bytes \<times> TcpSegment list \<Rightarrow> bool" where
  "conn_inv (tc, W, out) = tc_inv W tc"

lemma conn_step_safe:
  assumes "conn_inv t" and "written t + conn_bytes x \<le> U64_MAX - 2"
  shows "\<exists>t'. conn_step t x = Some t' \<and> conn_inv t' \<and> written t' \<le> written t + conn_bytes x"
proof -
  obtain tc W out where t: "t = (tc, W, out)" by (cases t)
  have inv: "tc_inv W tc" using assms(1) t by simp
  show ?thesis
  proof (cases x)
    case CConnect
    then show ?thesis using flush_sender_spec [OF inv] t
      by (auto simp: TcpConnection_connect_def own_step_def evolves_def)
  next
    case (CWrite d)
    then show ?thesis using write_conn_spec [OF inv, of d] assms(2) t by (fastforce simp: own_step_def evolves_def)
  next
    case CClose
    then show ?thesis using close_conn_spec [OF inv] t by (auto simp: own_step_def evolves_def)
  next
    case (CSegment seg)
    then show ?thesis using receive_segment_spec [OF inv, of seg] inv t
      by (cases "TcpConnection_belongs_to_this_connection tc seg")
        (auto simp: TcpConnection_receive_segment_def evolves_def)
  next
    case (CTick ms)
    then show ?thesis using tick_conn_spec [OF inv, of ms] t by (auto simp: own_step_def evolves_def)
  next
    case (CRead n)
    have rc: "rc_inv (tc_receiver tc)" using inv by (simp add: tc_inv_def)
    then obtain rc' d where r: "receiver_step (tc_receiver tc, []) (TRead n) = Some (rc', d)"
      using receiver.step_total [of "(tc_receiver tc, [])" "TRead n"] by auto
    then have "rc_inv rc'" using receiver.step_inv [OF _ _ r] rc by simp
    then show ?thesis using r inv t CRead by (simp add: tc_inv_def)
  qed
qed

interpretation conn: budget_machine conn_step conn_inv written conn_bytes "\<lambda>_. True" "U64_MAX - 2"
  by unfold_locales (use conn_step_safe in blast)

definition config_ok :: "TcpConnectionConfig \<Rightarrow> bool" where
  "config_ok c \<longleftrightarrow> cc_local_port c \<noteq> 0 \<and> cc_peer_port c \<noteq> 0 \<and> cc_sender_capacity c \<le> U64_MAX \<and>
     cc_receiver_capacity c \<le> U64_MAX \<and> 0 < cf_initial_rto_ms (cc_sender_config c) \<and>
     cf_initial_rto_ms (cc_sender_config c) \<le> cf_max_timer_interval_ms (cc_sender_config c) \<and>
     cf_max_timer_interval_ms (cc_sender_config c) \<le> U64_MAX \<and> 0 < cf_max_payload_size (cc_sender_config c)"

lemma tc_inv_new:
  assumes "config_ok c"
  shows "\<exists>tc. TcpConnection_new c = Some tc \<and> tc_inv [] tc"
proof -
  obtain sn where "TcpSender_new (cc_sender_capacity c) (cc_isn c) (cc_sender_config c) = Some sn" "sn_inv [] sn"
    using sn_inv_new assms unfolding config_ok_def by blast
  moreover have "sn_outstanding sn = [] \<and> sn_advertised_window sn = 1"
    using calculation(1) by (auto simp: TcpSender_new_def bind_eq_Some_conv)
  moreover obtain rc where "TcpReceiver_new (cc_receiver_capacity c) = Some rc" "rc_inv rc"
    using rc_inv_new assms unfolding config_ok_def by blast
  ultimately show ?thesis using assms
    by (simp add: TcpConnection_new_def config_ok_def tc_inv_def flight_ok_def run_simps)
qed

section \<open>Values stay within their types\<close>

text \<open>
  The model has natural numbers where the source has \<open>u64\<close> and \<open>usize\<close>. These predicates say that the
  fields of each structure are values of the types the source declares for them.
\<close>

definition ByteStream_in_range :: "ByteStream \<Rightarrow> bool" where
  "ByteStream_in_range s \<longleftrightarrow> bs_capacity s \<le> U64_MAX \<and> bs_buffered s \<le> U64_MAX \<and> bs_pushed s \<le> U64_MAX \<and> bs_popped s \<le> U64_MAX"

definition Reassembler_in_range :: "Reassembler \<Rightarrow> bool" where
  "Reassembler_in_range r \<longleftrightarrow> ByteStream_in_range (ra_output r) \<and> (\<forall>e. ra_eof r = Some e \<longrightarrow> e \<le> U64_MAX) \<and>
     (\<forall>(k, d) \<in> set (ra_pending r). k + length d \<le> U64_MAX)"

definition Timer_in_range :: "Timer \<Rightarrow> bool" where
  "Timer_in_range t \<longleftrightarrow> tm_elapsed_ms t \<le> U64_MAX \<and> tm_timeout_ms t \<le> U64_MAX"

definition TcpSender_in_range :: "TcpSender \<Rightarrow> bool" where
  "TcpSender_in_range sn \<longleftrightarrow> ByteStream_in_range (sn_outbound sn) \<and> sn_una sn \<le> U64_MAX \<and> sn_nxt sn \<le> U64_MAX \<and>
     sn_advertised_window sn \<le> U64_MAX \<and> sn_current_rto_ms sn \<le> U64_MAX \<and> sn_persist_interval_ms sn \<le> U64_MAX \<and>
     sn_consecutive_retransmissions sn \<le> U64_MAX \<and> Timer_in_range (sn_timer sn) \<and>
     (\<forall>s \<in> set (sn_outstanding sn). os_absolute_start s + length (symbols (os_message s)) \<le> U64_MAX)"

definition TcpConnection_in_range :: "TcpConnection \<Rightarrow> bool" where
  "TcpConnection_in_range tc \<longleftrightarrow> TcpSender_in_range (tc_sender tc) \<and> Reassembler_in_range (rc_reassembler (tc_receiver tc))"

lemma bs_wf_in_range: "bs_wf s \<Longrightarrow> ByteStream_in_range s"
  by (auto simp: bs_wf_def ByteStream_in_range_def)

lemma ra_inv_in_range:
  assumes "ra_inv r"
  shows "Reassembler_in_range r"
proof -
  have wf: "ra_wf r" "stored_ok r" "bs_wf (ra_output r)" using assms by (auto simp: ra_inv_def ra_wf_def stored_ok_def)
  have "k + length d \<le> U64_MAX" if "(k, d) \<in> set (ra_pending r)" for k d
  proof -
    have "frags r k = Some d" using that wf(2) bt_get_iff [of "ra_pending r" k d] by (simp add: stored_ok_def)
    then show ?thesis using wf(2) by (fastforce simp: stored_ok_def window_end_def saturating_add_def)
  qed
  then show ?thesis using wf bs_wf_in_range [OF wf(3)] by (auto simp: Reassembler_in_range_def ra_wf_def)
qed

lemma tiles_in_range:
  "tiles isn W a ss b \<Longrightarrow> s \<in> set ss \<Longrightarrow> os_absolute_start s + length (symbols (os_message s)) \<le> b"
  by (induction ss arbitrary: a) (auto dest: tiles_le)

lemma tc_inv_in_range:
  assumes "tc_inv W tc"
  shows "TcpConnection_in_range tc"
proof -
  let ?sn = "tc_sender tc"
  have inv: "sent_ok W ?sn" "timer_ok ?sn" "rto_ok ?sn" "sn_advertised_window ?sn \<le> U16_MAX" "ra_inv (rc_reassembler (tc_receiver tc))"
    using assms by (auto simp: tc_inv_def sn_inv_def rc_inv_def)
  note b = sent_ok_bounds [OF inv(1)]
  have "Timer_in_range (sn_timer ?sn)"
    using inv(2,3) by (auto simp: Timer_in_range_def timer_ok_def rto_ok_def split: if_splits)
  moreover have "ByteStream_in_range (sn_outbound ?sn)"
    using inv(1) by (intro bs_wf_in_range) (simp add: sent_ok_def outbound_ok_def)
  moreover have "os_absolute_start s + length (symbols (os_message s)) \<le> U64_MAX" if "s \<in> set (sn_outstanding ?sn)" for s
    using tiles_in_range [OF _ that] inv(1) b(3) le_trans unfolding sent_ok_def by blast
  ultimately have "TcpSender_in_range ?sn"
    using b inv(3,4) by (auto simp: TcpSender_in_range_def rto_ok_def)
  then show ?thesis using ra_inv_in_range [OF inv(5)] by (simp add: TcpConnection_in_range_def)
qed

section \<open>Properties\<close>

text \<open>
  C25. An endpoint with a valid configuration never panics, whatever its application and its peer do:
  connects, writes, reads, closes, ticks and arbitrary segments from the network, in any order.
\<close>

theorem connection_never_panics:
  assumes "config_ok c" and "sum_list (map conn_bytes ops) + 2 \<le> U64_MAX"
  shows "\<exists>t. (do { tc \<leftarrow> TcpConnection_new c; run_all conn_step (tc, [], []) ops }) = Some t \<and> conn_inv t"
proof -
  obtain tc where new: "TcpConnection_new c = Some tc" "tc_inv [] tc" using tc_inv_new [OF assms(1)] by blast
  then show ?thesis using conn.run_budget [of "(tc, [], [])" ops] assms(2) by auto
qed

definition example_config :: TcpConnectionConfig where
  "example_config = \<lparr> cc_local_port = 9000, cc_peer_port = 8000, cc_sender_capacity = 64,
     cc_receiver_capacity = 64, cc_isn = Wrap32 77, cc_sender_config = TcpSenderConfig_default \<rparr>"

lemma example_config_ok: "config_ok example_config"
  by (simp add: config_ok_def example_config_def TcpSenderConfig_default_def)

theorem connection_never_panics_witness:
  "\<exists>t. (do { tc \<leftarrow> TcpConnection_new example_config;
      run_all conn_step (tc, [], []) [CConnect, CSegment example_segment, CWrite [1, 2], CTick 1000, CClose] })
    = Some t \<and> conn_inv t"
  using connection_never_panics [OF example_config_ok, of "[CConnect, CSegment example_segment, CWrite [1, 2], CTick 1000, CClose]"]
  by simp

text \<open>
  C26. Every number of an endpoint is a value of its Rust type: whatever the application and the peer
  do, all 64-bit counters of the sender, its timer, its stream, its outstanding segments, the receiver
  and its reassembler, with the ends of all stored segments, stay within 64 bits. Reading the integers
  of the source as natural numbers therefore loses nothing.
\<close>

theorem connection_in_range:
  assumes "config_ok c" and "sum_list (map conn_bytes ops) + 2 \<le> U64_MAX"
  shows "\<exists>tc W out. (do { tc \<leftarrow> TcpConnection_new c; run_all conn_step (tc, [], []) ops }) = Some (tc, W, out) \<and>
    TcpConnection_in_range tc"
proof -
  obtain tc where new: "TcpConnection_new c = Some tc" "tc_inv [] tc" using tc_inv_new [OF assms(1)] by blast
  then obtain t where t: "run_all conn_step (tc, [], []) ops = Some t" "conn_inv t"
    using conn.run_budget [of "(tc, [], [])" ops] assms(2) by auto
  obtain tc' W out where "t = (tc', W, out)" by (cases t)
  then show ?thesis using new(1) t tc_inv_in_range by auto
qed

theorem connection_in_range_witness:
  "\<exists>tc W out. (do { tc \<leftarrow> TcpConnection_new example_config;
      run_all conn_step (tc, [], []) [CConnect, CTick 70000, CTick 18446744073709551615, CSegment example_segment, CRead 5] })
    = Some (tc, W, out) \<and> TcpConnection_in_range tc"
  by (rule connection_in_range [OF example_config_ok]) simp

text \<open>
  C21. A segment of this connection that occupies sequence space is answered, once the peer's SYN is
  known: at least one segment goes out, and every segment that goes out carries the current
  acknowledgment and window of the receiver and, if it is not empty, a piece of the local stream. A
  segment of another connection changes nothing and is not answered.
\<close>

theorem segments_are_acknowledged:
  assumes "tc_inv W tc"
  shows "\<exists>tc' out fb. TcpConnection_receive_segment tc seg = Some (tc', out) \<and>
    TcpReceiver_send (tc_receiver tc') = Some fb \<and>
    (if TcpConnection_belongs_to_this_connection tc seg
     then (\<forall>s \<in> set out. th_ackno (ts_header s) = rm_ackno fb \<and> th_window_size (ts_header s) = rm_window_size fb \<and>
             from_endpoint W tc' fb s) \<and>
          (TcpSenderMessage_sequence_length (TcpSegment_to_sender_message seg) > 0 \<longrightarrow>
             rc_isn (tc_receiver tc') \<noteq> None \<longrightarrow> out \<noteq> [])
     else tc' = tc \<and> out = [])"
proof (cases "TcpConnection_belongs_to_this_connection tc seg")
  case True
  obtain tc' out fb where r: "TcpConnection_receive_segment tc seg = Some (tc', out)"
    "TcpReceiver_send (tc_receiver tc') = Some fb" "\<forall>s \<in> set out. from_endpoint W tc' fb s"
    "symbols (TcpSegment_to_sender_message seg) \<noteq> [] \<longrightarrow> rc_isn (tc_receiver tc') \<noteq> None \<longrightarrow> out \<noteq> []"
    using receive_segment_spec [OF assms True] unfolding emits_def by blast
  moreover have "th_ackno (ts_header s) = rm_ackno fb \<and> th_window_size (ts_header s) = rm_window_size fb"
    if "from_endpoint W tc' fb s" for s
    using that by (auto simp: from_endpoint_def TcpConnection_build_segment_def TcpSegment_from_messages_def Let_def)
  ultimately show ?thesis using True by auto
next
  case False
  then show ?thesis using send_total [of "tc_receiver tc"] assms
    by (auto simp: TcpConnection_receive_segment_def tc_inv_def)
qed

definition example_connection :: TcpConnection where
  "example_connection = the (TcpConnection_new example_config)"

theorem segments_are_acknowledged_witness:
  "\<exists>tc' out fb. TcpConnection_receive_segment example_connection example_segment = Some (tc', out) \<and>
    tc' = example_connection \<and> out = []"
proof -
  obtain tc where tc: "TcpConnection_new example_config = Some tc" "tc_inv [] tc"
    using tc_inv_new [OF example_config_ok] by blast
  have "tc_local_port tc = 9000" using tc(1) by (auto simp: TcpConnection_new_def example_config_def bind_eq_Some_conv)
  then have "\<not> TcpConnection_belongs_to_this_connection tc example_segment"
    by (simp add: TcpConnection_belongs_to_this_connection_def example_segment_def)
  then show ?thesis using segments_are_acknowledged [OF tc(2), of example_segment] tc(1)
    by (simp add: example_connection_def)
qed

end
