(* ===== verification/Icmp.thy ===== *)
theory Icmp
  imports Checksum Wire_Format
begin

text \<open>\<open>src/icmp.rs\<close>: ICMP echo messages.\<close>

section \<open>Model\<close>

definition ICMP_ECHO_REPLY :: byte where "ICMP_ECHO_REPLY = 0"
definition ICMP_ECHO_REQUEST :: byte where "ICMP_ECHO_REQUEST = 8"

abbreviation ICMP_ECHO_HEADER_LEN :: nat where "ICMP_ECHO_HEADER_LEN \<equiv> 8"

record IcmpMessage =
  ic_icmp_type :: byte
  ic_code :: byte
  ic_identifier :: u16
  ic_sequence_number :: u16
  ic_payload :: bytes

datatype IcmpParseError = MessageTooShort | InvalidChecksum

definition IcmpMessage_echo_request :: "u16 \<Rightarrow> u16 \<Rightarrow> bytes \<Rightarrow> IcmpMessage" where
  "IcmpMessage_echo_request identifier sequence_number payload =
     \<lparr> ic_icmp_type = ICMP_ECHO_REQUEST, ic_code = 0, ic_identifier = identifier,
       ic_sequence_number = sequence_number, ic_payload = payload \<rparr>"

definition IcmpMessage_echo_reply_from_request :: "IcmpMessage \<Rightarrow> IcmpMessage option" where
  "IcmpMessage_echo_reply_from_request request =
     (if ic_icmp_type request \<noteq> ICMP_ECHO_REQUEST \<or> ic_code request \<noteq> 0 then None
      else Some \<lparr> ic_icmp_type = ICMP_ECHO_REPLY, ic_code = 0, ic_identifier = ic_identifier request,
                  ic_sequence_number = ic_sequence_number request, ic_payload = ic_payload request \<rparr>)"

definition IcmpMessage_parse_bytes :: "bytes \<Rightarrow> (IcmpParseError + IcmpMessage) run" where
  "IcmpMessage_parse_bytes data =
     (if length data < ICMP_ECHO_HEADER_LEN then Some (Inl MessageTooShort)
      else do {
        valid \<leftarrow> verify_internet_checksum data;
        if \<not> valid then Some (Inl InvalidChecksum)
        else do {
          payload \<leftarrow> slice_from ICMP_ECHO_HEADER_LEN data;
          Some (Inr \<lparr> ic_icmp_type = data ! 0, ic_code = data ! 1,
                      ic_identifier = from_be16 (data ! 4) (data ! 5),
                      ic_sequence_number = from_be16 (data ! 6) (data ! 7), ic_payload = payload \<rparr>)
        }
      })"

definition IcmpMessage_serialize :: "IcmpMessage \<Rightarrow> bytes run" where
  "IcmpMessage_serialize self = do {
     let buf = [ic_icmp_type self, ic_code self] @ be16 0 @ be16 (ic_identifier self) @
           be16 (ic_sequence_number self) @ ic_payload self;
     checksum \<leftarrow> internet_checksum buf;
     Some (splice2 2 (be16 checksum) buf)
   }"

section \<open>Round trip\<close>

definition icmp_fits :: "IcmpMessage \<Rightarrow> bool" where
  "icmp_fits m \<longleftrightarrow> 8 + length (ic_payload m) \<le> 131072"

lemma icmp_serialize_eq:
  assumes "icmp_fits m"
  shows "IcmpMessage_serialize m = Some ([ic_icmp_type m, ic_code m] @
    be16 (checksum_of ([ic_icmp_type m, ic_code m] @ be16 0 @ be16 (ic_identifier m) @ be16 (ic_sequence_number m) @ ic_payload m)) @
    be16 (ic_identifier m) @ be16 (ic_sequence_number m) @ ic_payload m)"
proof -
  let ?b = "[ic_icmp_type m, ic_code m] @ be16 0 @ be16 (ic_identifier m) @ be16 (ic_sequence_number m) @ ic_payload m"
  have "internet_checksum ?b = Some (checksum_of ?b)"
    using assms by (intro internet_checksum_eq short_sum) (simp add: icmp_fits_def)
  moreover have "splice2 2 (be16 c) ?b = [ic_icmp_type m, ic_code m] @ be16 c @
      be16 (ic_identifier m) @ be16 (ic_sequence_number m) @ ic_payload m" for c
    by (rule splice2_append) simp_all
  ultimately show ?thesis by (simp only: IcmpMessage_serialize_def Let_def Option.bind.simps)
qed

lemma icmp_parse_serialized:
  assumes "icmp_fits m" and "IcmpMessage_serialize m = Some bs"
  shows "IcmpMessage_parse_bytes bs = Some (Inr m)"
proof -
  let ?p = "[ic_icmp_type m, ic_code m]" and ?s = "be16 (ic_identifier m) @ be16 (ic_sequence_number m) @ ic_payload m"
  obtain c where c: "c = checksum_of (?p @ be16 0 @ ?s)" and bs: "bs = ?p @ be16 c @ ?s"
    using icmp_serialize_eq [OF assms(1)] assms(2) by simp
  have "checksum_of bs = 0" unfolding bs c by (rule checksum_of_written) simp
  then have ver: "verify_internet_checksum bs = Some True"
    using internet_checksum_eq [OF short_sum, of bs] assms(1)
    by (simp add: verify_internet_checksum_def bs icmp_fits_def)
  have "bs ! 0 = ic_icmp_type m" "bs ! 1 = ic_code m" "from_be16 (bs ! 4) (bs ! 5) = ic_identifier m"
    "from_be16 (bs ! 6) (bs ! 7) = ic_sequence_number m" "slice_from 8 bs = Some (ic_payload m)" "\<not> length bs < 8"
    unfolding bs be16_def by (simp_all add: from_be16_be16 slice_from_def del: of_nat_unat)
  then show ?thesis unfolding IcmpMessage_parse_bytes_def ver by simp
qed

interpretation icmp_wire: wire_format IcmpMessage_serialize IcmpMessage_parse_bytes icmp_fits
  by unfold_locales (use icmp_serialize_eq icmp_parse_serialized in blast)+

lemma icmp_parse_total:
  assumes "length bs \<le> 131072"
  shows "\<exists>r. IcmpMessage_parse_bytes bs = Some r"
  using internet_checksum_eq [OF short_sum [OF assms]]
  by (auto simp: IcmpMessage_parse_bytes_def verify_internet_checksum_def slice_from_def)

text \<open>
  An echo request that has been parsed is answered by a message with the same identifier, sequence
  number and payload; the answer is serialized without a panic and parses to exactly that reply.
\<close>

lemma icmp_echo_reply_roundtrip:
  assumes "ic_icmp_type m = ICMP_ECHO_REQUEST" and "ic_code m = 0" and "8 + length (ic_payload m) \<le> 131072"
  shows "\<exists>r bs. IcmpMessage_echo_reply_from_request m = Some r \<and> IcmpMessage_serialize r = Some bs \<and>
    length bs = 8 + length (ic_payload m) \<and> IcmpMessage_parse_bytes bs = Some (Inr r) \<and>
    ic_icmp_type r = ICMP_ECHO_REPLY \<and> ic_identifier r = ic_identifier m \<and>
    ic_sequence_number r = ic_sequence_number m \<and> ic_payload r = ic_payload m"
proof -
  define r where "r = \<lparr> ic_icmp_type = ICMP_ECHO_REPLY, ic_code = 0, ic_identifier = ic_identifier m,
    ic_sequence_number = ic_sequence_number m, ic_payload = ic_payload m \<rparr>"
  have fits: "icmp_fits r" using assms(3) by (simp add: icmp_fits_def r_def)
  obtain bs where bs: "IcmpMessage_serialize r = Some bs" "IcmpMessage_parse_bytes bs = Some (Inr r)"
    using icmp_wire.roundtrip [OF fits] by blast
  moreover have "length bs = 8 + length (ic_payload m)"
    using bs(1) icmp_serialize_eq [OF fits] by (auto simp: r_def)
  ultimately show ?thesis using assms(1,2)
    by (simp add: IcmpMessage_echo_reply_from_request_def r_def)
qed

end
