(* ===== verification/Ipv4_Datagram.thy ===== *)
theory Ipv4_Datagram
  imports Checksum Wire_Format
begin

text \<open>
  \<open>src/ipv4_datagram.rs\<close>: IPv4 datagrams and their wire format. The fixed header is read through
  \<open>ref_from_bytes\<close>, which the crate \<open>zerocopy\<close> derives for the \<open>repr(C)\<close> structure; it is a parameter
  of the parser, and \<open>layout_ok\<close> states the documented layout: the fields in their order without
  padding, 16-bit fields in network byte order.
\<close>

unbundle bit_operations_syntax

section \<open>Model\<close>

abbreviation IPV4_HEADER_MIN_LEN :: nat where "IPV4_HEADER_MIN_LEN \<equiv> 20"

definition IPV4_PROTOCOL_ICMP :: byte where "IPV4_PROTOCOL_ICMP = 1"
definition IPV4_PROTOCOL_TCP :: byte where "IPV4_PROTOCOL_TCP = 6"

type_synonym Ipv4AddrBytes = octets4

record Ipv4FixedHeader =
  fh_version_ihl :: byte
  fh_dscp_ecn :: byte
  fh_total_len :: u16
  fh_identification :: u16
  fh_flags_fragment_offset :: u16
  fh_ttl :: byte
  fh_protocol :: byte
  fh_checksum :: u16
  fh_src :: octets4
  fh_dst :: octets4

datatype Ipv4ParseError =
  PacketTooShort | NotIpv4 | InvalidHeaderLength | InvalidTotalLength | InvalidChecksum

definition Ipv4FixedHeader_view ::
  "(bytes \<Rightarrow> Ipv4FixedHeader option) \<Rightarrow> bytes \<Rightarrow> Ipv4ParseError + Ipv4FixedHeader" where
  "Ipv4FixedHeader_view ref_from_bytes packet =
     (if length packet < IPV4_HEADER_MIN_LEN then Inl PacketTooShort
      else case ref_from_bytes (take IPV4_HEADER_MIN_LEN packet) of
        None \<Rightarrow> Inl PacketTooShort
      | Some header \<Rightarrow> Inr header)"

definition Ipv4FixedHeader_version :: "Ipv4FixedHeader \<Rightarrow> byte" where
  "Ipv4FixedHeader_version self = drop_bit 4 (fh_version_ihl self)"

definition Ipv4FixedHeader_ihl :: "Ipv4FixedHeader \<Rightarrow> byte" where
  "Ipv4FixedHeader_ihl self = fh_version_ihl self AND 0x0f"

record Ipv4Header =
  ih_src :: Ipv4AddrBytes
  ih_dst :: Ipv4AddrBytes
  ih_ttl :: byte
  ih_protocol :: byte
  ih_identification :: u16
  ih_flags_fragment_offset :: u16

definition Ipv4Header_new :: "octets4 \<Rightarrow> octets4 \<Rightarrow> byte \<Rightarrow> Ipv4Header" where
  "Ipv4Header_new src dst protocol =
     \<lparr> ih_src = src, ih_dst = dst, ih_ttl = 64, ih_protocol = protocol, ih_identification = 0,
       ih_flags_fragment_offset = 0x4000 \<rparr>"

definition Ipv4Header_new_tcp :: "octets4 \<Rightarrow> octets4 \<Rightarrow> Ipv4Header" where
  "Ipv4Header_new_tcp src dst = Ipv4Header_new src dst IPV4_PROTOCOL_TCP"

record Ipv4Datagram =
  dg_header :: Ipv4Header
  dg_payload :: bytes

definition Ipv4Datagram_new :: "octets4 \<Rightarrow> octets4 \<Rightarrow> byte \<Rightarrow> bytes \<Rightarrow> Ipv4Datagram" where
  "Ipv4Datagram_new src dst protocol payload =
     \<lparr> dg_header = Ipv4Header_new src dst protocol, dg_payload = payload \<rparr>"

definition Ipv4Datagram_new_tcp :: "octets4 \<Rightarrow> octets4 \<Rightarrow> bytes \<Rightarrow> Ipv4Datagram" where
  "Ipv4Datagram_new_tcp src dst payload = Ipv4Datagram_new src dst IPV4_PROTOCOL_TCP payload"

definition Ipv4Datagram_new_icmp :: "octets4 \<Rightarrow> octets4 \<Rightarrow> bytes \<Rightarrow> Ipv4Datagram" where
  "Ipv4Datagram_new_icmp src dst payload = Ipv4Datagram_new src dst IPV4_PROTOCOL_ICMP payload"

definition Ipv4Datagram_serialize :: "Ipv4Datagram \<Rightarrow> bytes run" where
  "Ipv4Datagram_serialize self = do {
     total_len \<leftarrow> add64 IPV4_HEADER_MIN_LEN (length (dg_payload self));
     _ \<leftarrow> ensure (total_len \<le> U16_MAX);
     let h = dg_header self;
     let buf = [push_bit 4 4 OR 5, 0] @ be16 (of_nat total_len) @ be16 (ih_identification h) @
           be16 (ih_flags_fragment_offset h) @ [ih_ttl h, ih_protocol h] @ be16 0 @
           octets4_bytes (ih_src h) @ octets4_bytes (ih_dst h);
     _ \<leftarrow> ensure (length buf = IPV4_HEADER_MIN_LEN);
     header_bytes \<leftarrow> slice_to IPV4_HEADER_MIN_LEN buf;
     checksum \<leftarrow> internet_checksum header_bytes;
     let buf = splice2 10 (be16 checksum) buf;
     Some (buf @ dg_payload self)
   }"

definition Ipv4Datagram_parse_bytes ::
  "(bytes \<Rightarrow> Ipv4FixedHeader option) \<Rightarrow> bytes \<Rightarrow> (Ipv4ParseError + Ipv4Datagram) run" where
  "Ipv4Datagram_parse_bytes ref_from_bytes packet =
     (case Ipv4FixedHeader_view ref_from_bytes packet of
        Inl e \<Rightarrow> Some (Inl e)
      | Inr fixed \<Rightarrow>
          (let version = Ipv4FixedHeader_version fixed;
               ihl = Ipv4FixedHeader_ihl fixed in
           if version \<noteq> 4 then Some (Inl NotIpv4)
           else let header_len = unat ihl * 4 in
           if header_len < IPV4_HEADER_MIN_LEN \<or> header_len > length packet
           then Some (Inl InvalidHeaderLength)
           else let total_len = unat (fh_total_len fixed) in
           if total_len < header_len \<or> total_len > length packet
           then Some (Inl InvalidTotalLength)
           else do {
             header_bytes \<leftarrow> slice_to header_len packet;
             valid \<leftarrow> verify_internet_checksum header_bytes;
             if \<not> valid then Some (Inl InvalidChecksum)
             else do {
               let header = \<lparr> ih_src = fh_src fixed, ih_dst = fh_dst fixed, ih_ttl = fh_ttl fixed,
                     ih_protocol = fh_protocol fixed, ih_identification = fh_identification fixed,
                     ih_flags_fragment_offset = fh_flags_fragment_offset fixed \<rparr>;
               payload \<leftarrow> slice header_len total_len packet;
               Some (Inr \<lparr> dg_header = header, dg_payload = payload \<rparr>)
             }
           }))"

definition Ipv4Datagram_parse ::
  "(bytes \<Rightarrow> Ipv4FixedHeader option) \<Rightarrow> bytes \<Rightarrow> (Ipv4ParseError + Ipv4Datagram) run" where
  "Ipv4Datagram_parse ref_from_bytes packet = Ipv4Datagram_parse_bytes ref_from_bytes packet"

section \<open>The layout of the fixed header\<close>

definition fixed_layout :: "bytes \<Rightarrow> Ipv4FixedHeader" where
  "fixed_layout p =
     \<lparr> fh_version_ihl = p ! 0, fh_dscp_ecn = p ! 1, fh_total_len = from_be16 (p ! 2) (p ! 3),
       fh_identification = from_be16 (p ! 4) (p ! 5), fh_flags_fragment_offset = from_be16 (p ! 6) (p ! 7),
       fh_ttl = p ! 8, fh_protocol = p ! 9, fh_checksum = from_be16 (p ! 10) (p ! 11),
       fh_src = (p ! 12, p ! 13, p ! 14, p ! 15), fh_dst = (p ! 16, p ! 17, p ! 18, p ! 19) \<rparr>"

definition layout_ok :: "(bytes \<Rightarrow> Ipv4FixedHeader option) \<Rightarrow> bool" where
  "layout_ok ref_from_bytes \<longleftrightarrow>
     (\<forall>p. length p = IPV4_HEADER_MIN_LEN \<longrightarrow> ref_from_bytes p = Some (fixed_layout p))"

definition repr_c :: "bytes \<Rightarrow> Ipv4FixedHeader option" where
  "repr_c p = (if length p = IPV4_HEADER_MIN_LEN then Some (fixed_layout p) else None)"

lemma layout_ok_repr_c: "layout_ok repr_c"
  by (simp add: layout_ok_def repr_c_def)

section \<open>Round trip\<close>

definition ip_front :: "Ipv4Datagram \<Rightarrow> bytes" where
  "ip_front d = [0x45, 0] @ be16 (of_nat (20 + length (dg_payload d))) @
     be16 (ih_identification (dg_header d)) @ be16 (ih_flags_fragment_offset (dg_header d)) @
     [ih_ttl (dg_header d), ih_protocol (dg_header d)]"

definition ip_back :: "Ipv4Datagram \<Rightarrow> bytes" where
  "ip_back d = octets4_bytes (ih_src (dg_header d)) @ octets4_bytes (ih_dst (dg_header d))"

lemma length_ip_parts [simp]: "length (ip_front d) = 10" "length (ip_back d) = 8"
  by (simp_all add: ip_front_def ip_back_def)

definition ip_fits :: "Ipv4Datagram \<Rightarrow> bool" where
  "ip_fits d \<longleftrightarrow> 20 + length (dg_payload d) \<le> U16_MAX"

lemma ip_serialize_eq:
  assumes "ip_fits d"
  shows "Ipv4Datagram_serialize d =
    Some (ip_front d @ be16 (checksum_of (ip_front d @ be16 0 @ ip_back d)) @ ip_back d @ dg_payload d)"
proof -
  have buf: "[push_bit 4 4 OR 5, 0] @ be16 (of_nat (20 + length (dg_payload d))) @
      be16 (ih_identification (dg_header d)) @ be16 (ih_flags_fragment_offset (dg_header d)) @
      [ih_ttl (dg_header d), ih_protocol (dg_header d)] @ be16 0 @
      octets4_bytes (ih_src (dg_header d)) @ octets4_bytes (ih_dst (dg_header d)) =
      ip_front d @ be16 0 @ ip_back d"
    by (simp add: ip_front_def ip_back_def)
  have "internet_checksum (ip_front d @ be16 0 @ ip_back d) = Some (checksum_of (ip_front d @ be16 0 @ ip_back d))"
    by (intro internet_checksum_eq short_sum) simp
  moreover have "splice2 10 (be16 c) (ip_front d @ be16 0 @ ip_back d) = ip_front d @ be16 c @ ip_back d" for c
    by (rule splice2_append) simp_all
  moreover have "slice_to 20 (ip_front d @ be16 0 @ ip_back d) = Some (ip_front d @ be16 0 @ ip_back d)"
    by (simp add: slice_to_def)
  moreover have "add64 20 (length (dg_payload d)) = Some (20 + length (dg_payload d))"
    using assms by (intro run_simps) (simp add: ip_fits_def)
  ultimately show ?thesis using assms
    unfolding Ipv4Datagram_serialize_def Let_def by (simp only: Option.bind.simps buf) (simp add: ip_fits_def)
qed

text \<open>Parsing ignores what follows the datagram, such as the padding of a short Ethernet frame.\<close>

lemma ip_parse_padded:
  assumes "layout_ok view" and "ip_fits d" and "Ipv4Datagram_serialize d = Some bs"
  shows "Ipv4Datagram_parse_bytes view (bs @ pad) = Some (Inr d)"
proof -
  define c where "c = checksum_of (ip_front d @ be16 0 @ ip_back d)"
  have bs: "bs = ip_front d @ be16 c @ ip_back d @ dg_payload d"
    using ip_serialize_eq [OF assms(2)] assms(3) by (simp add: c_def)
  let ?hd = "ip_front d @ be16 c @ ip_back d"
  have hd: "take 20 (bs @ pad) = ?hd" and len: "length (bs @ pad) = 20 + length (dg_payload d) + length pad"
    unfolding bs by simp_all
  have view: "Ipv4FixedHeader_view view (bs @ pad) = Inr (fixed_layout ?hd)"
    using assms(1) len hd by (simp add: Ipv4FixedHeader_view_def layout_ok_def)
  have total: "unat (of_nat (20 + length (dg_payload d)) :: u16) = 20 + length (dg_payload d)"
    using assms(2) unfolding unat_of_nat16 by (simp add: ip_fits_def)
  obtain a0 a1 a2 a3 b0 b1 b2 b3 where ips: "ih_src (dg_header d) = (a0, a1, a2, a3)"
    "ih_dst (dg_header d) = (b0, b1, b2, b3)"
    by (metis prod.exhaust)
  have fixed: "fixed_layout ?hd = \<lparr> fh_version_ihl = 0x45, fh_dscp_ecn = 0,
      fh_total_len = of_nat (20 + length (dg_payload d)),
      fh_identification = ih_identification (dg_header d),
      fh_flags_fragment_offset = ih_flags_fragment_offset (dg_header d), fh_ttl = ih_ttl (dg_header d),
      fh_protocol = ih_protocol (dg_header d), fh_checksum = c, fh_src = ih_src (dg_header d),
      fh_dst = ih_dst (dg_header d) \<rparr>"
    unfolding fixed_layout_def ip_front_def ip_back_def be16_def ips
    by (simp add: octets4_bytes_def from_be16_be16 del: of_nat_unat of_nat_add)
  have "verify_internet_checksum ?hd = Some True"
    using internet_checksum_eq [OF short_sum, of ?hd] checksum_of_written [of "ip_front d" "ip_back d"]
    by (simp add: verify_internet_checksum_def c_def)
  moreover have "slice_to 20 (bs @ pad) = Some ?hd" using hd len by (simp add: slice_to_def)
  moreover have "slice 20 (20 + length (dg_payload d)) (bs @ pad) = Some (dg_payload d)"
    unfolding bs by (simp add: slice_def)
  moreover have "Ipv4FixedHeader_version (fixed_layout ?hd) = 4" "unat (Ipv4FixedHeader_ihl (fixed_layout ?hd)) * 4 = 20"
    unfolding Ipv4FixedHeader_version_def Ipv4FixedHeader_ihl_def fixed by simp_all
  moreover have "unat (fh_total_len (fixed_layout ?hd)) = 20 + length (dg_payload d)"
    unfolding fixed using total by simp
  ultimately show ?thesis
    unfolding Ipv4Datagram_parse_bytes_def view sum.case Let_def using len fixed by simp
qed

lemma ip_parse_total:
  assumes "layout_ok view"
  shows "\<exists>r. Ipv4Datagram_parse_bytes view bs = Some r"
proof (cases "Ipv4FixedHeader_view view bs")
  case (Inl e)
  then show ?thesis by (simp add: Ipv4Datagram_parse_bytes_def)
next
  case (Inr h)
  have "unat (Ipv4FixedHeader_ihl h) * 4 \<le> 1020" using unat_byte_less [of "Ipv4FixedHeader_ihl h"] by simp
  then have "\<exists>v. verify_internet_checksum (take (unat (Ipv4FixedHeader_ihl h) * 4) bs) = Some v"
    using internet_checksum_eq [OF short_sum, of "take (unat (Ipv4FixedHeader_ihl h) * 4) bs"]
    by (simp add: verify_internet_checksum_def)
  then show ?thesis using Inr
    by (auto simp: Ipv4Datagram_parse_bytes_def Let_def slice_to_def slice_def)
qed


text \<open>What is parsed can be serialized again.\<close>

lemma ip_parse_fits:
  assumes "Ipv4Datagram_parse_bytes view bs = Some (Inr d)"
  shows "ip_fits d"
proof (cases "Ipv4FixedHeader_view view bs")
  case (Inl e)
  then show ?thesis using assms by (simp add: Ipv4Datagram_parse_bytes_def)
next
  case (Inr f)
  then show ?thesis using assms unat_u16_less [of "fh_total_len f"]
    by (auto simp: Ipv4Datagram_parse_bytes_def Let_def slice_def bind_eq_Some_conv ip_fits_def split: if_splits)
qed

lemma ip_parse_serialized:
  "layout_ok view \<Longrightarrow> ip_fits d \<Longrightarrow> Ipv4Datagram_serialize d = Some bs \<Longrightarrow>
     Ipv4Datagram_parse_bytes view bs = Some (Inr d)"
  using ip_parse_padded [of view d bs "[]"] by simp

interpretation ip_wire: wire_format Ipv4Datagram_serialize "Ipv4Datagram_parse_bytes repr_c" ip_fits
  by unfold_locales (use ip_serialize_eq ip_parse_serialized layout_ok_repr_c in blast)+

section \<open>Properties\<close>

text \<open>
  C33. Round trip: a datagram that fits 65535 bytes is serialized without a panic, and parsing the
  bytes, also when padding follows them, gives the datagram back.
\<close>

theorem ipv4_roundtrip:
  assumes "layout_ok ref_from_bytes" and "20 + length (dg_payload d) \<le> U16_MAX"
  shows "\<exists>bs. Ipv4Datagram_serialize d = Some bs \<and> length bs = 20 + length (dg_payload d) \<and>
    Ipv4Datagram_parse_bytes ref_from_bytes (bs @ padding) = Some (Inr d)"
proof -
  have fits: "ip_fits d" using assms(2) by (simp add: ip_fits_def)
  obtain bs where bs: "Ipv4Datagram_serialize d = Some bs" "length bs = 20 + length (dg_payload d)"
    using ip_serialize_eq [OF fits] by simp
  then show ?thesis using ip_parse_padded [OF assms(1) fits bs(1)] by simp
qed

definition example_datagram :: Ipv4Datagram where
  "example_datagram = Ipv4Datagram_new_tcp (10, 0, 0, 1) (10, 0, 0, 2) [1, 2, 3]"

theorem ipv4_roundtrip_witness:
  "\<exists>bs. Ipv4Datagram_serialize example_datagram = Some bs \<and> length bs = 23 \<and>
    Ipv4Datagram_parse_bytes repr_c (bs @ [0, 0, 0]) = Some (Inr example_datagram)"
  using ipv4_roundtrip [OF layout_ok_repr_c, of example_datagram "[0, 0, 0]"]
  by (simp add: example_datagram_def Ipv4Datagram_new_tcp_def Ipv4Datagram_new_def)



end
