(* ===== verification/Ip_Host.thy ===== *)
theory Ip_Host
  imports Tcp_Connection Icmp Ipv4_Datagram
begin

text \<open>
  \<open>src/ip_host.rs\<close>: a host with one TCP connection that also answers pings. It turns segments into
  datagrams and back. The \<open>{:?}\<close> format of the parse errors is the name of the variant.
\<close>

section \<open>Model\<close>

record IpHostConfig =
  hc_local_ip :: octets4
  hc_peer_ip :: octets4
  hc_local_port :: u16
  hc_peer_port :: u16
  hc_sender_capacity :: nat
  hc_receiver_capacity :: nat
  hc_isn :: Wrap32
  hc_sender_config :: TcpSenderConfig

definition IpHostConfig_tcp_demo :: "octets4 \<Rightarrow> octets4 \<Rightarrow> u16 \<Rightarrow> u16 \<Rightarrow> Wrap32 \<Rightarrow> IpHostConfig" where
  "IpHostConfig_tcp_demo local_ip peer_ip local_port peer_port isn =
     \<lparr> hc_local_ip = local_ip, hc_peer_ip = peer_ip, hc_local_port = local_port, hc_peer_port = peer_port,
       hc_sender_capacity = 64 * 1024, hc_receiver_capacity = 64 * 1024, hc_isn = isn,
       hc_sender_config = \<lparr> cf_initial_rto_ms = 1000, cf_max_timer_interval_ms = 60000,
                            cf_max_payload_size = 1000 \<rparr> \<rparr>"

text \<open>The fields of the two echo events: source, destination, identifier, sequence number, length.\<close>

datatype IpHostEvent =
    IncomingTcp TcpSegment
  | OutgoingTcp TcpSegment
  | TcpPayload bytes
  | IcmpEchoRequest octets4 octets4 u16 u16 nat
  | IcmpEchoReply octets4 octets4 u16 u16 nat
  | IgnoredMalformedIpv4 string
  | IgnoredMalformedTcp string
  | IgnoredMalformedIcmp string

record IpHostOutput =
  ho_datagrams :: "Ipv4Datagram list"
  ho_events :: "IpHostEvent list"

definition IpHostOutput_default :: IpHostOutput where
  "IpHostOutput_default = \<lparr> ho_datagrams = [], ho_events = [] \<rparr>"

definition IpHostOutput_extend :: "IpHostOutput \<Rightarrow> IpHostOutput \<Rightarrow> IpHostOutput" where
  "IpHostOutput_extend self other =
     self\<lparr> ho_datagrams := ho_datagrams self @ ho_datagrams other,
           ho_events := ho_events self @ ho_events other \<rparr>"

record IpHost =
  host_config :: IpHostConfig
  host_connection :: TcpConnection

fun Ipv4ParseError_debug :: "Ipv4ParseError \<Rightarrow> string" where
  "Ipv4ParseError_debug PacketTooShort = ''PacketTooShort''"
| "Ipv4ParseError_debug NotIpv4 = ''NotIpv4''"
| "Ipv4ParseError_debug InvalidHeaderLength = ''InvalidHeaderLength''"
| "Ipv4ParseError_debug InvalidTotalLength = ''InvalidTotalLength''"
| "Ipv4ParseError_debug Ipv4ParseError.InvalidChecksum = ''InvalidChecksum''"

fun TcpParseError_debug :: "TcpParseError \<Rightarrow> string" where
  "TcpParseError_debug SegmentTooShort = ''SegmentTooShort''"
| "TcpParseError_debug InvalidDataOffset = ''InvalidDataOffset''"
| "TcpParseError_debug TcpParseError.InvalidChecksum = ''InvalidChecksum''"

fun IcmpParseError_debug :: "IcmpParseError \<Rightarrow> string" where
  "IcmpParseError_debug MessageTooShort = ''MessageTooShort''"
| "IcmpParseError_debug IcmpParseError.InvalidChecksum = ''InvalidChecksum''"

definition IpHost_new :: "IpHostConfig \<Rightarrow> IpHost run" where
  "IpHost_new config = do {
     connection \<leftarrow> TcpConnection_new (TcpConnectionConfig_new (hc_local_port config)
       (hc_peer_port config) (hc_sender_capacity config) (hc_receiver_capacity config) (hc_isn config)
       (hc_sender_config config));
     Some \<lparr> host_config = config, host_connection = connection \<rparr>
   }"

definition IpHost_is_established :: "IpHost \<Rightarrow> bool run" where
  "IpHost_is_established self = TcpConnection_is_established (host_connection self)"

definition IpHost_is_finished :: "IpHost \<Rightarrow> bool" where
  "IpHost_is_finished self = TcpConnection_is_finished (host_connection self)"

fun wrap_loop :: "IpHostConfig \<Rightarrow> TcpSegment list \<Rightarrow> IpHostOutput \<Rightarrow> IpHostOutput run" where
  "wrap_loop config [] out = Some out"
| "wrap_loop config (segment # segments) out = do {
     tcp_bytes \<leftarrow> TcpSegment_serialize_ipv4 segment (hc_local_ip config) (hc_peer_ip config);
     wrap_loop config segments
       (out\<lparr> ho_events := ho_events out @ [OutgoingTcp segment],
             ho_datagrams := ho_datagrams out @
               [Ipv4Datagram_new_tcp (hc_local_ip config) (hc_peer_ip config) tcp_bytes] \<rparr>)
   }"

definition IpHost_wrap_tcp_segments :: "IpHost \<Rightarrow> TcpSegment list \<Rightarrow> IpHostOutput run" where
  "IpHost_wrap_tcp_segments self segments = wrap_loop (host_config self) segments IpHostOutput_default"

definition IpHost_connect :: "IpHost \<Rightarrow> (IpHost \<times> IpHostOutput) run" where
  "IpHost_connect self = do {
     (connection, segments) \<leftarrow> TcpConnection_connect (host_connection self);
     let self = self\<lparr> host_connection := connection \<rparr>;
     out \<leftarrow> IpHost_wrap_tcp_segments self segments;
     Some (self, out)
   }"

definition IpHost_write :: "IpHost \<Rightarrow> bytes \<Rightarrow> (IpHost \<times> nat \<times> IpHostOutput) run" where
  "IpHost_write self data = do {
     (connection, accepted, segments) \<leftarrow> TcpConnection_write (host_connection self) data;
     let self = self\<lparr> host_connection := connection \<rparr>;
     out \<leftarrow> IpHost_wrap_tcp_segments self segments;
     Some (self, accepted, out)
   }"

definition IpHost_close :: "IpHost \<Rightarrow> (IpHost \<times> IpHostOutput) run" where
  "IpHost_close self = do {
     (connection, segments) \<leftarrow> TcpConnection_close (host_connection self);
     let self = self\<lparr> host_connection := connection \<rparr>;
     out \<leftarrow> IpHost_wrap_tcp_segments self segments;
     Some (self, out)
   }"

definition IpHost_tick :: "IpHost \<Rightarrow> nat \<Rightarrow> (IpHost \<times> IpHostOutput) run" where
  "IpHost_tick self elapsed_ms = do {
     (connection, segments) \<leftarrow> TcpConnection_tick (host_connection self) elapsed_ms;
     let self = self\<lparr> host_connection := connection \<rparr>;
     out \<leftarrow> IpHost_wrap_tcp_segments self segments;
     Some (self, out)
   }"

definition IpHost_receive_icmp ::
  "IpHost \<Rightarrow> octets4 \<Rightarrow> octets4 \<Rightarrow> bytes \<Rightarrow> (IpHost \<times> IpHostOutput) run" where
  "IpHost_receive_icmp self src_ip dst_ip payload = do {
     parsed \<leftarrow> IcmpMessage_parse_bytes payload;
     (case parsed of
        Inl err \<Rightarrow> Some (self, \<lparr> ho_datagrams = [], ho_events = [IgnoredMalformedIcmp (IcmpParseError_debug err)] \<rparr>)
      | Inr message \<Rightarrow>
          (case IcmpMessage_echo_reply_from_request message of
             None \<Rightarrow> Some (self, IpHostOutput_default)
           | Some reply \<Rightarrow> do {
               let events = [IcmpEchoRequest src_ip dst_ip (ic_identifier message)
                       (ic_sequence_number message) (length (ic_payload message)),
                     IcmpEchoReply dst_ip src_ip (ic_identifier reply)
                       (ic_sequence_number reply) (length (ic_payload reply))];
               bytes \<leftarrow> IcmpMessage_serialize reply;
               Some (self, \<lparr> ho_datagrams = [Ipv4Datagram_new_icmp dst_ip src_ip bytes], ho_events = events \<rparr>)
             }))
   }"

definition IpHost_receive_tcp ::
  "IpHost \<Rightarrow> octets4 \<Rightarrow> octets4 \<Rightarrow> bytes \<Rightarrow> (IpHost \<times> IpHostOutput) run" where
  "IpHost_receive_tcp self src_ip dst_ip payload = do {
     parsed \<leftarrow> TcpSegment_parse_ipv4_bytes src_ip dst_ip payload;
     (case parsed of
        Inl err \<Rightarrow> Some (self, \<lparr> ho_datagrams = [], ho_events = [IgnoredMalformedTcp (TcpParseError_debug err)] \<rparr>)
      | Inr segment \<Rightarrow>
          if th_src_port (ts_header segment) \<noteq> tc_peer_port (host_connection self) \<or>
             th_dst_port (ts_header segment) \<noteq> tc_local_port (host_connection self)
          then Some (self, IpHostOutput_default)
          else do {
            let out = \<lparr> ho_datagrams = [], ho_events = [IncomingTcp segment] @
                  (if ts_payload segment \<noteq> [] then [TcpPayload (ts_payload segment)] else []) \<rparr>;
            (connection, responses) \<leftarrow> TcpConnection_receive_segment (host_connection self) segment;
            let self = self\<lparr> host_connection := connection \<rparr>;
            wrapped \<leftarrow> IpHost_wrap_tcp_segments self responses;
            Some (self, IpHostOutput_extend out wrapped)
          })
   }"

definition IpHost_receive_datagram :: "IpHost \<Rightarrow> Ipv4Datagram \<Rightarrow> (IpHost \<times> IpHostOutput) run" where
  "IpHost_receive_datagram self datagram =
     (let src_ip = ih_src (dg_header datagram);
          dst_ip = ih_dst (dg_header datagram) in
      if dst_ip \<noteq> hc_local_ip (host_config self) then Some (self, IpHostOutput_default)
      else if ih_protocol (dg_header datagram) = IPV4_PROTOCOL_ICMP
      then IpHost_receive_icmp self src_ip dst_ip (dg_payload datagram)
      else if ih_protocol (dg_header datagram) = IPV4_PROTOCOL_TCP \<and> src_ip = hc_peer_ip (host_config self)
      then IpHost_receive_tcp self src_ip dst_ip (dg_payload datagram)
      else Some (self, IpHostOutput_default))"

definition IpHost_receive_ipv4_bytes ::
  "(bytes \<Rightarrow> Ipv4FixedHeader option) \<Rightarrow> IpHost \<Rightarrow> bytes \<Rightarrow> (IpHost \<times> IpHostOutput) run" where
  "IpHost_receive_ipv4_bytes ref_from_bytes self packet = do {
     parsed \<leftarrow> Ipv4Datagram_parse_bytes ref_from_bytes packet;
     (case parsed of
        Inr datagram \<Rightarrow> IpHost_receive_datagram self datagram
      | Inl err \<Rightarrow> Some (self, \<lparr> ho_datagrams = [], ho_events = [IgnoredMalformedIpv4 (Ipv4ParseError_debug err)] \<rparr>))
   }"

section \<open>Safety\<close>

text \<open>
  The configured payload has to leave room for the two headers in a packet of 65535 bytes; a larger one
  makes the serialization panic.
\<close>

definition host_inv :: "bytes \<Rightarrow> IpHost \<Rightarrow> bool" where
  "host_inv W h \<longleftrightarrow> tc_inv W (host_connection h) \<and>
     cf_max_payload_size (sn_config (tc_sender (host_connection h))) \<le> 65495 \<and>
     tc_local_port (host_connection h) = hc_local_port (host_config h) \<and>
     tc_peer_port (host_connection h) = hc_peer_port (host_config h)"

text \<open>What a host gives out for its segments: one datagram to the peer for each of them, in order.\<close>

definition tcp_datagram :: "IpHostConfig \<Rightarrow> TcpSegment \<Rightarrow> Ipv4Datagram" where
  "tcp_datagram c s = Ipv4Datagram_new_tcp (hc_local_ip c) (hc_peer_ip c)
     (the (TcpSegment_serialize_ipv4 s (hc_local_ip c) (hc_peer_ip c)))"

lemma wrap_loop_eq:
  "\<forall>s \<in> set segs. 20 + length (ts_payload s) \<le> U16_MAX \<Longrightarrow> wrap_loop c segs out =
     Some (out\<lparr>ho_events := ho_events out @ map OutgoingTcp segs,
               ho_datagrams := ho_datagrams out @ map (tcp_datagram c) segs\<rparr>)"
proof (induction segs arbitrary: out)
  case (Cons s segs)
  then show ?case using serialize_eq [of s "hc_local_ip c" "hc_peer_ip c"] by (simp add: tcp_datagram_def)
qed simp

lemma wrap_eq:
  "\<forall>s \<in> set segs. 20 + length (ts_payload s) \<le> U16_MAX \<Longrightarrow> IpHost_wrap_tcp_segments h segs =
     Some \<lparr>ho_datagrams = map (tcp_datagram (host_config h)) segs, ho_events = map OutgoingTcp segs\<rparr>"
  by (simp add: IpHost_wrap_tcp_segments_def wrap_loop_eq IpHostOutput_default_def)

lemma emits_payload:
  "emits W tc out \<Longrightarrow> s \<in> set out \<Longrightarrow> length (ts_payload s) \<le> cf_max_payload_size (sn_config (tc_sender tc))"
  by (auto simp: emits_def from_endpoint_def own_message_def small_def TcpConnection_build_segment_def
      TcpSegment_from_messages_def Let_def)

lemma tcp_datagram_fits:
  assumes "length (ts_payload s) \<le> 65495"
  shows "ip_fits (tcp_datagram c s)" "TcpSegment_parse_ipv4_bytes (hc_local_ip c) (hc_peer_ip c) (dg_payload (tcp_datagram c s)) = Some (Inr s)"
proof -
  have fit: "20 + length (ts_payload s) \<le> U16_MAX" using assms by simp
  obtain bs where bs: "TcpSegment_serialize_ipv4 s (hc_local_ip c) (hc_peer_ip c) = Some bs"
    "length bs = 20 + length (ts_payload s)"
    using serialize_eq [OF fit, of "hc_local_ip c" "hc_peer_ip c"] by simp
  show "ip_fits (tcp_datagram c s)"
    "TcpSegment_parse_ipv4_bytes (hc_local_ip c) (hc_peer_ip c) (dg_payload (tcp_datagram c s)) = Some (Inr s)"
    using bs assms parse_serialized [OF fit bs(1)]
    by (simp_all add: ip_fits_def tcp_datagram_def Ipv4Datagram_new_tcp_def Ipv4Datagram_new_def)
qed

text \<open>The contract of every call: the invariant is kept, and what goes out fits packets.\<close>

definition host_answers :: "bytes \<Rightarrow> IpHost \<Rightarrow> IpHost \<Rightarrow> TcpSegment list \<Rightarrow> bool" where
  "host_answers W h h' segs \<longleftrightarrow> host_inv W h' \<and> host_config h' = host_config h \<and>
     (\<forall>s \<in> set segs. length (ts_payload s) \<le> 65495)"

definition tcp_output :: "IpHostConfig \<Rightarrow> TcpSegment list \<Rightarrow> IpHostOutput" where
  "tcp_output c segs = \<lparr>ho_datagrams = map (tcp_datagram c) segs, ho_events = map OutgoingTcp segs\<rparr>"

lemma host_answersI:
  assumes "host_inv W0 h" and "evolves W0 (host_connection h) W tc'" and "emits W tc' segs"
  shows "host_answers W h (h\<lparr>host_connection := tc'\<rparr>) segs"
    and "IpHost_wrap_tcp_segments (h\<lparr>host_connection := tc'\<rparr>) segs = Some (tcp_output (host_config h) segs)"
proof -
  have small: "\<forall>s \<in> set segs. length (ts_payload s) \<le> 65495"
    using assms emits_payload unfolding host_inv_def evolves_def by fastforce
  then show "host_answers W h (h\<lparr>host_connection := tc'\<rparr>) segs"
    using assms(1,2) by (simp add: host_answers_def host_inv_def evolves_def)
  show "IpHost_wrap_tcp_segments (h\<lparr>host_connection := tc'\<rparr>) segs = Some (tcp_output (host_config h) segs)"
    using small by (subst wrap_eq) (fastforce simp: tcp_output_def)+
qed

lemma flush_host:
  assumes "host_inv W h"
  shows "\<exists>tc' segs. IpHost_connect h = Some (h\<lparr>host_connection := tc'\<rparr>, tcp_output (host_config h) segs) \<and>
    own_step W (host_connection h) W tc' segs"
proof -
  have "tc_inv W (host_connection h)" using assms by (simp add: host_inv_def)
  from flush_sender_spec [OF this] show ?thesis using host_answersI(2) [OF assms]
    by (fastforce simp: IpHost_connect_def TcpConnection_connect_def own_step_def)
qed

lemma close_host:
  assumes "host_inv W h"
  shows "\<exists>tc' segs. IpHost_close h = Some (h\<lparr>host_connection := tc'\<rparr>, tcp_output (host_config h) segs) \<and>
    own_step W (host_connection h) W tc' segs"
proof -
  have "tc_inv W (host_connection h)" using assms by (simp add: host_inv_def)
  from close_conn_spec [OF this] show ?thesis using host_answersI(2) [OF assms]
    by (fastforce simp: IpHost_close_def own_step_def)
qed

lemma tick_host:
  assumes "host_inv W h"
  shows "\<exists>tc' segs. IpHost_tick h ms = Some (h\<lparr>host_connection := tc'\<rparr>, tcp_output (host_config h) segs) \<and>
    own_step W (host_connection h) W tc' segs"
proof -
  have "tc_inv W (host_connection h)" using assms by (simp add: host_inv_def)
  from tick_conn_spec [OF this, of ms] show ?thesis using host_answersI(2) [OF assms]
    by (fastforce simp: IpHost_tick_def own_step_def)
qed

lemma write_host:
  assumes "host_inv W h" and "length W + length d + 2 \<le> U64_MAX"
  shows "\<exists>tc' n segs. IpHost_write h d = Some (h\<lparr>host_connection := tc'\<rparr>, n, tcp_output (host_config h) segs) \<and>
    own_step W (host_connection h) (W @ take n d) tc' segs"
proof -
  have "tc_inv W (host_connection h)" using assms(1) by (simp add: host_inv_def)
  from write_conn_spec [OF this assms(2)] show ?thesis using host_answersI(2) [OF assms(1)]
    by (fastforce simp: IpHost_write_def own_step_def)
qed

text \<open>The two kinds of input.\<close>

lemma receive_tcp_host:
  assumes "host_inv W h" and "TcpSegment_parse_ipv4_bytes src dst p = Some (Inr seg)"
    and "TcpConnection_belongs_to_this_connection (host_connection h) seg"
  shows "\<exists>tc' segs evs. IpHost_receive_tcp h src dst p = Some (h\<lparr>host_connection := tc'\<rparr>,
      \<lparr>ho_datagrams = map (tcp_datagram (host_config h)) segs, ho_events = evs\<rparr>) \<and>
    TcpConnection_receive_segment (host_connection h) seg = Some (tc', segs) \<and>
    host_answers W h (h\<lparr>host_connection := tc'\<rparr>) segs"
proof -
  have "tc_inv W (host_connection h)" using assms(1) by (simp add: host_inv_def)
  from receive_segment_spec [OF this assms(3)] obtain tc' segs where r:
    "TcpConnection_receive_segment (host_connection h) seg = Some (tc', segs)"
    "evolves W (host_connection h) W tc'" "emits W tc' segs"
    by blast
  show ?thesis using host_answersI [OF assms(1) r(2,3)] r(1) assms(2,3)
    by (intro exI [of _ tc'] exI [of _ segs])
      (simp add: IpHost_receive_tcp_def IpHostOutput_extend_def TcpConnection_belongs_to_this_connection_def
        tcp_output_def Let_def)
qed

text \<open>The payload of every segment of the connection becomes an event, whether or not it is new or in order.\<close>

lemma payload_event_always:
  assumes "IpHost_receive_tcp h src dst p = Some (h', out)" and "TcpSegment_parse_ipv4_bytes src dst p = Some (Inr seg)"
    and "TcpConnection_belongs_to_this_connection (host_connection h) seg" and "ts_payload seg \<noteq> []"
  shows "TcpPayload (ts_payload seg) \<in> set (ho_events out)"
  using assms by (auto simp: IpHost_receive_tcp_def TcpConnection_belongs_to_this_connection_def IpHostOutput_extend_def
      bind_eq_Some_conv Let_def)

lemma receive_icmp_host:
  assumes "length p \<le> 65515"
  shows "\<exists>out. IpHost_receive_icmp h src dst p = Some (h, out) \<and> (\<forall>d \<in> set (ho_datagrams out). ip_fits d)"
proof -
  obtain r where r: "IcmpMessage_parse_bytes p = Some r" using icmp_parse_total [of p] assms by auto
  show ?thesis
  proof (cases r)
    case (Inl e)
    then show ?thesis using r by (simp add: IpHost_receive_icmp_def)
  next
    case (Inr m)
    have len: "8 + length (ic_payload m) = length p"
      using r Inr by (auto simp: IcmpMessage_parse_bytes_def bind_eq_Some_conv slice_from_def split: if_splits)
    show ?thesis
    proof (cases "IcmpMessage_echo_reply_from_request m")
      case None
      then show ?thesis using r Inr by (simp add: IpHost_receive_icmp_def IpHostOutput_default_def)
    next
      case (Some reply)
      then have "ic_payload reply = ic_payload m"
        by (auto simp: IcmpMessage_echo_reply_from_request_def split: if_splits)
      then have fits: "icmp_fits reply" and "8 + length (ic_payload reply) \<le> 65515"
        using len assms by (simp_all add: icmp_fits_def)
      then show ?thesis using r Inr Some icmp_serialize_eq [OF fits]
        by (simp add: IpHost_receive_icmp_def ip_fits_def Ipv4Datagram_new_icmp_def Ipv4Datagram_new_def Let_def)
    qed
  qed
qed

text \<open>What the host does not take: it stays as it is and sends nothing.\<close>

definition takes :: "IpHost \<Rightarrow> Ipv4Datagram \<Rightarrow> bool" where
  "takes h d \<longleftrightarrow> ih_dst (dg_header d) = hc_local_ip (host_config h) \<and>
     (ih_protocol (dg_header d) = IPV4_PROTOCOL_ICMP \<or>
      ih_protocol (dg_header d) = IPV4_PROTOCOL_TCP \<and> ih_src (dg_header d) = hc_peer_ip (host_config h) \<and>
      (\<exists>seg. TcpSegment_parse_ipv4_bytes (ih_src (dg_header d)) (ih_dst (dg_header d)) (dg_payload d) = Some (Inr seg) \<and>
         TcpConnection_belongs_to_this_connection (host_connection h) seg))"

lemma protocols_differ: "IPV4_PROTOCOL_TCP \<noteq> IPV4_PROTOCOL_ICMP"
  by (simp add: IPV4_PROTOCOL_TCP_def IPV4_PROTOCOL_ICMP_def)

lemma receive_ignored:
  assumes "\<not> takes h d" and "ip_fits d"
  shows "\<exists>out. IpHost_receive_datagram h d = Some (h, out) \<and> ho_datagrams out = []"
proof (cases "ih_dst (dg_header d) = hc_local_ip (host_config h) \<and> ih_protocol (dg_header d) = IPV4_PROTOCOL_TCP \<and>
    ih_src (dg_header d) = hc_peer_ip (host_config h)")
  case True
  have "length (dg_payload d) \<le> U16_MAX" using assms(2) by (simp add: ip_fits_def)
  then obtain r where r: "TcpSegment_parse_ipv4_bytes (ih_src (dg_header d)) (ih_dst (dg_header d)) (dg_payload d) = Some r"
    using parse_total by blast
  have "\<not> TcpConnection_belongs_to_this_connection (host_connection h) seg" if "r = Inr seg" for seg
    using assms(1) True r that by (simp add: takes_def)
  then show ?thesis using True r protocols_differ
    by (cases r) (auto simp: IpHost_receive_datagram_def IpHost_receive_tcp_def IpHostOutput_default_def
        TcpConnection_belongs_to_this_connection_def Let_def)
next
  case False
  then show ?thesis using assms(1) by (auto simp: IpHost_receive_datagram_def takes_def IpHostOutput_default_def Let_def)
qed

lemma receive_datagram_host:
  assumes "host_inv W h" and "ip_fits d"
  shows "\<exists>h' out. IpHost_receive_datagram h d = Some (h', out) \<and> host_inv W h' \<and> host_config h' = host_config h \<and>
    (\<forall>d \<in> set (ho_datagrams out). ip_fits d)"
proof (cases "takes h d")
  case False
  then show ?thesis using receive_ignored [OF False assms(2)] assms(1) by fastforce
next
  case True
  show ?thesis
  proof (cases "ih_protocol (dg_header d) = IPV4_PROTOCOL_ICMP")
    case icmp: True
    have "length (dg_payload d) \<le> 65515" using assms(2) by (simp add: ip_fits_def)
    from receive_icmp_host [OF this] show ?thesis using True icmp assms(1)
      by (fastforce simp: IpHost_receive_datagram_def takes_def Let_def)
  next
    case False
    then obtain seg where seg: "TcpSegment_parse_ipv4_bytes (ih_src (dg_header d)) (ih_dst (dg_header d)) (dg_payload d) = Some (Inr seg)"
      "TcpConnection_belongs_to_this_connection (host_connection h) seg"
      using True by (auto simp: takes_def)
    obtain h' segs evs where "IpHost_receive_tcp h (ih_src (dg_header d)) (ih_dst (dg_header d)) (dg_payload d) =
        Some (h', \<lparr>ho_datagrams = map (tcp_datagram (host_config h)) segs, ho_events = evs\<rparr>)" "host_answers W h h' segs"
      using receive_tcp_host [OF assms(1) seg] by blast
    then show ?thesis using True False tcp_datagram_fits(1)
      by (auto simp: IpHost_receive_datagram_def takes_def host_answers_def Let_def)
  qed
qed

lemma receive_bytes_host:
  assumes "host_inv W h" and "layout_ok view"
  shows "\<exists>h' out. IpHost_receive_ipv4_bytes view h p = Some (h', out) \<and> host_inv W h' \<and> host_config h' = host_config h \<and>
    (\<forall>d \<in> set (ho_datagrams out). ip_fits d)"
proof -
  obtain r where r: "Ipv4Datagram_parse_bytes view p = Some r" using ip_parse_total [OF assms(2)] by blast
  then show ?thesis using assms(1) receive_datagram_host [OF assms(1) ip_parse_fits, of view p]
    by (cases r) (auto simp: IpHost_receive_ipv4_bytes_def)
qed

section \<open>Executions\<close>

text \<open>
  The calls of an application and of the network in any order; the bytes accepted from the application
  and all outgoing datagrams are recorded.
\<close>

datatype host_op = HConnect | HWrite bytes | HClose | HTick nat | HPacket bytes | HDatagram Ipv4Datagram

fun host_step :: "(bytes \<Rightarrow> Ipv4FixedHeader option) \<Rightarrow>
    IpHost \<times> bytes \<times> Ipv4Datagram list \<Rightarrow> host_op \<Rightarrow> (IpHost \<times> bytes \<times> Ipv4Datagram list) run" where
  "host_step view (h, W, tx) HConnect = do {
     (h, out) \<leftarrow> IpHost_connect h; Some (h, W, tx @ ho_datagrams out) }"
| "host_step view (h, W, tx) (HWrite d) = do {
     (h, n, out) \<leftarrow> IpHost_write h d; Some (h, W @ take n d, tx @ ho_datagrams out) }"
| "host_step view (h, W, tx) HClose = do {
     (h, out) \<leftarrow> IpHost_close h; Some (h, W, tx @ ho_datagrams out) }"
| "host_step view (h, W, tx) (HTick ms) = do {
     (h, out) \<leftarrow> IpHost_tick h ms; Some (h, W, tx @ ho_datagrams out) }"
| "host_step view (h, W, tx) (HPacket p) = do {
     (h, out) \<leftarrow> IpHost_receive_ipv4_bytes view h p; Some (h, W, tx @ ho_datagrams out) }"
| "host_step view (h, W, tx) (HDatagram d) = do {
     (h, out) \<leftarrow> IpHost_receive_datagram h d; Some (h, W, tx @ ho_datagrams out) }"

fun host_bytes :: "host_op \<Rightarrow> nat" where
  "host_bytes (HWrite d) = length d"
| "host_bytes _ = 0"

fun host_good :: "host_op \<Rightarrow> bool" where
  "host_good (HDatagram d) = ip_fits d"
| "host_good _ = True"

fun host_run_inv :: "IpHost \<times> bytes \<times> Ipv4Datagram list \<Rightarrow> bool" where
  "host_run_inv (h, W, tx) \<longleftrightarrow> host_inv W h \<and> (\<forall>d \<in> set tx. ip_fits d)"

lemma own_step_answers:
  assumes "host_inv W0 h" and "own_step W0 (host_connection h) W tc' segs"
  shows "host_inv W (h\<lparr>host_connection := tc'\<rparr>)" and "\<forall>d \<in> set (ho_datagrams (tcp_output (host_config h) segs)). ip_fits d"
  using host_answersI(1) [OF assms(1), of W tc' segs] assms(2) tcp_datagram_fits(1)
  by (auto simp: own_step_def host_answers_def tcp_output_def)

lemma host_step_safe:
  assumes "layout_ok view" and "host_run_inv t" and "host_good x" and "written t + host_bytes x \<le> U64_MAX - 2"
  shows "\<exists>t'. host_step view t x = Some t' \<and> host_run_inv t' \<and> written t' \<le> written t + host_bytes x"
proof -
  obtain h W tx where t: "t = (h, W, tx)" by (cases t)
  have inv: "host_inv W h" and tx: "\<forall>d \<in> set tx. ip_fits d" using assms(2) t by auto
  show ?thesis
  proof (cases x)
    case HConnect
    then show ?thesis using flush_host [OF inv] t tx own_step_answers [OF inv] by fastforce
  next
    case (HWrite d)
    have "length W + length d + 2 \<le> U64_MAX" using assms(4) t HWrite by simp
    then show ?thesis using HWrite write_host [OF inv, of d] t tx own_step_answers [OF inv] by fastforce
  next
    case HClose
    then show ?thesis using close_host [OF inv] t tx own_step_answers [OF inv] by fastforce
  next
    case (HTick ms)
    then show ?thesis using tick_host [OF inv, of ms] t tx own_step_answers [OF inv] by fastforce
  next
    case (HPacket p)
    then show ?thesis using receive_bytes_host [OF inv assms(1), of p] t tx by fastforce
  next
    case (HDatagram d)
    then show ?thesis using receive_datagram_host [OF inv, of d] assms(3) t tx by fastforce
  qed
qed

lemma host_budget_machine:
  "layout_ok view \<Longrightarrow> budget_machine (host_step view) host_run_inv written host_bytes host_good (U64_MAX - 2)"
  by unfold_locales (rule host_step_safe)

interpretation host: budget_machine "host_step repr_c" host_run_inv written host_bytes host_good "U64_MAX - 2"
  by (rule host_budget_machine [OF layout_ok_repr_c])

definition host_config_ok :: "IpHostConfig \<Rightarrow> bool" where
  "host_config_ok c \<longleftrightarrow> hc_local_port c \<noteq> 0 \<and> hc_peer_port c \<noteq> 0 \<and> hc_sender_capacity c \<le> U64_MAX \<and>
     hc_receiver_capacity c \<le> U64_MAX \<and> 0 < cf_initial_rto_ms (hc_sender_config c) \<and>
     cf_initial_rto_ms (hc_sender_config c) \<le> cf_max_timer_interval_ms (hc_sender_config c) \<and>
     cf_max_timer_interval_ms (hc_sender_config c) \<le> U64_MAX \<and> 0 < cf_max_payload_size (hc_sender_config c) \<and>
     cf_max_payload_size (hc_sender_config c) \<le> 65495"

lemma host_inv_new:
  assumes "host_config_ok c"
  shows "\<exists>h. IpHost_new c = Some h \<and> host_inv [] h \<and> host_config h = c"
proof -
  let ?c = "\<lparr> cc_local_port = hc_local_port c, cc_peer_port = hc_peer_port c,
    cc_sender_capacity = hc_sender_capacity c, cc_receiver_capacity = hc_receiver_capacity c,
    cc_isn = hc_isn c, cc_sender_config = hc_sender_config c \<rparr>"
  have "config_ok ?c" using assms by (simp add: config_ok_def host_config_ok_def)
  then obtain tc where tc: "TcpConnection_new ?c = Some tc" "tc_inv [] tc" using tc_inv_new by blast
  have "tc_local_port tc = hc_local_port c" "tc_peer_port tc = hc_peer_port c"
    "sn_config (tc_sender tc) = hc_sender_config c"
    using tc(1) by (auto simp: TcpConnection_new_def TcpSender_new_def bind_eq_Some_conv)
  then show ?thesis using tc assms by (simp add: IpHost_new_def TcpConnectionConfig_new_def host_inv_def host_config_ok_def)
qed

section \<open>Properties\<close>

text \<open>
  C27. A host whose configuration is valid and whose payload size leaves room for the headers never
  panics: its application may connect, write, close and let time pass, and the network may deliver
  arbitrary bytes, in any order. Every datagram it emits fits an IPv4 packet, so that serializing it for
  the network does not panic either.
\<close>

theorem host_never_panics:
  assumes "layout_ok ref_from_bytes" and "host_config_ok c" and "\<forall>x \<in> set ops. host_good x"
    and "sum_list (map host_bytes ops) + 2 \<le> U64_MAX"
  shows "\<exists>h W tx. (do { h \<leftarrow> IpHost_new c; run_all (host_step ref_from_bytes) (h, [], []) ops }) = Some (h, W, tx) \<and>
    host_inv W h \<and> (\<forall>d \<in> set tx. \<exists>bs. Ipv4Datagram_serialize d = Some bs)"
proof -
  obtain h where h: "IpHost_new c = Some h" "host_inv [] h" using host_inv_new [OF assms(2)] by blast
  have "host_run_inv (h, [], [])" using h(2) by simp
  from budget_machine.run_budget [OF host_budget_machine [OF assms(1)] this, of ops] assms(3,4)
  obtain h' W tx where r: "run_all (host_step ref_from_bytes) (h, [], []) ops = Some (h', W, tx)" "host_run_inv (h', W, tx)"
    by auto
  then show ?thesis using h(1) ip_serialize_eq by auto
qed

definition example_host_config :: IpHostConfig where
  "example_host_config = IpHostConfig_tcp_demo (10, 0, 0, 2) (10, 0, 0, 1) 9000 8000 (Wrap32 5)"

lemma example_host_config_ok: "host_config_ok example_host_config"
  by (simp add: host_config_ok_def example_host_config_def IpHostConfig_tcp_demo_def)

theorem host_never_panics_witness:
  "\<exists>h W tx. (do { h \<leftarrow> IpHost_new example_host_config;
      run_all (host_step repr_c) (h, [], []) [HConnect, HPacket [1, 2], HWrite [3], HTick 1000, HClose] }) = Some (h, W, tx) \<and>
    host_inv W h"
  using host_never_panics [OF layout_ok_repr_c example_host_config_ok, of "[HConnect, HPacket [1, 2], HWrite [3], HTick 1000, HClose]"]
  by auto

text \<open>
  C37. A host answers pings: an ICMP echo request to its address, as it arrives from the network, is
  answered by exactly one datagram to the sender, which parses as the echo reply with the same
  identifier, sequence number and payload; the TCP connection is not touched.
\<close>

theorem host_answers_ping:
  assumes "layout_ok ref_from_bytes" and "IcmpMessage_serialize (IcmpMessage_echo_request ident seqno data) = Some request"
    and "length data \<le> 65507"
    and "Ipv4Datagram_serialize (Ipv4Datagram_new_icmp src (hc_local_ip (host_config h)) request) = Some packet"
  shows "\<exists>out answer reply. IpHost_receive_ipv4_bytes ref_from_bytes h packet = Some (h, out) \<and>
    ho_datagrams out = [Ipv4Datagram_new_icmp (hc_local_ip (host_config h)) src answer] \<and>
    IcmpMessage_parse_bytes answer = Some (Inr reply) \<and>
    reply = (IcmpMessage_echo_request ident seqno data)\<lparr> ic_icmp_type := ICMP_ECHO_REPLY \<rparr>"
proof -
  let ?req = "IcmpMessage_echo_request ident seqno data" and ?me = "hc_local_ip (host_config h)"
  let ?d = "Ipv4Datagram_new_icmp src ?me request"
  let ?reply = "?req\<lparr>ic_icmp_type := ICMP_ECHO_REPLY\<rparr>"
  have fits: "icmp_fits ?req" "icmp_fits ?reply"
    using assms(3) by (simp_all add: icmp_fits_def IcmpMessage_echo_request_def)
  have "length request = 8 + length data"
    using assms(2) icmp_serialize_eq [OF fits(1)] by (auto simp: IcmpMessage_echo_request_def)
  then have "ip_fits ?d" using assms(3) by (simp add: ip_fits_def Ipv4Datagram_new_icmp_def Ipv4Datagram_new_def)
  then have ip: "Ipv4Datagram_parse_bytes ref_from_bytes packet = Some (Inr ?d)"
    using ip_parse_serialized [OF assms(1) _ assms(4)] by blast
  have icmp: "IcmpMessage_parse_bytes request = Some (Inr ?req)" by (rule icmp_wire.decodes [OF fits(1) assms(2)])
  have reply: "IcmpMessage_echo_reply_from_request ?req = Some ?reply"
    by (simp add: IcmpMessage_echo_reply_from_request_def IcmpMessage_echo_request_def)
  obtain answer where answer: "IcmpMessage_serialize ?reply = Some answer" "IcmpMessage_parse_bytes answer = Some (Inr ?reply)"
    using icmp_wire.roundtrip [OF fits(2)] by blast
  have "\<exists>out. IpHost_receive_icmp h src ?me request = Some (h, out) \<and> ho_datagrams out = [Ipv4Datagram_new_icmp ?me src answer]"
    using answer(1) unfolding IpHost_receive_icmp_def icmp by (simp add: reply Let_def)
  then have "\<exists>out. IpHost_receive_ipv4_bytes ref_from_bytes h packet = Some (h, out) \<and>
      ho_datagrams out = [Ipv4Datagram_new_icmp ?me src answer]"
    unfolding IpHost_receive_ipv4_bytes_def ip
    by (simp add: IpHost_receive_datagram_def Ipv4Datagram_new_icmp_def Ipv4Datagram_new_def Ipv4Header_new_def)
  then show ?thesis using answer(2) by blast
qed

theorem host_answers_ping_witness:
  "\<exists>h packet out. IpHost_new example_host_config = Some h \<and>
     IpHost_receive_ipv4_bytes repr_c h packet = Some (h, out) \<and> length (ho_datagrams out) = 1"
proof -
  obtain h where h: "IpHost_new example_host_config = Some h" "host_config h = example_host_config"
    using host_inv_new [OF example_host_config_ok] by blast
  have "icmp_fits (IcmpMessage_echo_request 7 1 [1, 2, 3])" by (simp add: icmp_fits_def IcmpMessage_echo_request_def)
  then obtain request where req: "IcmpMessage_serialize (IcmpMessage_echo_request 7 1 [1, 2, 3]) = Some request"
    "length request = 11"
    using icmp_serialize_eq [of "IcmpMessage_echo_request 7 1 [1, 2, 3]"] by (simp add: IcmpMessage_echo_request_def)
  let ?d = "Ipv4Datagram_new_icmp (10, 0, 0, 1) (hc_local_ip (host_config h)) request"
  have "ip_fits ?d" using req(2) by (simp add: ip_fits_def Ipv4Datagram_new_icmp_def Ipv4Datagram_new_def)
  then obtain packet where "Ipv4Datagram_serialize ?d = Some packet" using ip_serialize_eq by blast
  from host_answers_ping [OF layout_ok_repr_c req(1) _ this] obtain out where
    "IpHost_receive_ipv4_bytes repr_c h packet = Some (h, out)" "length (ho_datagrams out) = 1" by auto
  then show ?thesis using h(1) by blast
qed

text \<open>
  What is not meant for the host leaves it unchanged and unanswered: datagrams to another address,
  of another protocol, TCP from another address than the peer's, malformed segments and segments of
  other ports.
\<close>

lemma host_ignores_foreign:
  assumes "ip_fits d"
    and "ih_dst (dg_header d) \<noteq> hc_local_ip (host_config h) \<or>
      ih_protocol (dg_header d) \<notin> {IPV4_PROTOCOL_ICMP, IPV4_PROTOCOL_TCP} \<or>
      ih_protocol (dg_header d) = IPV4_PROTOCOL_TCP \<and>
        (ih_src (dg_header d) \<noteq> hc_peer_ip (host_config h) \<or>
         (\<forall>seg. TcpSegment_parse_ipv4_bytes (ih_src (dg_header d)) (ih_dst (dg_header d)) (dg_payload d) = Some (Inr seg) \<longrightarrow>
            th_src_port (ts_header seg) \<noteq> tc_peer_port (host_connection h) \<or>
            th_dst_port (ts_header seg) \<noteq> tc_local_port (host_connection h)))"
  shows "\<exists>out. IpHost_receive_datagram h d = Some (h, out) \<and> ho_datagrams out = []"
proof (rule receive_ignored [OF _ assms(1)])
  show "\<not> takes h d"
    using assms(2) protocols_differ unfolding takes_def TcpConnection_belongs_to_this_connection_def by auto
qed

end
