(* ===== verification/Tcp_Network.thy ===== *)
theory Tcp_Network
  imports Tcp_Connection
begin

text \<open>
  Two endpoints (\<open>src/tcp_connection.rs\<close>) and the network between them. The network may lose, delay,
  reorder and duplicate segments: at any time it may deliver any segment that has ever been sent. The
  applications connect, write, read and close, and time passes at each endpoint, in any order.
\<close>

section \<open>Pieces of the sequence space are segments of the stream\<close>

lemma full_nth_Suc: "full S ! Suc j = (if j < length S then Octet (S ! j) else if j = length S then FIN else full S ! Suc j)"
  by (auto simp: full_def nth_append)

lemma symbols_nth:
  "k < length (sm_payload m) \<Longrightarrow> symbols m ! (of_bool (sm_syn m) + k) = Octet (sm_payload m ! k)"
  "sm_fin m \<Longrightarrow> symbols m ! (of_bool (sm_syn m) + length (sm_payload m)) = FIN"
  "sm_syn m \<Longrightarrow> symbols m ! 0 = SYN"
  "\<not> sm_syn m \<Longrightarrow> symbols m \<noteq> [] \<Longrightarrow> symbols m ! 0 \<noteq> SYN"
  by (auto simp: symbols_def nth_append nth_Cons' split: if_splits)

text \<open>The stream index of a piece at the sequence number \<open>a\<close>.\<close>

definition index_of :: "nat \<Rightarrow> TcpSenderMessage \<Rightarrow> nat" where
  "index_of a m = (if sm_syn m then 0 else a - 1)"

lemma piece_position:
  assumes "piece S a m" and "symbols m \<noteq> []"
  shows "a + of_bool (sm_syn m) = Suc (index_of a m)" and "a = 0 \<longleftrightarrow> sm_syn m"
proof -
  show zero: "a = 0 \<longleftrightarrow> sm_syn m"
    using piece_nth [OF assms(1), of 0] assms(2) full_nth_SYN [of a S] symbols_nth(3,4) [of m] by auto
  then show "a + of_bool (sm_syn m) = Suc (index_of a m)" by (auto simp: index_of_def)
qed

lemma piece_payload:
  assumes "piece S a m" and "symbols m \<noteq> []" and "k < length (sm_payload m)"
  shows "index_of a m + k < length S" and "S ! (index_of a m + k) = sm_payload m ! k"
proof -
  have "of_bool (sm_syn m) + k < length (symbols m)" using assms(3) by (simp add: length_symbols)
  from piece_nth [OF assms(1) this]
  have "full S ! Suc (index_of a m + k) = Octet (sm_payload m ! k)" "Suc (index_of a m + k) < length (full S)"
    using symbols_nth(1) [OF assms(3)] piece_position(1) [OF assms(1,2)] by (simp_all add: add.assoc [symmetric])
  then show "index_of a m + k < length S" and "S ! (index_of a m + k) = sm_payload m ! k"
    using full_nth_Suc [of S "index_of a m + k"] by (simp_all add: length_full split: if_splits)
qed

lemma piece_fin:
  assumes "piece S a m" and "symbols m \<noteq> []" and "sm_fin m"
  shows "index_of a m + length (sm_payload m) = length S"
proof -
  let ?j = "of_bool (sm_syn m) + length (sm_payload m)"
  have "?j < length (symbols m)" using assms(3) by (simp add: length_symbols)
  from piece_nth [OF assms(1) this]
  have "full S ! Suc (index_of a m + length (sm_payload m)) = FIN" "Suc (index_of a m + length (sm_payload m)) < length (full S)"
    using symbols_nth(2) [OF assms(3)] piece_position(1) [OF assms(1,2)] by (simp_all add: add.assoc [symmetric])
  then show ?thesis using full_nth_FIN by fastforce
qed

lemma piece_message:
  assumes "piece S a m" and "symbols m \<noteq> []" and "sm_seqno m = Wrap32_wrap a isn" and "\<not> sm_rst m"
  shows "carries isn (index_of a m) (sm_payload m) (sm_fin m) m"
    and "segment_of S (RInsert (index_of a m) (sm_payload m) (sm_fin m))"
proof -
  let ?i = "index_of a m" and ?n = "length (sm_payload m)"
  note pos = piece_position [OF assms(1,2)] and oct = piece_payload [OF assms(1,2)] and fin = piece_fin [OF assms(1,2)]
  show "carries isn ?i (sm_payload m) (sm_fin m) m"
    using assms(3,4) pos by (auto simp: carries_def index_of_def)
  have le: "?i + ?n \<le> length S"
  proof (cases ?n)
    case 0
    then show ?thesis using fin assms(2) piece_nth(2) [OF assms(1), of 0] pos
      by (cases "sm_fin m") (auto simp: symbols_def length_full split: if_splits)
  next
    case (Suc k)
    then show ?thesis using oct(1) [of k] by simp
  qed
  have "sm_payload m = take ?n (drop ?i S)" using oct le by (intro nth_equalityI) auto
  then show "segment_of S (RInsert ?i (sm_payload m) (sm_fin m))" using le fin by simp
qed

lemma speaks_message:
  assumes "speaks S isn m" and "\<not> sm_rst m"
  shows "message_of S isn m"
  using assms piece_message unfolding speaks_def message_of_def by blast

section \<open>The system\<close>

text \<open>
  An endpoint with what its application has written and read, and all segments it has sent.
\<close>

record Endpoint =
  ep_connection :: TcpConnection
  ep_written :: bytes
  ep_read :: bytes
  ep_sent :: "TcpSegment list"

datatype app_op = AConnect | AWrite bytes | ARead nat | AClose | ATick nat

fun app_step :: "Endpoint \<Rightarrow> app_op \<Rightarrow> Endpoint run" where
  "app_step e AConnect = do {
     (tc, segs) \<leftarrow> TcpConnection_connect (ep_connection e);
     Some (e\<lparr> ep_connection := tc, ep_sent := ep_sent e @ segs \<rparr>) }"
| "app_step e (AWrite d) = do {
     (tc, n, segs) \<leftarrow> TcpConnection_write (ep_connection e) d;
     Some (e\<lparr> ep_connection := tc, ep_written := ep_written e @ take n d, ep_sent := ep_sent e @ segs \<rparr>) }"
| "app_step e (ARead n) = do {
     (rc, out) \<leftarrow> receiver_step (tc_receiver (ep_connection e), ep_read e) (TRead n);
     Some (e\<lparr> ep_connection := (ep_connection e)\<lparr> tc_receiver := rc \<rparr>, ep_read := out \<rparr>) }"
| "app_step e AClose = do {
     (tc, segs) \<leftarrow> TcpConnection_close (ep_connection e);
     Some (e\<lparr> ep_connection := tc, ep_sent := ep_sent e @ segs \<rparr>) }"
| "app_step e (ATick ms) = do {
     (tc, segs) \<leftarrow> TcpConnection_tick (ep_connection e) ms;
     Some (e\<lparr> ep_connection := tc, ep_sent := ep_sent e @ segs \<rparr>) }"

definition deliver :: "Endpoint \<Rightarrow> TcpSegment \<Rightarrow> Endpoint run" where
  "deliver e seg = do {
     (tc, segs) \<leftarrow> TcpConnection_receive_segment (ep_connection e) seg;
     Some (e\<lparr> ep_connection := tc, ep_sent := ep_sent e @ segs \<rparr>) }"

text \<open>Sequence numbers are 64 bits wide; nobody writes more than that.\<close>

fun admissible :: "Endpoint \<Rightarrow> app_op \<Rightarrow> bool" where
  "admissible e (AWrite d) \<longleftrightarrow> length (ep_written e) + length d + 2 \<le> U64_MAX"
| "admissible e _ \<longleftrightarrow> True"

inductive net_step :: "Endpoint \<times> Endpoint \<Rightarrow> Endpoint \<times> Endpoint \<Rightarrow> bool" where
  app_left: "admissible a x \<Longrightarrow> app_step a x = Some a' \<Longrightarrow> net_step (a, b) (a', b)"
| app_right: "admissible b x \<Longrightarrow> app_step b x = Some b' \<Longrightarrow> net_step (a, b) (a, b')"
| to_right: "seg \<in> set (ep_sent a) \<Longrightarrow> deliver b seg = Some b' \<Longrightarrow> net_step (a, b) (a, b')"
| to_left: "seg \<in> set (ep_sent b) \<Longrightarrow> deliver a seg = Some a' \<Longrightarrow> net_step (a, b) (a', b)"

inductive_cases net_stepE: "net_step (a, b) s'"

definition endpoint :: "TcpConnection \<Rightarrow> Endpoint" where
  "endpoint tc = \<lparr> ep_connection = tc, ep_written = [], ep_read = [], ep_sent = [] \<rparr>"

section \<open>The invariant of one direction\<close>

text \<open>
  \<open>heard S isn seg\<close>: the segment carries no reset and either nothing or a piece of the stream \<open>S\<close>.
\<close>

definition heard :: "bytes \<Rightarrow> Wrap32 \<Rightarrow> TcpSegment \<Rightarrow> bool" where
  "heard S isn seg \<longleftrightarrow> \<not> th_rst (ts_header seg) \<and>
     (symbols (TcpSegment_to_sender_message seg) = [] \<or> speaks S isn (TcpSegment_to_sender_message seg))"

definition healthy :: "TcpConnection \<Rightarrow> bool" where
  "healthy tc \<longleftrightarrow> \<not> bs_error (sn_outbound (tc_sender tc)) \<and> \<not> bs_error (TcpReceiver_output (tc_receiver tc))"

text \<open>What an endpoint has sent lies before its next sequence number.\<close>

definition sent_by :: "bytes \<Rightarrow> TcpSender \<Rightarrow> TcpSegment \<Rightarrow> bool" where
  "sent_by W sn seg \<longleftrightarrow> heard W (sn_isn sn) seg \<and> (th_fin (ts_header seg) \<longrightarrow> sn_fin_sent sn) \<and>
     (symbols (TcpSegment_to_sender_message seg) = [] \<or>
      speaks_to W (sn_isn sn) (sn_nxt sn) (TcpSegment_to_sender_message seg))"

definition all_heard :: "Endpoint \<Rightarrow> bool" where
  "all_heard a \<longleftrightarrow> (\<forall>seg \<in> set (ep_sent a). sent_by (ep_written a) (tc_sender (ep_connection a)) seg)"

text \<open>
  The receiver \<open>b\<close> is consistent with every stream that the segments of \<open>a\<close> can belong to: what \<open>a\<close> has
  written so far is one of them, and remains one as it grows.
\<close>

definition receives_from :: "Endpoint \<Rightarrow> Endpoint \<Rightarrow> bool" where
  "receives_from a b \<longleftrightarrow> (\<forall>S. length S < 2147483647 \<longrightarrow>
     (\<forall>seg \<in> set (ep_sent a). heard S (sn_isn (tc_sender (ep_connection a))) seg) \<longrightarrow>
     delivering S (sn_isn (tc_sender (ep_connection a))) (tc_receiver (ep_connection b), ep_read b))"

definition ep_ok :: "Endpoint \<Rightarrow> bool" where
  "ep_ok a \<longleftrightarrow> tc_inv (ep_written a) (ep_connection a) \<and> healthy (ep_connection a) \<and> all_heard a"

lemma heard_extend:
  "heard W isn seg \<Longrightarrow> \<not> th_fin (ts_header seg) \<Longrightarrow> heard (W @ d) isn seg"
  by (auto simp: heard_def TcpSegment_to_sender_message_def intro: speaks_extend)

lemma sent_by_later:
  assumes "sent_by W sn seg" and "sn_isn sn' = sn_isn sn" and "sn_nxt sn \<le> sn_nxt sn'"
    and "sn_fin_sent sn \<longrightarrow> sn_fin_sent sn' \<and> W' = W" and "\<exists>d. W' = W @ d"
  shows "sent_by W' sn' seg"
proof (cases "th_fin (ts_header seg)")
  case True
  then show ?thesis using assms speaks_to_mono by (fastforce simp: sent_by_def)
next
  case False
  obtain d where d: "W' = W @ d" using assms(5) by blast
  have "\<not> sm_fin (TcpSegment_to_sender_message seg)" using False by (simp add: TcpSegment_to_sender_message_def)
  then show ?thesis using assms(1-3) heard_extend [OF _ False] speaks_extend(2) speaks_to_mono False
    unfolding sent_by_def d by metis
qed

lemma emits_heard:
  assumes "emits W tc segs" and "healthy tc" and "rc_inv (tc_receiver tc)" and "seg \<in> set segs"
  shows "sent_by W (tc_sender tc) seg"
proof -
  obtain fb m where fb: "TcpReceiver_send (tc_receiver tc) = Some fb"
    and seg: "seg = TcpConnection_build_segment (tc_local_port tc) (tc_peer_port tc) m fb" and m: "own_message W (tc_sender tc) m"
    using assms(1,4) by (auto simp: emits_def from_endpoint_def)
  have rst: "\<not> rm_rst fb" "\<not> sm_rst m"
    using send_total [OF assms(3)] fb assms(2) m by (auto simp: healthy_def own_message_def small_def)
  have sm: "TcpSegment_to_sender_message seg = m"
    using messages_of_segment(1) [of "tc_local_port tc" "tc_peer_port tc" m fb] rst
    by (cases m) (simp add: seg TcpConnection_build_segment_def)
  have "sm_rst (TcpSegment_to_sender_message seg) = th_rst (ts_header seg)"
    "sm_fin (TcpSegment_to_sender_message seg) = th_fin (ts_header seg)"
    by (simp_all add: TcpSegment_to_sender_message_def)
  then show ?thesis using m rst speaks_to_speaks unfolding sm heard_def own_message_def sent_by_def by auto
qed

lemma evolves_ok:
  assumes "ep_ok a" and "evolves (ep_written a) (ep_connection a) W tc" and "emits W tc segs" and "healthy tc"
  shows "ep_ok (a\<lparr>ep_connection := tc, ep_written := W, ep_sent := ep_sent a @ segs\<rparr>)"
proof -
  have ev: "tc_inv W tc" "sn_isn (tc_sender tc) = sn_isn (tc_sender (ep_connection a))"
    "sn_fin_sent (tc_sender (ep_connection a)) \<longrightarrow> sn_fin_sent (tc_sender tc) \<and> W = ep_written a"
    "\<exists>d. W = ep_written a @ d" "sn_nxt (tc_sender (ep_connection a)) \<le> sn_nxt (tc_sender tc)"
    using assms(2) by (auto simp: evolves_def)
  have old: "sent_by W (tc_sender tc) seg" if "seg \<in> set (ep_sent a)" for seg
    using assms(1) that by (intro sent_by_later [OF _ ev(2,5,3,4)]) (simp add: ep_ok_def all_heard_def)
  show ?thesis using ev(1) assms(4) old emits_heard [OF assms(3,4)]
    by (auto simp: ep_ok_def all_heard_def tc_inv_def)
qed

lemma receives_from_sent:
  assumes "receives_from a b" and "sn_isn (tc_sender (ep_connection a')) = sn_isn (tc_sender (ep_connection a))"
    and "set (ep_sent a) \<subseteq> set (ep_sent a')"
    and "tc_receiver (ep_connection b') = tc_receiver (ep_connection b)" and "ep_read b' = ep_read b"
  shows "receives_from a' b'"
  using assms unfolding receives_from_def by auto

text \<open>
  What a step does to an endpoint: it keeps its own invariant, its initial sequence number and what it
  has sent, and its receiver makes some calls, each for one of the segments \<open>ss\<close>.
\<close>

definition moves :: "TcpSegment set \<Rightarrow> Endpoint \<Rightarrow> Endpoint \<Rightarrow> bool" where
  "moves ss a a' \<longleftrightarrow> ep_ok a' \<and>
     sn_isn (tc_sender (ep_connection a')) = sn_isn (tc_sender (ep_connection a)) \<and>
     set (ep_sent a) \<subseteq> set (ep_sent a') \<and> (\<exists>d. ep_written a' = ep_written a @ d) \<and>
     (\<exists>ops. run_all receiver_step (tc_receiver (ep_connection a), ep_read a) ops =
          Some (tc_receiver (ep_connection a'), ep_read a') \<and>
        (\<forall>m. TReceive m \<in> set ops \<longrightarrow> symbols m \<noteq> [] \<and> m \<in> TcpSegment_to_sender_message ` ss))"

lemma own_step_advances:
  assumes "ep_ok a" and "own_step (ep_written a) (ep_connection a) W tc segs"
  shows "moves ss a (a\<lparr>ep_connection := tc, ep_written := W, ep_sent := ep_sent a @ segs\<rparr>)"
proof -
  have "healthy tc" using assms by (simp add: own_step_def healthy_def ep_ok_def)
  then have "ep_ok (a\<lparr>ep_connection := tc, ep_written := W, ep_sent := ep_sent a @ segs\<rparr>)"
    using assms by (intro evolves_ok) (simp_all add: own_step_def)
  then show ?thesis using assms(2)
    by (auto simp: moves_def own_step_def evolves_def intro!: exI [of _ "[]"])
qed

lemma pop_error: "ByteStream_pop s n = Some (s', d) \<Longrightarrow> bs_error s' = bs_error s"
  by (cases "bs_chunks s") (auto simp: ByteStream_pop_def bind_eq_Some_conv Let_def split: if_splits)

lemma app_advances:
  assumes "ep_ok a" and "admissible a x"
  shows "\<exists>a'. app_step a x = Some a' \<and> moves {} a a'"
proof -
  have inv: "tc_inv (ep_written a) (ep_connection a)" using assms(1) by (simp add: ep_ok_def)
  have same: "a\<lparr>ep_connection := tc, ep_written := ep_written a, ep_sent := ss\<rparr> = a\<lparr>ep_connection := tc, ep_sent := ss\<rparr>" for tc ss
    by (cases a) simp
  note adv = own_step_advances [OF assms(1)]
  show ?thesis
  proof (cases x)
    case AConnect
    then show ?thesis using flush_sender_spec [OF inv] adv [where W = "ep_written a"]
      by (fastforce simp: TcpConnection_connect_def same)
  next
    case (AWrite d)
    then show ?thesis using write_conn_spec [OF inv, of d] assms(2) adv by fastforce
  next
    case AClose
    then show ?thesis using close_conn_spec [OF inv] adv [where W = "ep_written a"] by (fastforce simp: same)
  next
    case (ATick ms)
    then show ?thesis using tick_conn_spec [OF inv, of ms] adv [where W = "ep_written a"] by (fastforce simp: same)
  next
    case (ARead n)
    let ?rc = "tc_receiver (ep_connection a)"
    have rc: "rc_inv ?rc" using inv by (simp add: tc_inv_def)
    have "rc_inv (fst (?rc, ep_read a))" using rc by simp
    from receiver.step_total [OF this TrueI, of "TRead n"]
    obtain rc' out where r: "receiver_step (?rc, ep_read a) (TRead n) = Some (rc', out)" by (metis surj_pair)
    have rc': "rc_inv rc'" using receiver.step_inv [OF _ _ r] rc by simp
    have "bs_error (TcpReceiver_output rc') = bs_error (TcpReceiver_output ?rc)"
      using r by (auto simp: bind_eq_Some_conv TcpReceiver_output_def dest!: pop_error)
    then have "ep_ok (a\<lparr>ep_connection := (ep_connection a)\<lparr>tc_receiver := rc'\<rparr>, ep_read := out\<rparr>)"
      using assms(1) rc' by (simp add: ep_ok_def healthy_def tc_inv_def all_heard_def)
    moreover have "run_all receiver_step (?rc, ep_read a) [TRead n] = Some (rc', out)" using r by simp
    ultimately have "moves {} a (a\<lparr>ep_connection := (ep_connection a)\<lparr>tc_receiver := rc'\<rparr>, ep_read := out\<rparr>)"
      unfolding moves_def by (intro conjI exI [of _ "[TRead n]"]) simp_all
    then show ?thesis using ARead r by simp
  qed
qed

lemma deliver_advances:
  assumes "ep_ok a" and "ep_ok b" and "receives_from a b" and "length (ep_written a) < 2147483647"
    and "seg \<in> set (ep_sent a)"
  shows "\<exists>b'. deliver b seg = Some b' \<and> moves (set (ep_sent a)) b b'"
proof (cases "TcpConnection_belongs_to_this_connection (ep_connection b) seg")
  case False
  then have "deliver b seg = Some b" by (simp add: deliver_def TcpConnection_receive_segment_def)
  then show ?thesis using assms(2) by (auto simp: moves_def intro!: exI [of _ "[]"])
next
  case True
  let ?m = "TcpSegment_to_sender_message seg" and ?rc = "tc_receiver (ep_connection b)"
  let ?isn = "sn_isn (tc_sender (ep_connection a))"
  have h: "heard (ep_written a) ?isn seg" using assms(1,5) by (simp add: ep_ok_def all_heard_def sent_by_def)
  have del: "delivering (ep_written a) ?isn (?rc, ep_read b)"
    using assms(1,3,4) by (auto simp: receives_from_def ep_ok_def all_heard_def sent_by_def)
  obtain tc' segs where r: "TcpConnection_receive_segment (ep_connection b) seg = Some (tc', segs)"
    "evolves (ep_written b) (ep_connection b) (ep_written b) tc'" "emits (ep_written b) tc' segs"
    "tc_receiver tc' = receiver_after ?rc ?m"
    "bs_error (sn_outbound (tc_sender tc')) = (bs_error (sn_outbound (tc_sender (ep_connection b))) \<or> th_rst (ts_header seg))"
    using receive_segment_spec [OF _ True] assms(2) unfolding ep_ok_def by blast
  have "\<exists>ops. run_all receiver_step (?rc, ep_read b) ops = Some (tc_receiver tc', ep_read b) \<and>
      (\<forall>m. TReceive m \<in> set ops \<longrightarrow> m = ?m \<and> symbols ?m \<noteq> []) \<and> \<not> bs_error (TcpReceiver_output (tc_receiver tc'))"
  proof (cases "symbols ?m = []")
    case True
    have "\<not> sm_rst ?m" using h by (simp add: heard_def TcpSegment_to_sender_message_def)
    then have "tc_receiver tc' = ?rc" using True r(4) by (simp add: receiver_after_def)
    then show ?thesis using assms(2) by (intro exI [of _ "[]"]) (simp add: ep_ok_def healthy_def)
  next
    case False
    have "message_of (ep_written a) ?isn ?m"
      using h False by (intro speaks_message) (auto simp: heard_def TcpSegment_to_sender_message_def)
    then obtain rc' where rc': "TcpReceiver_receive ?rc ?m = Some (rc', Inr ())" "delivering (ep_written a) ?isn (rc', ep_read b)"
      using receive_message_of [OF del _ assms(4)] by blast
    then have "tc_receiver tc' = rc'" "\<not> bs_error (TcpReceiver_output rc')"
      using False r(4) by (auto simp: receiver_after_def delivering_def reassembling_def TcpReceiver_output_def)
    then show ?thesis using rc'(1) False by (intro exI [of _ "[TReceive ?m]"]) simp
  qed
  then obtain ops where ops: "run_all receiver_step (?rc, ep_read b) ops = Some (tc_receiver tc', ep_read b)"
    "\<forall>m. TReceive m \<in> set ops \<longrightarrow> m = ?m \<and> symbols ?m \<noteq> []" "\<not> bs_error (TcpReceiver_output (tc_receiver tc'))"
    by blast
  have "healthy tc'" using ops(3) r(5) h assms(2) by (simp add: healthy_def ep_ok_def heard_def)
  then have "ep_ok (b\<lparr>ep_connection := tc', ep_written := ep_written b, ep_sent := ep_sent b @ segs\<rparr>)"
    by (rule evolves_ok [OF assms(2) r(2,3)])
  then have "moves (set (ep_sent a)) b (b\<lparr>ep_connection := tc', ep_written := ep_written b, ep_sent := ep_sent b @ segs\<rparr>)"
    using r(2) ops(1,2) assms(5) unfolding moves_def
    by (intro conjI exI [of _ ops]) (auto simp: evolves_def)
  moreover have "deliver b seg = Some (b\<lparr>ep_connection := tc', ep_written := ep_written b, ep_sent := ep_sent b @ segs\<rparr>)"
    using r(1) by (cases b) (simp add: deliver_def)
  ultimately show ?thesis by blast
qed

lemma receives_from_run:
  assumes "receives_from a b" and "moves (set (ep_sent a)) b b'"
  shows "receives_from a b'"
  unfolding receives_from_def
proof (intro allI impI)
  fix S
  let ?isn = "sn_isn (tc_sender (ep_connection a))"
  assume S: "length S < 2147483647" "\<forall>seg \<in> set (ep_sent a). heard S ?isn seg"
  obtain ops where ops: "run_all receiver_step (tc_receiver (ep_connection b), ep_read b) ops =
      Some (tc_receiver (ep_connection b'), ep_read b')"
    "\<forall>m. TReceive m \<in> set ops \<longrightarrow> symbols m \<noteq> [] \<and> m \<in> TcpSegment_to_sender_message ` set (ep_sent a)"
    using assms(2) by (auto simp: moves_def)
  have "message_of S ?isn m" if m: "TReceive m \<in> set ops" for m
  proof -
    obtain seg where seg: "seg \<in> set (ep_sent a)" "m = TcpSegment_to_sender_message seg" "symbols m \<noteq> []"
      using ops(2) m by blast
    then have "speaks S ?isn m" "\<not> sm_rst m"
      using S(2) by (auto simp: heard_def) (auto simp: TcpSegment_to_sender_message_def)
    then show ?thesis by (rule speaks_message)
  qed
  then show "delivering S ?isn (tc_receiver (ep_connection b'), ep_read b')"
    using delivering_run [OF _ S(1), of ?isn "(tc_receiver (ep_connection b), ep_read b)" ops] ops(1) S assms(1)
    by (auto simp: receives_from_def)
qed

lemma receives_from_sender:
  assumes "receives_from a b" and "moves ss a a'"
  shows "receives_from a' b"
  using assms by (intro receives_from_sent [OF assms(1)]) (auto simp: moves_def)

lemma advances_mono: "moves ss a a' \<Longrightarrow> ss \<subseteq> ss' \<Longrightarrow> moves ss' a a'"
  unfolding moves_def by blast

section \<open>The invariant of the system\<close>

definition net_inv :: "Endpoint \<times> Endpoint \<Rightarrow> bool" where
  "net_inv = (\<lambda>(a, b). ep_ok a \<and> ep_ok b \<and> receives_from a b \<and> receives_from b a)"

definition short :: "Endpoint \<times> Endpoint \<Rightarrow> bool" where
  "short = (\<lambda>(a, b). length (ep_written a) < 2147483647 \<and> length (ep_written b) < 2147483647)"

lemma net_inv_advances:
  assumes "net_inv (a, b)" and "moves (set (ep_sent a)) b b'"
  shows "net_inv (a, b')"
proof -
  have "receives_from a b'" "receives_from b' a"
    using assms receives_from_run receives_from_sender [OF _ assms(2)] unfolding net_inv_def by blast+
  then show ?thesis using assms by (simp add: net_inv_def moves_def)
qed

lemma net_inv_swap: "net_inv (a, b) \<longleftrightarrow> net_inv (b, a)"
  by (auto simp: net_inv_def)

lemma net_step_inv:
  assumes "net_step s s'" and "net_inv s" and "short s'"
  shows "net_inv s'"
  using assms
proof (induction rule: net_step.induct)
  case (app_left a x a' b)
  obtain a'' where "app_step a x = Some a''" "moves {} a a''"
    using app_advances [of a x] app_left by (auto simp: net_inv_def)
  then have "moves (set (ep_sent b)) a a'" using app_left(2) advances_mono by auto
  then show ?case using net_inv_advances [of b a a'] app_left.prems(1) net_inv_swap by blast
next
  case (app_right b x b' a)
  obtain b'' where "app_step b x = Some b''" "moves {} b b''"
    using app_advances [of b x] app_right by (auto simp: net_inv_def)
  then have "moves (set (ep_sent a)) b b'" using app_right(2) advances_mono by auto
  then show ?case using net_inv_advances app_right.prems(1) by blast
next
  case (to_right seg a b b')
  obtain b'' where "deliver b seg = Some b''" "moves (set (ep_sent a)) b b''"
    using deliver_advances [of a b seg] to_right by (auto simp: net_inv_def short_def)
  then show ?case using net_inv_advances to_right by auto
next
  case (to_left seg b a a')
  obtain a'' where "deliver a seg = Some a''" "moves (set (ep_sent b)) a a''"
    using deliver_advances [of b a seg] to_left by (auto simp: net_inv_def short_def)
  then show ?case using net_inv_advances [of b a a''] to_left net_inv_swap by auto
qed

lemma app_written: "app_step a x = Some a' \<Longrightarrow> length (ep_written a) \<le> length (ep_written a')"
  by (cases x) (auto simp: bind_eq_Some_conv)

lemma deliver_written: "deliver a seg = Some a' \<Longrightarrow> ep_written a' = ep_written a"
  by (auto simp: deliver_def bind_eq_Some_conv)

lemma net_step_short: "net_step s s' \<Longrightarrow> short s' \<Longrightarrow> short s"
  by (induction rule: net_step.induct) (auto simp: short_def dest!: app_written deliver_written)

lemma net_reach_inv:
  assumes "net_step\<^sup>*\<^sup>* s s'" and "net_inv s" and "short s'"
  shows "net_inv s'"
  using assms
proof (induction rule: rtranclp_induct)
  case (step s' s'')
  then show ?case using net_step_inv net_step_short by blast
qed

lemma sender_new_error: "TcpSender_new capacity isn config = Some sn \<Longrightarrow> \<not> bs_error (sn_outbound sn)"
  by (auto simp: TcpSender_new_def bind_eq_Some_conv ByteStream_new_def)

lemma net_inv_new:
  assumes "config_ok ca" and "TcpConnection_new ca = Some tca" and "config_ok cb" and "TcpConnection_new cb = Some tcb"
  shows "net_inv (endpoint tca, endpoint tcb)"
proof -
  have new: "tc_inv [] tc \<and> healthy tc \<and> delivering S isn (tc_receiver tc, [])"
    if c: "config_ok c" "TcpConnection_new c = Some tc" for c tc S isn
  proof -
    have "tc_inv [] tc" using tc_inv_new [OF c(1)] c(2) by auto
    moreover have "cc_receiver_capacity c \<le> U64_MAX" using c(1) by (simp add: config_ok_def)
    note ra = reassembling_new [OF this]
    obtain rc where rc: "TcpReceiver_new (cc_receiver_capacity c) = Some rc" "tc_receiver tc = rc"
      and sn: "TcpSender_new (cc_sender_capacity c) (cc_isn c) (cc_sender_config c) = Some (tc_sender tc)"
      using c(2) by (auto simp: TcpConnection_new_def bind_eq_Some_conv)
    have "rc_reassembler rc = \<lparr>ra_output = ByteStream_new (cc_receiver_capacity c), ra_pending = [], ra_eof = None\<rparr>"
      "rc_isn rc = None"
      using rc(1) ra(1) by (auto simp: TcpReceiver_new_def bind_eq_Some_conv)
    then have "delivering S isn (tc_receiver tc, [])" using ra(2) rc(2) by (simp add: delivering_def)
    moreover have "\<not> bs_error (sn_outbound (tc_sender tc))"
      by (rule sender_new_error [OF sn])
    ultimately show ?thesis by (auto simp: healthy_def delivering_def reassembling_def TcpReceiver_output_def)
  qed
  show ?thesis using new [OF assms(1,2)] new [OF assms(3,4)]
    by (simp add: net_inv_def ep_ok_def all_heard_def receives_from_def endpoint_def)
qed

section \<open>Consequences\<close>

definition stream_ok :: "Endpoint \<Rightarrow> Endpoint \<Rightarrow> bool" where
  "stream_ok a b \<longleftrightarrow>
     (let stream = TcpReceiver_output (tc_receiver (ep_connection b)) in
      ep_read b @ bs_contents stream = take (ByteStream_bytes_pushed stream) (ep_written a) \<and>
      (ByteStream_is_closed stream \<longrightarrow>
         ep_read b @ bs_contents stream = ep_written a \<and>
         ByteStream_is_closed (sn_outbound (tc_sender (ep_connection a)))))"

text \<open>
  A receiver that has seen the end of the stream has got a FIN: without one, a longer stream would be
  consistent with everything sent.
\<close>

lemma closed_fin_sent:
  assumes "ep_ok a" and "receives_from a b" and "length (ep_written a) < 2147483646"
    and "ra_eof (rc_reassembler (tc_receiver (ep_connection b))) \<noteq> None"
  shows "sn_fin_sent (tc_sender (ep_connection a))"
proof (rule ccontr)
  let ?W = "ep_written a" and ?isn = "sn_isn (tc_sender (ep_connection a))" and ?r = "rc_reassembler (tc_receiver (ep_connection b))"
  assume "\<not> sn_fin_sent (tc_sender (ep_connection a))"
  then have "\<forall>seg \<in> set (ep_sent a). heard ?W ?isn seg \<and> heard (?W @ [0]) ?isn seg"
    using assms(1) heard_extend by (auto simp: ep_ok_def all_heard_def sent_by_def)
  then have "delivering ?W ?isn (tc_receiver (ep_connection b), ep_read b)"
    "delivering (?W @ [0]) ?isn (tc_receiver (ep_connection b), ep_read b)"
    using assms(2,3) by (auto simp: receives_from_def)
  then have "fits ?W ?r" "fits (?W @ [0]) ?r" by (auto simp: delivering_def reassembling_def)
  then show False using assms(4) by (auto simp: fits_def)
qed

lemma net_inv_stream_ok:
  assumes "net_inv (a, b)" and "length (ep_written a) < 2147483646"
  shows "stream_ok a b"
proof -
  let ?r = "rc_reassembler (tc_receiver (ep_connection b))"
  have ok: "ep_ok a" "ep_ok b" "receives_from a b" using assms(1) by (auto simp: net_inv_def)
  then have re: "reassembling (ep_written a) (?r, ep_read b)"
    using assms(2) by (auto simp: receives_from_def ep_ok_def all_heard_def sent_by_def delivering_def)
  have "ra_inv ?r" using re by (simp add: reassembling_def reasm_inv_def)
  then have eof: "bs_closed (ra_output ?r) \<Longrightarrow> ra_eof ?r \<noteq> None" by (auto simp: ra_inv_def ra_wf_def)
  have "bs_closed (sn_outbound (tc_sender (ep_connection a)))" if "bs_closed (ra_output ?r)"
    using closed_fin_sent [OF ok(1,3) assms(2) eof [OF that]] ok(1)
    by (auto simp: ep_ok_def tc_inv_def sn_inv_def sent_ok_def)
  then show ?thesis using reassembling_output [OF re]
    by (simp add: stream_ok_def TcpReceiver_output_def stream_accessors Let_def)
qed

section \<open>Properties\<close>

text \<open>
  C1. TCP is a reliable byte stream in both directions: whatever the network loses, reorders,
  duplicates or delays and whatever the applications do, what an application has read, followed by what
  it can still read, is exactly the part of the peer's stream up to the acknowledged byte; and an end
  of stream is seen only when the peer has closed and everything it wrote has arrived. (Sequence
  numbers are unambiguous for streams of less than 2 GiB.)
\<close>

theorem reliable_byte_stream:
  assumes "config_ok ca" and "TcpConnection_new ca = Some tca" and "config_ok cb" and "TcpConnection_new cb = Some tcb"
    and "net_step\<^sup>*\<^sup>* (endpoint tca, endpoint tcb) (a, b)"
    and "length (ep_written a) < 2147483646" and "length (ep_written b) < 2147483646"
  shows "stream_ok a b \<and> stream_ok b a"
proof -
  have "net_inv (a, b)"
    using net_reach_inv [OF assms(5) net_inv_new [OF assms(1-4)]] assms(6,7) by (simp add: short_def)
  then show ?thesis using net_inv_stream_ok net_inv_swap assms(6,7) by blast
qed

definition example_peer_config :: TcpConnectionConfig where
  "example_peer_config = \<lparr> cc_local_port = 8000, cc_peer_port = 9000, cc_sender_capacity = 64,
     cc_receiver_capacity = 64, cc_isn = Wrap32 5, cc_sender_config = TcpSenderConfig_default \<rparr>"

lemma example_peer_config_ok: "config_ok example_peer_config"
  by (simp add: config_ok_def example_peer_config_def TcpSenderConfig_default_def)

text \<open>A run: the left application writes three bytes.\<close>

lemma example_write:
  assumes "TcpConnection_new example_config = Some tca" and "app_step (endpoint tca) (AWrite [1, 2, 3]) = Some a"
  shows "ep_written a = [1, 2, 3]"
  using assms by (auto simp: TcpConnection_new_def TcpSender_new_def example_config_def TcpConnection_write_def bind_eq_Some_conv
      endpoint_def ByteStream_push_def ByteStream_new_def run_simps TcpSenderConfig_default_def Let_def
      ByteStream_available_capacity_def split: if_splits)

lemma example_run:
  assumes "TcpConnection_new example_config = Some tca" and "TcpConnection_new example_peer_config = Some tcb"
  shows "\<exists>a b. net_step\<^sup>*\<^sup>* (endpoint tca, endpoint tcb) (a, b) \<and> ep_ok a \<and> net_inv (a, b) \<and>
    ep_written a = [1, 2, 3] \<and> ep_written b = []"
proof -
  have inv: "net_inv (endpoint tca, endpoint tcb)"
    using net_inv_new [OF example_config_ok assms(1) example_peer_config_ok assms(2)] .
  then have "ep_ok (endpoint tca)" by (simp add: net_inv_def)
  moreover have adm: "admissible (endpoint tca) (AWrite [1, 2, 3])" by (simp add: endpoint_def)
  ultimately obtain a where a: "app_step (endpoint tca) (AWrite [1, 2, 3]) = Some a"
    using app_advances by blast
  have step: "net_step (endpoint tca, endpoint tcb) (a, endpoint tcb)" by (rule app_left [OF adm a])
  have len: "ep_written a = [1, 2, 3]" by (rule example_write [OF assms(1) a])
  then have "net_inv (a, endpoint tcb)" using net_step_inv [OF step inv] by (simp add: short_def endpoint_def)
  then show ?thesis using step len by (intro exI [of _ a] exI [of _ "endpoint tcb"]) (auto simp: net_inv_def endpoint_def)
qed

theorem reliable_byte_stream_witness:
  "\<exists>tca tcb a b. TcpConnection_new example_config = Some tca \<and> TcpConnection_new example_peer_config = Some tcb \<and>
    net_step\<^sup>*\<^sup>* (endpoint tca, endpoint tcb) (a, b) \<and> ep_written a = [1, 2, 3] \<and> stream_ok a b \<and> stream_ok b a"
proof -
  obtain tca tcb where new: "TcpConnection_new example_config = Some tca" "TcpConnection_new example_peer_config = Some tcb"
    using tc_inv_new [OF example_config_ok] tc_inv_new [OF example_peer_config_ok] by blast
  obtain a b where run: "net_step\<^sup>*\<^sup>* (endpoint tca, endpoint tcb) (a, b)" "ep_written a = [1, 2, 3]" "ep_written b = []"
    using example_run [OF new] by blast
  then show ?thesis
    using reliable_byte_stream [OF example_config_ok new(1) example_peer_config_ok new(2) run(1)] new by auto
qed

text \<open>
  C18. Between two endpoints that are not reset by their applications no reset ever occurs and nothing
  panics: in every reachable state neither stream is in error, every call of an application returns,
  and so does the delivery of any segment ever sent.
\<close>

theorem network_never_panics:
  assumes "config_ok ca" and "TcpConnection_new ca = Some tca" and "config_ok cb" and "TcpConnection_new cb = Some tcb"
    and "net_step\<^sup>*\<^sup>* (endpoint tca, endpoint tcb) (a, b)"
    and "length (ep_written a) < 2147483647" and "length (ep_written b) < 2147483647"
  shows "\<not> ByteStream_has_error (TcpReceiver_output (tc_receiver (ep_connection b))) \<and>
    \<not> ByteStream_has_error (sn_outbound (tc_sender (ep_connection b))) \<and>
    (\<forall>seg \<in> set (ep_sent b). \<not> th_rst (ts_header seg)) \<and>
    (\<forall>x. admissible b x \<longrightarrow> (\<exists>b'. app_step b x = Some b')) \<and>
    (\<forall>seg \<in> set (ep_sent a). \<exists>b'. deliver b seg = Some b')"
proof -
  have inv: "net_inv (a, b)"
    using net_reach_inv [OF assms(5) net_inv_new [OF assms(1-4)]] assms(6,7) by (simp add: short_def)
  then have ok: "ep_ok a" "ep_ok b" "receives_from a b" by (auto simp: net_inv_def)
  then show ?thesis
    using app_advances [OF ok(2)] deliver_advances [OF ok(1,2,3) assms(6)]
    by (fastforce simp: ep_ok_def healthy_def all_heard_def sent_by_def heard_def stream_accessors)
qed

theorem network_never_panics_witness:
  "\<exists>tca tcb a b. TcpConnection_new example_config = Some tca \<and> TcpConnection_new example_peer_config = Some tcb \<and>
    net_step\<^sup>*\<^sup>* (endpoint tca, endpoint tcb) (a, b) \<and> (\<forall>seg \<in> set (ep_sent a). \<exists>b'. deliver b seg = Some b')"
proof -
  obtain tca tcb where new: "TcpConnection_new example_config = Some tca" "TcpConnection_new example_peer_config = Some tcb"
    using tc_inv_new [OF example_config_ok] tc_inv_new [OF example_peer_config_ok] by blast
  obtain a b where run: "net_step\<^sup>*\<^sup>* (endpoint tca, endpoint tcb) (a, b)" "ep_written a = [1, 2, 3]" "ep_written b = []"
    using example_run [OF new] by blast
  then have "length (ep_written a) < 2147483647" "length (ep_written b) < 2147483647" by simp_all
  then show ?thesis
    using network_never_panics [OF example_config_ok new(1) example_peer_config_ok new(2) run(1)] new run(1) by blast
qed

end
