(* ===== verification/Ip_Network.thy ===== *)
theory Ip_Network
  imports Ip_Host Tcp_Network
begin

text \<open>
  Two hosts (\<open>src/ip_host.rs\<close>) on an IP network, and the proof that they implement the system of two
  TCP endpoints. The network may deliver any bytes at all to a host, with one restriction: it does not
  forge TCP segments of the peer. Between them it loses, duplicates, reorders and delays packets, changes
  header fields such as the TTL, and carries echo requests and garbage.
\<close>

section \<open>The system\<close>

type_synonym host_state = "IpHost \<times> bytes \<times> Ipv4Datagram list"

text \<open>The datagram is one the host takes as the segment \<open>seg\<close> of its connection.\<close>

definition as_segment :: "IpHost \<Rightarrow> Ipv4Datagram \<Rightarrow> TcpSegment \<Rightarrow> bool" where
  "as_segment h d seg \<longleftrightarrow> ih_dst (dg_header d) = hc_local_ip (host_config h) \<and>
     ih_protocol (dg_header d) = IPV4_PROTOCOL_TCP \<and> ih_src (dg_header d) = hc_peer_ip (host_config h) \<and>
     TcpSegment_parse_ipv4_bytes (ih_src (dg_header d)) (ih_dst (dg_header d)) (dg_payload d) = Some (Inr seg) \<and>
     TcpConnection_belongs_to_this_connection (host_connection h) seg"

definition genuine :: "(bytes \<Rightarrow> Ipv4FixedHeader option) \<Rightarrow> host_state \<Rightarrow> host_state \<Rightarrow> bytes \<Rightarrow> bool" where
  "genuine view = (\<lambda>(_, _, tx) (h, _, _) p. \<forall>d seg. Ipv4Datagram_parse_bytes view p = Some (Inr d) \<longrightarrow> as_segment h d seg \<longrightarrow>
     (\<exists>d0 \<in> set tx. ih_protocol (dg_header d0) = IPV4_PROTOCOL_TCP \<and> dg_payload d0 = dg_payload d))"

fun local_op :: "host_state \<Rightarrow> host_op \<Rightarrow> bool" where
  "local_op s (HPacket p) \<longleftrightarrow> False"
| "local_op s (HDatagram d) \<longleftrightarrow> False"
| "local_op (h, W, tx) (HWrite d) \<longleftrightarrow> length W + length d + 2 \<le> U64_MAX"
| "local_op s _ \<longleftrightarrow> True"

inductive ip_step :: "(bytes \<Rightarrow> Ipv4FixedHeader option) \<Rightarrow> host_state \<times> host_state \<Rightarrow> host_state \<times> host_state \<Rightarrow> bool"
  for view where
  act_left: "local_op a x \<Longrightarrow> host_step view a x = Some a' \<Longrightarrow> ip_step view (a, b) (a', b)"
| act_right: "local_op b x \<Longrightarrow> host_step view b x = Some b' \<Longrightarrow> ip_step view (a, b) (a, b')"
| packet_right: "genuine view a b p \<Longrightarrow> host_step view b (HPacket p) = Some b' \<Longrightarrow> ip_step view (a, b) (a, b')"
| packet_left: "genuine view b a p \<Longrightarrow> host_step view a (HPacket p) = Some a' \<Longrightarrow> ip_step view (a, b) (a', b)"

section \<open>The simulation\<close>

text \<open>
  A host implements an endpoint when it has its connection, every TCP datagram it has sent holds one
  of the endpoint's segments, and each of them is in a datagram of its own. The hosts never read from the
  receiver's stream.
\<close>

definition holds_segment :: "IpHostConfig \<Rightarrow> TcpSegment list \<Rightarrow> Ipv4Datagram \<Rightarrow> bool" where
  "holds_segment c segs d \<longleftrightarrow> ih_protocol (dg_header d) = IPV4_PROTOCOL_TCP \<longrightarrow>
     (\<exists>s \<in> set segs. TcpSegment_parse_ipv4_bytes (hc_local_ip c) (hc_peer_ip c) (dg_payload d) = Some (Inr s))"

definition implements :: "IpHostConfig \<Rightarrow> host_state \<Rightarrow> Endpoint \<Rightarrow> bool" where
  "implements c = (\<lambda>(h, W, tx) e. host_config h = c \<and> host_connection h = ep_connection e \<and> W = ep_written e \<and>
     ep_read e = [] \<and> (\<forall>d \<in> set tx. holds_segment c (ep_sent e) d) \<and>
     (\<forall>s \<in> set (ep_sent e). tcp_datagram c s \<in> set tx \<and> 20 + length (ts_payload s) \<le> U16_MAX))"

definition mirrored :: "IpHostConfig \<Rightarrow> IpHostConfig \<Rightarrow> bool" where
  "mirrored ca cb \<longleftrightarrow> hc_peer_ip ca = hc_local_ip cb \<and> hc_local_ip ca = hc_peer_ip cb"

lemma holds_segment_mono: "holds_segment c segs d \<Longrightarrow> set segs \<subseteq> set segs' \<Longrightarrow> holds_segment c segs' d"
  by (auto simp: holds_segment_def)

lemma serialize_fits: "TcpSegment_serialize_ipv4 s src dst = Some bs \<Longrightarrow> 20 + length (ts_payload s) \<le> U16_MAX"
  by (auto simp: TcpSegment_serialize_ipv4_def bind_eq_Some_conv add64_def ensure_def split: if_splits)

lemma wrap_loop_sized: "wrap_loop c segs out = Some out' \<Longrightarrow> \<forall>s \<in> set segs. 20 + length (ts_payload s) \<le> U16_MAX"
  by (induction segs arbitrary: out) (auto simp: bind_eq_Some_conv dest: serialize_fits)

lemma wrap_datagrams:
  assumes "IpHost_wrap_tcp_segments h segs = Some out"
  shows "ho_datagrams out = map (tcp_datagram (host_config h)) segs"
    and "s \<in> set segs \<Longrightarrow> 20 + length (ts_payload s) \<le> U16_MAX"
proof -
  have sized: "\<forall>s \<in> set segs. 20 + length (ts_payload s) \<le> U16_MAX"
    using assms wrap_loop_sized unfolding IpHost_wrap_tcp_segments_def by blast
  then show "ho_datagrams out = map (tcp_datagram (host_config h)) segs" using wrap_eq [OF sized, of h] assms by auto
  show "s \<in> set segs \<Longrightarrow> 20 + length (ts_payload s) \<le> U16_MAX" using sized by blast
qed

lemma tcp_datagram_parses:
  assumes "20 + length (ts_payload s) \<le> U16_MAX"
  shows "TcpSegment_parse_ipv4_bytes (hc_local_ip c) (hc_peer_ip c) (dg_payload (tcp_datagram c s)) = Some (Inr s)"
  using parse_serialized [OF assms] serialize_eq [OF assms, of "hc_local_ip c" "hc_peer_ip c"]
  by (auto simp: tcp_datagram_def Ipv4Datagram_new_tcp_def Ipv4Datagram_new_def)

lemma wrap_holds:
  "IpHost_wrap_tcp_segments h segs = Some out \<Longrightarrow> d \<in> set (ho_datagrams out) \<Longrightarrow> holds_segment (host_config h) segs d"
  using wrap_datagrams tcp_datagram_parses unfolding holds_segment_def by fastforce

lemma implementsI:
  assumes "implements c (h, W, tx) e" and "IpHost_wrap_tcp_segments (h\<lparr>host_connection := tc\<rparr>) segs = Some out"
  shows "implements c (h\<lparr>host_connection := tc\<rparr>, W', tx @ ho_datagrams out)
    (e\<lparr>ep_connection := tc, ep_written := W', ep_sent := ep_sent e @ segs\<rparr>)"
proof -
  have c: "host_config h = c" using assms(1) by (simp add: implements_def)
  have new: "holds_segment c (ep_sent e @ segs) d" if "d \<in> set (ho_datagrams out)" for d
    using holds_segment_mono [OF wrap_holds [OF assms(2) that]] c by simp
  have old: "holds_segment c (ep_sent e @ segs) d" if "d \<in> set tx" for d
    using assms(1) that by (auto simp: implements_def intro: holds_segment_mono)
  show ?thesis using assms(1) new old wrap_datagrams [OF assms(2)] c by (auto simp: implements_def)
qed

fun app_of :: "host_op \<Rightarrow> app_op" where
  "app_of HConnect = AConnect"
| "app_of (HWrite d) = AWrite d"
| "app_of HClose = AClose"
| "app_of (HTick ms) = ATick ms"
| "app_of _ = AConnect"

text \<open>The calls of the application are the endpoint's calls.\<close>

lemma local_simulates:
  assumes "implements c a e" and "local_op a x" and "host_step view a x = Some a'"
  shows "\<exists>e'. admissible e (app_of x) \<and> app_step e (app_of x) = Some e' \<and> implements c a' e'"
proof -
  obtain h W tx where a: "a = (h, W, tx)" by (cases a)
  have e: "host_connection h = ep_connection e" "ep_written e = W" using assms(1) a by (auto simp: implements_def)
  note I = implementsI [OF assms(1) [unfolded a]]
  have same: "e\<lparr>ep_connection := tc, ep_written := W, ep_sent := ss\<rparr> = e\<lparr>ep_connection := tc, ep_sent := ss\<rparr>" for tc ss
    using e(2) by (cases e) simp
  show ?thesis
  proof (cases x)
    case HConnect
    then show ?thesis using assms(3) a e I [where W' = W]
      by (auto simp: IpHost_connect_def bind_eq_Some_conv same Let_def)
  next
    case (HWrite d)
    then show ?thesis using assms(2,3) a e I by (auto simp: IpHost_write_def bind_eq_Some_conv Let_def)
  next
    case HClose
    then show ?thesis using assms(3) a e I [where W' = W]
      by (auto simp: IpHost_close_def bind_eq_Some_conv same Let_def)
  next
    case (HTick ms)
    then show ?thesis using assms(3) a e I [where W' = W]
      by (auto simp: IpHost_tick_def bind_eq_Some_conv same Let_def)
  qed (use assms(2) in auto)
qed

text \<open>A packet is either the delivery of one of the peer's segments or nothing to the connection.\<close>

lemma icmp_sends_icmp:
  assumes "IpHost_receive_icmp h src dst p = Some (h', out)"
  shows "h' = h \<and> (\<forall>d \<in> set (ho_datagrams out). ih_protocol (dg_header d) = IPV4_PROTOCOL_ICMP)"
proof -
  obtain parsed where p: "IcmpMessage_parse_bytes p = Some parsed"
    using assms by (auto simp: IpHost_receive_icmp_def bind_eq_Some_conv)
  show ?thesis
  proof (cases parsed)
    case (Inr m)
    then show ?thesis using assms p
      by (cases "IcmpMessage_echo_reply_from_request m")
        (auto simp: IpHost_receive_icmp_def IpHostOutput_default_def bind_eq_Some_conv
          Ipv4Datagram_new_icmp_def Ipv4Datagram_new_def Ipv4Header_new_def Let_def)
  qed (use assms p in \<open>auto simp: IpHost_receive_icmp_def\<close>)
qed

lemma receive_tcp_cases:
  assumes "IpHost_receive_tcp h src dst p = Some (h', out)"
    and "\<And>seg. TcpSegment_parse_ipv4_bytes src dst p = Some (Inr seg) \<Longrightarrow>
      \<not> TcpConnection_belongs_to_this_connection (host_connection h) seg"
  shows "h' = h \<and> ho_datagrams out = []"
proof -
  obtain parsed where p: "TcpSegment_parse_ipv4_bytes src dst p = Some parsed"
    using assms(1) by (auto simp: IpHost_receive_tcp_def bind_eq_Some_conv)
  then show ?thesis using assms
    by (cases parsed) (auto simp: IpHost_receive_tcp_def IpHostOutput_default_def
        TcpConnection_belongs_to_this_connection_def)
qed

lemma receive_datagram_cases:
  assumes "IpHost_receive_datagram h d = Some (h', out)" and "\<And>seg. \<not> as_segment h d seg"
  shows "h' = h \<and> (\<forall>d \<in> set (ho_datagrams out). ih_protocol (dg_header d) \<noteq> IPV4_PROTOCOL_TCP)"
proof -
  let ?src = "ih_src (dg_header d)" and ?dst = "ih_dst (dg_header d)" and ?c = "host_config h"
  consider "IpHost_receive_icmp h ?src ?dst (dg_payload d) = Some (h', out)"
    | "IpHost_receive_tcp h ?src ?dst (dg_payload d) = Some (h', out)"
      "?dst = hc_local_ip ?c" "?src = hc_peer_ip ?c" "ih_protocol (dg_header d) = IPV4_PROTOCOL_TCP"
    | "h' = h" "out = IpHostOutput_default"
    using assms(1) unfolding IpHost_receive_datagram_def Let_def by (metis option.inject prod.inject)
  then show ?thesis
  proof cases
    case 1
    then show ?thesis using icmp_sends_icmp protocols_differ by auto
  next
    case 2
    then show ?thesis using receive_tcp_cases [OF 2(1)] assms(2) by (auto simp: as_segment_def)
  qed (simp add: IpHostOutput_default_def)
qed

lemma receive_segment_host:
  assumes "IpHost_receive_datagram h d = Some (h', out)" and "as_segment h d seg"
  shows "\<exists>tc segs wrapped. TcpConnection_receive_segment (host_connection h) seg = Some (tc, segs) \<and>
    h' = h\<lparr>host_connection := tc\<rparr> \<and> IpHost_wrap_tcp_segments h' segs = Some wrapped \<and>
    ho_datagrams out = ho_datagrams wrapped"
  using assms protocols_differ
  by (auto simp: IpHost_receive_datagram_def as_segment_def IpHost_receive_tcp_def IpHostOutput_extend_def
      TcpConnection_belongs_to_this_connection_def bind_eq_Some_conv Let_def split: if_splits)

lemma segment_implements:
  assumes "implements c (h, W, tx) e" and "IpHost_receive_datagram h d = Some (h', out)" and "as_segment h d seg"
  shows "\<exists>e'. deliver e seg = Some e' \<and> implements c (h', W, tx @ ho_datagrams out) e'"
proof -
  have e: "host_connection h = ep_connection e" "ep_written e = W" using assms(1) by (auto simp: implements_def)
  obtain tc segs wrapped where t: "TcpConnection_receive_segment (host_connection h) seg = Some (tc, segs)"
    "h' = h\<lparr>host_connection := tc\<rparr>" "IpHost_wrap_tcp_segments h' segs = Some wrapped" "ho_datagrams out = ho_datagrams wrapped"
    using receive_segment_host [OF assms(2,3)] by auto
  let ?e = "e\<lparr>ep_connection := tc, ep_written := W, ep_sent := ep_sent e @ segs\<rparr>"
  have "implements c (h', W, tx @ ho_datagrams out) ?e" using implementsI [OF assms(1)] t by metis
  moreover have "deliver e seg = Some ?e" using t(1) e by (cases e) (simp add: deliver_def)
  ultimately show ?thesis by blast
qed

lemma stutters:
  assumes "implements c (h, W, tx) e" and "\<forall>d \<in> set ds. ih_protocol (dg_header d) \<noteq> IPV4_PROTOCOL_TCP"
  shows "implements c (h, W, tx @ ds) e"
  using assms by (auto simp: implements_def holds_segment_def)

lemma packet_simulates:
  assumes "implements ca a ea" and "implements cb b eb" and "mirrored ca cb"
    and "genuine view a b p" and "host_step view b (HPacket p) = Some b'"
  shows "implements cb b' eb \<or> (\<exists>seg eb'. seg \<in> set (ep_sent ea) \<and> deliver eb seg = Some eb' \<and> implements cb b' eb')"
proof -
  obtain ha Wa txa h W tx where ab: "a = (ha, Wa, txa)" "b = (h, W, tx)" by (cases a, cases b)
  obtain h' out parsed where r: "Ipv4Datagram_parse_bytes view p = Some parsed"
    "(case parsed of Inr d \<Rightarrow> IpHost_receive_datagram h d
      | Inl err \<Rightarrow> Some (h, \<lparr> ho_datagrams = [], ho_events = [IgnoredMalformedIpv4 (Ipv4ParseError_debug err)] \<rparr>)) = Some (h', out)"
    "b' = (h', W, tx @ ho_datagrams out)"
    using assms(5) by (auto simp: ab IpHost_receive_ipv4_bytes_def bind_eq_Some_conv)
  show ?thesis
  proof (cases "\<exists>d seg. parsed = Inr d \<and> as_segment h d seg")
    case False
    then have "h' = h \<and> (\<forall>d \<in> set (ho_datagrams out). ih_protocol (dg_header d) \<noteq> IPV4_PROTOCOL_TCP)"
      using r(2) receive_datagram_cases [of h _ h' out] by (cases parsed) auto
    then have "implements cb b' eb" using assms(2) stutters r(3) ab by auto
    then show ?thesis by simp
  next
    case True
    then obtain d seg where d: "parsed = Inr d" "as_segment h d seg" by blast
    then obtain d0 where d0: "d0 \<in> set txa" "ih_protocol (dg_header d0) = IPV4_PROTOCOL_TCP" "dg_payload d0 = dg_payload d"
      using assms(4) r(1) unfolding genuine_def ab by auto
    then obtain s where s: "s \<in> set (ep_sent ea)"
      "TcpSegment_parse_ipv4_bytes (hc_local_ip ca) (hc_peer_ip ca) (dg_payload d) = Some (Inr s)"
      using assms(1) by (auto simp: ab implements_def holds_segment_def)
    have "seg = s" using s(2) d(2) assms(2,3) by (auto simp: as_segment_def mirrored_def implements_def ab)
    show ?thesis using segment_implements [OF assms(2) [unfolded ab(2)] _ d(2)] r(2,3) d(1) s(1) \<open>seg = s\<close> by auto
  qed
qed

lemma ip_step_simulates:
  assumes "ip_step view s s'" and "mirrored ca cb"
    and "implements ca (fst s) ea" and "implements cb (snd s) eb"
  shows "\<exists>ea' eb'. net_step\<^sup>*\<^sup>* (ea, eb) (ea', eb') \<and> implements ca (fst s') ea' \<and> implements cb (snd s') eb'"
  using assms(1,3,4)
proof (induction rule: ip_step.induct)
  case (act_left a x a' b)
  then obtain ea' where "admissible ea (app_of x)" "app_step ea (app_of x) = Some ea'" "implements ca a' ea'"
    using local_simulates [of ca a ea x view a'] by auto
  then show ?case using app_left [of ea "app_of x" ea' eb] act_left(4) by (intro exI [of _ ea'] exI [of _ eb]) auto
next
  case (act_right b x b' a)
  then obtain eb' where "admissible eb (app_of x)" "app_step eb (app_of x) = Some eb'" "implements cb b' eb'"
    using local_simulates [of cb b eb x view b'] by auto
  then show ?case using app_right [of eb "app_of x" eb' ea] act_right(3) by (intro exI [of _ ea] exI [of _ eb']) auto
next
  case (packet_right a b p b')
  then consider "implements cb b' eb" | seg eb' where "seg \<in> set (ep_sent ea)" "deliver eb seg = Some eb'" "implements cb b' eb'"
    using packet_simulates [of ca a ea cb b eb view p b'] assms(2) by auto
  then show ?case using packet_right(3) by cases (auto dest: to_right)
next
  case (packet_left b a p a')
  have "mirrored cb ca" using assms(2) by (simp add: mirrored_def)
  then consider "implements ca a' ea" | seg ea' where "seg \<in> set (ep_sent eb)" "deliver ea seg = Some ea'" "implements ca a' ea'"
    using packet_left packet_simulates [of cb b eb ca a ea view p a'] by auto
  then show ?case using packet_left(4) by cases (auto dest: to_left)
qed

lemma ip_run_simulates:
  assumes "(ip_step view)\<^sup>*\<^sup>* s s'" and "mirrored ca cb"
    and "implements ca (fst s) ea" and "implements cb (snd s) eb"
  shows "\<exists>ea' eb'. net_step\<^sup>*\<^sup>* (ea, eb) (ea', eb') \<and> implements ca (fst s') ea' \<and> implements cb (snd s') eb'"
  using assms(1)
proof (induction rule: rtranclp_induct)
  case base
  then show ?case using assms(3,4) by blast
next
  case (step s' s'')
  then show ?case using ip_step_simulates [OF step.hyps(2) assms(2)] by (meson rtranclp_trans)
qed

text \<open>What the network carries from one host to the other, with the padding of the link, is genuine.\<close>

lemma carried_genuine:
  assumes "layout_ok view" and "d \<in> set tx" and "ip_fits d" and "Ipv4Datagram_serialize d = Some bs"
  shows "genuine view (h', W', tx) (h, W, tx') bs"
  using assms ip_parse_serialized [OF assms(1,3,4)] by (auto simp: genuine_def as_segment_def)

lemma ip_parse_short: "length p < 20 \<Longrightarrow> Ipv4Datagram_parse_bytes view p = Some (Inl PacketTooShort)"
  by (simp add: Ipv4Datagram_parse_bytes_def Ipv4FixedHeader_view_def)

lemma implements_new:
  assumes "IpHost_new c = Some h"
  obtains tc where "TcpConnection_new (TcpConnectionConfig_new (hc_local_port c) (hc_peer_port c) (hc_sender_capacity c)
      (hc_receiver_capacity c) (hc_isn c) (hc_sender_config c)) = Some tc"
    and "implements c (h, [], []) (endpoint tc)"
  using assms by (auto simp: IpHost_new_def bind_eq_Some_conv implements_def endpoint_def)

lemma host_config_conn:
  "host_config_ok c \<Longrightarrow> config_ok (TcpConnectionConfig_new (hc_local_port c) (hc_peer_port c) (hc_sender_capacity c)
      (hc_receiver_capacity c) (hc_isn c) (hc_sender_config c))"
  by (simp add: config_ok_def host_config_ok_def TcpConnectionConfig_new_def)

text \<open>The endpoints behind two hosts.\<close>

definition connection_config :: "IpHostConfig \<Rightarrow> TcpConnectionConfig" where
  "connection_config c = TcpConnectionConfig_new (hc_local_port c) (hc_peer_port c) (hc_sender_capacity c)
     (hc_receiver_capacity c) (hc_isn c) (hc_sender_config c)"

lemma hosts_endpoints:
  assumes "host_config_ok ca" and "IpHost_new ca = Some ha" and "host_config_ok cb" and "IpHost_new cb = Some hb"
    and "mirrored ca cb" and "(ip_step view)\<^sup>*\<^sup>* ((ha, [], []), (hb, [], [])) (a, b)"
  obtains tca tcb ea eb where "config_ok (connection_config ca)" and "TcpConnection_new (connection_config ca) = Some tca"
    and "config_ok (connection_config cb)" and "TcpConnection_new (connection_config cb) = Some tcb"
    and "net_step\<^sup>*\<^sup>* (endpoint tca, endpoint tcb) (ea, eb)" and "implements ca a ea" and "implements cb b eb"
proof -
  obtain tca tcb where a: "TcpConnection_new (connection_config ca) = Some tca" "implements ca (ha, [], []) (endpoint tca)"
    and b: "TcpConnection_new (connection_config cb) = Some tcb" "implements cb (hb, [], []) (endpoint tcb)"
    using implements_new [OF assms(2)] implements_new [OF assms(4)] unfolding connection_config_def by metis
  obtain ea eb where "net_step\<^sup>*\<^sup>* (endpoint tca, endpoint tcb) (ea, eb)" "implements ca a ea" "implements cb b eb"
    using ip_run_simulates [OF assms(6,5), of "endpoint tca" "endpoint tcb"] a(2) b(2) by auto
  then show thesis
    using that a(1) b(1) host_config_conn [OF assms(1)] host_config_conn [OF assms(3)] unfolding connection_config_def by blast
qed

section \<open>Properties\<close>

definition hears :: "IpHost \<Rightarrow> IpHost \<Rightarrow> bytes \<Rightarrow> bool" where
  "hears b a W \<longleftrightarrow>
     (let stream = TcpReceiver_output (tc_receiver (host_connection b)) in
      bs_contents stream = take (ByteStream_bytes_pushed stream) W \<and>
      (ByteStream_is_closed stream \<longrightarrow> bs_contents stream = W \<and>
         ByteStream_is_closed (sn_outbound (tc_sender (host_connection a)))))"

lemma stream_ok_hears:
  "stream_ok ea eb \<Longrightarrow> implements ca (ha, Wa, txa) ea \<Longrightarrow> implements cb (hb, Wb, txb) eb \<Longrightarrow> hears hb ha Wa"
  by (auto simp: stream_ok_def hears_def implements_def Let_def simp del: take_all_iff)

text \<open>
  C3. Two hosts over an IP network have a reliable byte stream in each direction: whatever packets the
  network delivers to them (lost, repeated, reordered or altered datagrams of the peer, echo requests,
  datagrams of others, arbitrary bytes), as long as it does not forge TCP segments of the peer, what a
  host has received is a prefix of what the other's application has written, and is all of it once the
  stream has ended. (The streams are shorter than 2 GiB.)
\<close>

theorem hosts_have_reliable_stream:
  assumes "host_config_ok ca" and "IpHost_new ca = Some ha" and "host_config_ok cb" and "IpHost_new cb = Some hb"
    and "mirrored ca cb"
    and "(ip_step ref_from_bytes)\<^sup>*\<^sup>* ((ha, [], []), (hb, [], [])) ((ha', Wa, txa), (hb', Wb, txb))"
    and "length Wa < 2147483646" and "length Wb < 2147483646"
  shows "hears hb' ha' Wa \<and> hears ha' hb' Wb"
proof -
  obtain tca tcb ea eb where new: "config_ok (connection_config ca)" "TcpConnection_new (connection_config ca) = Some tca"
      "config_ok (connection_config cb)" "TcpConnection_new (connection_config cb) = Some tcb"
    and run: "net_step\<^sup>*\<^sup>* (endpoint tca, endpoint tcb) (ea, eb)"
    and sim: "implements ca (ha', Wa, txa) ea" "implements cb (hb', Wb, txb) eb"
    by (rule hosts_endpoints [OF assms(1-6)])
  have "ep_written ea = Wa" "ep_written eb = Wb" using sim by (auto simp: implements_def)
  then have "net_inv (ea, eb)"
    using net_reach_inv [OF run net_inv_new [OF new]] assms(7,8) by (simp add: short_def)
  then have "stream_ok ea eb" "stream_ok eb ea"
    using net_inv_stream_ok net_inv_swap assms(7,8) \<open>ep_written ea = Wa\<close> \<open>ep_written eb = Wb\<close> by blast+
  then show ?thesis using stream_ok_hears sim by blast
qed

definition example_peer_host :: IpHostConfig where
  "example_peer_host = IpHostConfig_tcp_demo (10, 0, 0, 1) (10, 0, 0, 2) 8000 9000 (Wrap32 77)"

lemma example_peer_host_ok: "host_config_ok example_peer_host" "mirrored example_host_config example_peer_host"
  by (simp_all add: host_config_ok_def example_peer_host_def example_host_config_def IpHostConfig_tcp_demo_def mirrored_def)

text \<open>One host writes, its first datagram is carried to the other.\<close>

theorem hosts_have_reliable_stream_witness:
  "\<exists>ha hb ha' hb' Wa Wb txa txb. IpHost_new example_host_config = Some ha \<and> IpHost_new example_peer_host = Some hb \<and>
    (ip_step repr_c)\<^sup>*\<^sup>* ((ha, [], []), (hb, [], [])) ((ha', Wa, txa), (hb', Wb, txb)) \<and>
    hears hb' ha' Wa \<and> hears ha' hb' Wb"
proof -
  obtain ha hb where new: "IpHost_new example_host_config = Some ha" "IpHost_new example_peer_host = Some hb"
    and inv: "host_run_inv (ha, [], [])" "host_run_inv (hb, [], [])"
    using host_inv_new [OF example_host_config_ok] host_inv_new [OF example_peer_host_ok(1)] by auto
  obtain ha' Wa txa where a: "host_step repr_c (ha, [], []) (HWrite [1, 2, 3]) = Some (ha', Wa, txa)"
    "host_run_inv (ha', Wa, txa)" "length Wa \<le> 3"
    using host.step_budget [OF inv(1), of "HWrite [1, 2, 3]"] by auto
  have "\<exists>p. genuine repr_c (ha', Wa, txa) (hb, [], []) p"
  proof (cases txa)
    case Nil
    have "Ipv4Datagram_parse_bytes repr_c [] \<noteq> Some (Inr d)" for d
      using ip_parse_short [of "[]" repr_c] by simp
    then show ?thesis unfolding genuine_def by auto
  next
    case (Cons d ds)
    then have "d \<in> set txa" "ip_fits d" using a(2) by auto
    then show ?thesis using carried_genuine [OF layout_ok_repr_c] ip_serialize_eq by blast
  qed
  then obtain p where p: "genuine repr_c (ha', Wa, txa) (hb, [], []) p" by blast
  obtain hb' Wb txb where b: "host_step repr_c (hb, [], []) (HPacket p) = Some (hb', Wb, txb)" "Wb = []"
    using host.step_budget [OF inv(2), of "HPacket p"] by auto
  have "ip_step repr_c ((ha, [], []), (hb, [], [])) ((ha', Wa, txa), (hb, [], []))"
    by (rule act_left [OF _ a(1)]) simp
  then have run: "(ip_step repr_c)\<^sup>*\<^sup>* ((ha, [], []), (hb, [], [])) ((ha', Wa, txa), (hb', Wb, txb))"
    using packet_right [OF p b(1)] by (meson converse_rtranclp_into_rtranclp r_into_rtranclp)
  have "length Wa < 2147483646" "length Wb < 2147483646" using a(3) b(2) by simp_all
  from hosts_have_reliable_stream [OF example_host_config_ok new(1) example_peer_host_ok(1) new(2)
      example_peer_host_ok(2) run this] new run
  show ?thesis by blast
qed

end
