(* ===== verification/Tcp_Progress.thy ===== *)
theory Tcp_Progress
  imports Tcp_Network
begin

text \<open>
  How the sender of one endpoint and the receiver of the other keep in step: the sequence number the
  receiver needs next, how messages move it, and the invariant that what a sender takes for acknowledged,
  and what any segment under way acknowledges, is at most what the receiver has, which is at most what
  was sent.
\<close>

section \<open>The position of a receiver\<close>

abbreviation sender_of :: "Endpoint \<Rightarrow> TcpSender" where
  "sender_of a \<equiv> tc_sender (ep_connection a)"

abbreviation receiver_of :: "Endpoint \<Rightarrow> TcpReceiver" where
  "receiver_of a \<equiv> tc_receiver (ep_connection a)"

abbreviation outbound_closed :: "Endpoint \<Rightarrow> bool" where
  "outbound_closed a \<equiv> bs_closed (sn_outbound (sender_of a))"

text \<open>The sequence number a receiver needs next.\<close>

definition position :: "TcpReceiver \<Rightarrow> nat" where
  "position rc = (if rc_isn rc = None then 0
     else 1 + pushed (rc_reassembler rc) + of_bool (bs_closed (TcpReceiver_output rc)))"

lemma delivering_facts:
  assumes "delivering S isn (rc, out)"
  shows "ra_inv (rc_reassembler rc)" and "fits S (rc_reassembler rc)"
    and "bs_closed (TcpReceiver_output rc) \<longleftrightarrow> ra_eof (rc_reassembler rc) \<noteq> None \<and> pushed (rc_reassembler rc) = length S"
    and "pushed (rc_reassembler rc) \<le> length S" and "rc_inv rc"
    and "pushed (rc_reassembler rc) \<notin> known (rc_reassembler rc)"
proof -
  have r: "ra_inv (rc_reassembler rc)" "fits S (rc_reassembler rc)"
    using assms by (auto simp: delivering_def reassembling_def reasm_inv_def)
  then show "ra_inv (rc_reassembler rc)" "fits S (rc_reassembler rc)" "pushed (rc_reassembler rc) \<le> length S" "rc_inv rc"
    by (auto simp: fits_def rc_inv_def)
  show "bs_closed (TcpReceiver_output rc) \<longleftrightarrow> ra_eof (rc_reassembler rc) \<noteq> None \<and> pushed (rc_reassembler rc) = length S"
    using r by (auto simp: ra_inv_def ra_wf_def fits_def TcpReceiver_output_def)
  show "pushed (rc_reassembler rc) \<notin> known (rc_reassembler rc)"
    using r(1) by (fastforce simp: known_def ra_inv_def ra_wf_def covered_def)
qed

lemma send_position:
  assumes "delivering S isn (rc, out)" and "length S < 2147483647"
  shows "\<exists>msg. TcpReceiver_send rc = Some msg \<and>
    rm_ackno msg = (if rc_isn rc = None then None else Some (Wrap32_wrap (position rc) isn))"
proof -
  note d = delivering_facts [OF assms(1)]
  have "pushed (rc_reassembler rc) + 2 \<le> U64_MAX" using d(4) assms(2) by simp
  moreover have "rc_isn rc = None \<or> rc_isn rc = Some isn" using assms(1) by (simp add: delivering_def)
  ultimately show ?thesis using send_eq [OF d(5)] by (auto simp: position_def)
qed

text \<open>A message of the stream moves the position only forward.\<close>

lemma position_mono:
  assumes "delivering S isn (rc, out)" and "delivering S isn (rc', out')"
    and "known (rc_reassembler rc) \<subseteq> known (rc_reassembler rc')"
    and "ra_eof (rc_reassembler rc) \<noteq> None \<Longrightarrow> ra_eof (rc_reassembler rc') \<noteq> None"
    and "rc_isn rc' \<noteq> None"
  shows "position rc \<le> position rc'"
proof -
  note d = delivering_facts [OF assms(1)] and d' = delivering_facts [OF assms(2)]
  have "pushed (rc_reassembler rc') \<notin> known (rc_reassembler rc)" using d'(6) assms(3) by blast
  then have le: "pushed (rc_reassembler rc) \<le> pushed (rc_reassembler rc')" by (simp add: known_def)
  then have "bs_closed (TcpReceiver_output rc')" if "bs_closed (TcpReceiver_output rc)"
    using that d(3) d'(3,4) assms(4) by (metis le_antisym)
  then show ?thesis using le assms(5) by (auto simp: position_def of_bool_def)
qed

lemma symbol_octet:
  assumes "symbols m ! j = Octet b" and "j < length (symbols m)"
  shows "of_bool (sm_syn m) \<le> j \<and> j < of_bool (sm_syn m) + length (sm_payload m)"
  using assms by (auto simp: symbols_def nth_append nth_Cons' split: if_splits)

lemma symbol_fin:
  assumes "symbols m ! j = FIN" and "j < length (symbols m)"
  shows "sm_fin m"
  using assms by (auto simp: symbols_def nth_append nth_Cons' split: if_splits)

text \<open>
  \<open>has_room n rc\<close>: of a stream of \<open>n\<close> bytes the next one, if there is one, lies in the window. It does when the
  application has read everything, and when the whole stream fits the capacity.
\<close>

definition has_room :: "nat \<Rightarrow> TcpReceiver \<Rightarrow> bool" where
  "has_room n rc \<longleftrightarrow> (pushed (rc_reassembler rc) < n \<longrightarrow> pushed (rc_reassembler rc) < window_end (rc_reassembler rc))"

lemma read_has_room:
  assumes "delivering S isn (rc, out)" and "length S < 2147483647"
    and "bs_contents (TcpReceiver_output rc) = []" and "0 < bs_capacity (TcpReceiver_output rc)"
  shows "has_room (length S) rc"
proof -
  note d = delivering_facts [OF assms(1)]
  have "bs_popped (ra_output (rc_reassembler rc)) = pushed (rc_reassembler rc)"
    using assms(3) d(1) by (auto simp: TcpReceiver_output_def ra_inv_def ra_wf_def stored_ok_def bs_wf_def)
  then show ?thesis using assms(2,4) by (simp add: has_room_def window_end_def TcpReceiver_output_def)
qed

lemma capacity_has_room:
  assumes "n \<le> bs_capacity (TcpReceiver_output rc)" and "n \<le> U64_MAX"
  shows "has_room n rc"
  using assms by (simp add: has_room_def window_end_def TcpReceiver_output_def)

lemma next_byte_taken:
  assumes "delivering S isn (rc, out)" and "delivering S isn (rc', out')"
    and "known (rc_reassembler rc') = known (rc_reassembler rc) \<union> ({i..<n} \<inter> {..<window_end (rc_reassembler rc)})"
    and "i \<le> pushed (rc_reassembler rc)" and "pushed (rc_reassembler rc) < n"
    and "has_room (length S) rc" and "pushed (rc_reassembler rc) < length S"
  shows "pushed (rc_reassembler rc) < pushed (rc_reassembler rc')"
proof -
  let ?r = "rc_reassembler rc"
  note d' = delivering_facts [OF assms(2)]
  have "pushed ?r < window_end ?r" using assms(6,7) by (simp add: has_room_def)
  then have "pushed ?r \<in> known (rc_reassembler rc')" using assms(3-5) by auto
  then have "pushed ?r \<noteq> pushed (rc_reassembler rc')" using d'(6) by metis
  moreover have "pushed ?r \<le> pushed (rc_reassembler rc')" using d'(6) assms(3) by (auto simp: known_def [of ?r])
  ultimately show ?thesis by simp
qed

text \<open>A message that covers the position moves it, if there is room.\<close>

lemma position_advances:
  assumes "delivering S isn (rc, out)" and "length S < 2147483647"
    and "piece S \<alpha> m" and "sm_seqno m = Wrap32_wrap \<alpha> isn" and "\<not> sm_rst m"
    and "\<alpha> \<le> position rc" and "position rc < \<alpha> + length (symbols m)"
    and "has_room (length S) rc"
  shows "\<exists>rc'. TcpReceiver_receive rc m = Some (rc', Inr ()) \<and> delivering S isn (rc', out) \<and>
    position rc < position rc'"
proof -
  let ?r = "rc_reassembler rc" and ?i = "index_of \<alpha> m" and ?j = "position rc - \<alpha>"
  note d = delivering_facts [OF assms(1)]
  have ne: "symbols m \<noteq> []" using assms(6,7) by auto
  note msg = piece_message [OF assms(3) ne assms(4,5)] and pos = piece_position [OF assms(3) ne]
  have sym: "symbols m ! ?j = full S ! position rc" "position rc < length (full S)"
    using piece_nth [OF assms(3), of ?j] assms(6,7) by auto
  have syn: "rc_isn rc \<noteq> None \<or> sm_syn m" using pos(2) assms(6) by (auto simp: position_def split: if_splits)
  obtain rc' where rc': "TcpReceiver_receive rc m = Some (rc', Inr ())" "delivering S isn (rc', out)" "rc_isn rc' = Some isn"
    "known (rc_reassembler rc') = known ?r \<union> ({?i..<?i + length (sm_payload m)} \<inter> {..<window_end ?r})"
    "ra_eof (rc_reassembler rc') \<noteq> None \<longleftrightarrow> ra_eof ?r \<noteq> None \<or> sm_fin m"
    using receive_message_at [OF assms(1) msg assms(2) syn] by blast
  note d' = delivering_facts [OF rc'(2)]
  have mono: "position rc \<le> position rc'" using position_mono [OF assms(1) rc'(2)] rc'(3-5) by auto
  have "position rc \<noteq> position rc'"
  proof (cases "rc_isn rc = None")
    case True
    then show ?thesis using rc'(3) by (simp add: position_def)
  next
    case False
    have open_end: "\<not> bs_closed (TcpReceiver_output rc)" using sym(2) False d(3) by (auto simp: position_def length_full)
    then have p: "position rc = Suc (pushed ?r)" using False by (simp add: position_def)
    show ?thesis
    proof (cases "pushed ?r < length S")
      case True
      then have oct: "symbols m ! ?j = Octet (S ! pushed ?r)" using sym(1) p full_nth_Suc [of S "pushed ?r"] by simp
      have "?j < length (symbols m)" using assms(6,7) by linarith
      from symbol_octet [OF oct this] have in_payload: "?i \<le> pushed ?r" "pushed ?r < ?i + length (sm_payload m)"
        using assms(6) p pos(1) by linarith+
      have "pushed ?r < pushed (rc_reassembler rc')"
        using in_payload by (intro next_byte_taken [OF assms(1) rc'(2) rc'(4)] assms True)
      then show ?thesis using p rc'(3) by (simp add: position_def)
    next
      case False
      then have "pushed ?r = length S" using d(4) by simp
      then have "symbols m ! ?j = FIN" using sym(1) p full_nth_Suc [of S "length S"] by simp
      then have "sm_fin m" using symbol_fin assms(6,7) by auto
      then have "ra_eof (rc_reassembler rc') \<noteq> None" using rc'(5) by simp
      moreover have "length S \<le> pushed (rc_reassembler rc')"
        using mono p \<open>pushed ?r = length S\<close> rc'(3) d'(3) by (auto simp: position_def)
      ultimately have "bs_closed (TcpReceiver_output rc')" "pushed (rc_reassembler rc') = length S" using d'(3,4) by auto
      then show ?thesis using p \<open>pushed ?r = length S\<close> rc'(3) by (simp add: position_def)
    qed
  qed
  then show ?thesis using rc'(1,2) mono by auto
qed

section \<open>Sender and receiver keep in step\<close>

text \<open>
  \<open>in_step a b\<close>: what \<open>a\<close> takes for acknowledged, and what the segments of \<open>b\<close> acknowledge, is at most what \<open>b\<close>
  has; \<open>b\<close> knows the SYN only if it was sent. The ports match and the receiver has some capacity.
\<close>

definition acks_upto :: "Wrap32 \<Rightarrow> nat \<Rightarrow> TcpSegment \<Rightarrow> bool" where
  "acks_upto isn p seg \<longleftrightarrow> (\<forall>w. th_ackno (ts_header seg) = Some w \<longrightarrow> (\<exists>k \<le> p. w = Wrap32_wrap k isn))"

definition linked :: "TcpConnection \<Rightarrow> TcpConnection \<Rightarrow> bool" where
  "linked tc tc' \<longleftrightarrow> tc_local_port tc = tc_peer_port tc' \<and> tc_peer_port tc = tc_local_port tc'"

definition in_step :: "Endpoint \<Rightarrow> Endpoint \<Rightarrow> bool" where
  "in_step a b \<longleftrightarrow> linked (ep_connection a) (ep_connection b) \<and>
     sn_una (sender_of a) \<le> position (receiver_of b) \<and>
     (rc_isn (receiver_of b) \<noteq> None \<longrightarrow> 0 < sn_nxt (sender_of a)) \<and>
     0 < bs_capacity (TcpReceiver_output (receiver_of b)) \<and>
     (\<forall>seg \<in> set (ep_sent b). acks_upto (sn_isn (sender_of a)) (position (receiver_of b)) seg)"

lemma acks_upto_mono: "acks_upto isn p seg \<Longrightarrow> p \<le> q \<Longrightarrow> acks_upto isn q seg"
  unfolding acks_upto_def by (meson le_trans)

text \<open>In particular the receiver never needs a number beyond the next one of the sender.\<close>

lemma speaks_to_take:
  assumes "speaks_to W isn n m" and "n \<le> 1 + k"
  shows "speaks_to (take k W) isn n m"
proof -
  obtain \<alpha> where \<alpha>: "sm_seqno m = Wrap32_wrap \<alpha> isn" "piece W \<alpha> m" "\<alpha> + length (symbols m) \<le> n" "symbols m \<noteq> []"
    using assms(1) by (auto simp: speaks_to_def)
  have "piece (take k W) \<alpha> m"
  proof (cases "k \<le> length W")
    case True
    have "take (length (symbols m)) (drop \<alpha> (full (take k W @ drop k W))) = take (length (symbols m)) (drop \<alpha> (full (take k W)))"
      using \<alpha>(3) assms(2) True by (intro full_extend) simp
    then show ?thesis using \<alpha>(2) by (simp add: piece_def)
  next
    case False
    then show ?thesis using \<alpha>(2) by simp
  qed
  then show ?thesis using \<alpha> by (auto simp: speaks_to_def)
qed

lemma delivering_from:
  assumes "net_inv (a, b)" and "length (ep_written a) < 2147483647"
  shows "delivering (ep_written a) (sn_isn (sender_of a)) (receiver_of b, ep_read b)"
  using assms by (auto simp: net_inv_def receives_from_def ep_ok_def all_heard_def sent_by_def)

lemma position_le_nxt:
  assumes "net_inv (a, b)" and "in_step a b" and "length (ep_written a) < 2147483646"
  shows "position (receiver_of b) \<le> sn_nxt (sender_of a)"
proof (cases "rc_isn (receiver_of b) = None")
  case True
  then show ?thesis by (simp add: position_def)
next
  case False
  let ?sn = "sender_of a" and ?W = "ep_written a" and ?rc = "receiver_of b"
  have ok: "ep_ok a" "receives_from a b" using assms(1) by (auto simp: net_inv_def)
  then have sent: "sent_ok ?W ?sn" by (auto simp: ep_ok_def tc_inv_def sn_inv_def)
  have syn: "sn_syn_sent ?sn" using sent False assms(2) by (auto simp: in_step_def sent_ok_def)
  note d = delivering_facts [OF delivering_from [OF assms(1)]]
  show ?thesis
  proof (cases "sn_fin_sent ?sn")
    case True
    then have "sn_nxt ?sn = length ?W + 2" using sent syn by (auto simp: sent_ok_def)
    then show ?thesis using d(4) assms(3) by (simp add: position_def of_bool_def)
  next
    case fin: False
    let ?k = "bs_popped (sn_outbound ?sn)"
    have nxt: "sn_nxt ?sn = 1 + ?k" using sent syn fin by (simp add: sent_ok_def)
    have "heard (take ?k ?W) (sn_isn ?sn) seg" if "seg \<in> set (ep_sent a)" for seg
      using ok(1) that speaks_to_take [of ?W "sn_isn ?sn" "sn_nxt ?sn" _ ?k] nxt
      by (fastforce simp: ep_ok_def all_heard_def sent_by_def heard_def dest: speaks_to_speaks)
    moreover have "length (take ?k ?W) < 2147483647" using assms(3) by simp
    ultimately have "delivering (take ?k ?W) (sn_isn ?sn) (?rc, ep_read b)"
      using ok(2) unfolding receives_from_def by blast
    note dk = delivering_facts [OF this]
    have "ra_eof (rc_reassembler ?rc) = None" using closed_fin_sent [OF ok assms(3)] fin by blast
    then show ?thesis using dk(3,4) nxt by (simp add: position_def)
  qed
qed

text \<open>What no step of an endpoint undoes; new segments carry the current acknowledgment.\<close>

definition continues_as :: "Endpoint \<Rightarrow> Endpoint \<Rightarrow> bool" where
  "continues_as a a' \<longleftrightarrow>
     tc_local_port (ep_connection a') = tc_local_port (ep_connection a) \<and>
     tc_peer_port (ep_connection a') = tc_peer_port (ep_connection a) \<and>
     sn_isn (sender_of a') = sn_isn (sender_of a) \<and> sn_nxt (sender_of a) \<le> sn_nxt (sender_of a') \<and>
     (bs_closed (sn_outbound (sender_of a)) \<longrightarrow> bs_closed (sn_outbound (sender_of a'))) \<and>
     bs_capacity (TcpReceiver_output (receiver_of a')) = bs_capacity (TcpReceiver_output (receiver_of a)) \<and>
     position (receiver_of a) \<le> position (receiver_of a') \<and>
     (\<forall>seg \<in> set (ep_sent a'). seg \<in> set (ep_sent a) \<or>
        (\<exists>fb. TcpReceiver_send (receiver_of a') = Some fb \<and> th_ackno (ts_header seg) = rm_ackno fb))"

lemma in_step_sender:
  assumes "in_step a b" and "continues_as a a'" and "sn_una (sender_of a') \<le> position (receiver_of b)"
  shows "in_step a' b"
  using assms by (auto simp: in_step_def continues_as_def linked_def)

lemma in_step_receiver:
  assumes "in_step a b" and "continues_as b b'" and "net_inv (a, b')" and "length (ep_written a) < 2147483647"
    and "rc_isn (receiver_of b') \<noteq> None \<longrightarrow> 0 < sn_nxt (sender_of a)"
  shows "in_step a b'"
proof -
  obtain fb where fb: "TcpReceiver_send (receiver_of b') = Some fb"
    "rm_ackno fb = (if rc_isn (receiver_of b') = None then None else Some (Wrap32_wrap (position (receiver_of b')) (sn_isn (sender_of a))))"
    using send_position [OF delivering_from [OF assms(3,4)] assms(4)] by blast
  have "acks_upto (sn_isn (sender_of a)) (position (receiver_of b')) seg" if seg: "seg \<in> set (ep_sent b')" for seg
  proof (cases "seg \<in> set (ep_sent b)")
    case True
    then show ?thesis using assms(1,2) acks_upto_mono by (fastforce simp: in_step_def continues_as_def)
  next
    case False
    then have "th_ackno (ts_header seg) = rm_ackno fb" using seg assms(2) fb(1) by (auto simp: continues_as_def)
    then show ?thesis using fb(2) by (auto simp: acks_upto_def)
  qed
  moreover have "sn_una (sender_of a) \<le> position (receiver_of b')"
    using assms(1,2) by (auto simp: in_step_def continues_as_def)
  ultimately show ?thesis using assms(1,2,5) unfolding in_step_def continues_as_def linked_def by auto
qed

lemma emits_ackno:
  assumes "emits W tc segs" and "seg \<in> set segs"
  shows "\<exists>fb. TcpReceiver_send (tc_receiver tc) = Some fb \<and> th_ackno (ts_header seg) = rm_ackno fb"
  using assms by (fastforce simp: emits_def from_endpoint_def TcpConnection_build_segment_def TcpSegment_from_messages_def Let_def)

lemma own_step_continues:
  assumes "own_step W (ep_connection a) W' tc segs"
  shows "continues_as a (a\<lparr>ep_connection := tc, ep_written := W', ep_sent := ep_sent a @ segs\<rparr>)"
    and "sn_una (tc_sender tc) = sn_una (sender_of a)" and "tc_receiver tc = receiver_of a"
proof -
  have own: "evolves W (ep_connection a) W' tc" "emits W' tc segs" "tc_receiver tc = receiver_of a"
    "sn_una (tc_sender tc) = sn_una (sender_of a)" using assms by (simp_all add: own_step_def)
  show "sn_una (tc_sender tc) = sn_una (sender_of a)" "tc_receiver tc = receiver_of a" using own(3,4) by simp_all
  show "continues_as a (a\<lparr>ep_connection := tc, ep_written := W', ep_sent := ep_sent a @ segs\<rparr>)"
    using own(1,3) emits_ackno [OF own(2)] by (auto simp: evolves_def continues_as_def)
qed

text \<open>The steps of an application: which endpoint they lead to.\<close>

lemma app_step_own:
  assumes "ep_ok a" and "admissible a x" and "app_step a x = Some a'" and "\<nexists>n. x = ARead n"
  shows "\<exists>W tc segs. own_step (ep_written a) (ep_connection a) W tc segs \<and>
    a' = a\<lparr>ep_connection := tc, ep_written := W, ep_sent := ep_sent a @ segs\<rparr>"
proof -
  have inv: "tc_inv (ep_written a) (ep_connection a)" using assms(1) by (simp add: ep_ok_def)
  have quiet: ?thesis if "own_step (ep_written a) (ep_connection a) (ep_written a) tc segs"
    "a' = a\<lparr>ep_connection := tc, ep_sent := ep_sent a @ segs\<rparr>" for tc segs
    using that by (intro exI [of _ "ep_written a"] exI [of _ tc] exI [of _ segs]) (cases a, simp)
  show ?thesis
  proof (cases x)
    case AConnect
    obtain tc segs where "TcpConnection_connect (ep_connection a) = Some (tc, segs)"
      "own_step (ep_written a) (ep_connection a) (ep_written a) tc segs"
      using flush_sender_spec [OF inv] unfolding TcpConnection_connect_def by blast
    then show ?thesis using assms(3) AConnect by (intro quiet) auto
  next
    case (AWrite d)
    have "length (ep_written a) + length d + 2 \<le> U64_MAX" using assms(2) AWrite by simp
    then obtain tc n segs where "TcpConnection_write (ep_connection a) d = Some (tc, n, segs)"
      "own_step (ep_written a) (ep_connection a) (ep_written a @ take n d) tc segs"
      using write_conn_spec [OF inv] by blast
    then show ?thesis using assms(3) AWrite by auto
  next
    case AClose
    obtain tc segs where "TcpConnection_close (ep_connection a) = Some (tc, segs)"
      "own_step (ep_written a) (ep_connection a) (ep_written a) tc segs" using close_conn_spec [OF inv] by blast
    then show ?thesis using assms(3) AClose by (intro quiet) auto
  next
    case (ATick ms)
    obtain tc segs where "TcpConnection_tick (ep_connection a) ms = Some (tc, segs)"
      "own_step (ep_written a) (ep_connection a) (ep_written a) tc segs" using tick_conn_spec [OF inv] by blast
    then show ?thesis using assms(3) ATick by (intro quiet) auto
  next
    case (ARead n)
    then show ?thesis using assms(4) by blast
  qed
qed

lemma app_step_continues:
  assumes "ep_ok a" and "admissible a x" and "app_step a x = Some a'"
  shows "continues_as a a'" and "sn_una (sender_of a') = sn_una (sender_of a)" and "rc_isn (receiver_of a') = rc_isn (receiver_of a)"
proof -
  have "continues_as a a' \<and> sn_una (sender_of a') = sn_una (sender_of a) \<and> rc_isn (receiver_of a') = rc_isn (receiver_of a)"
  proof (cases "\<exists>n. x = ARead n")
    case False
    then obtain W tc segs where own: "own_step (ep_written a) (ep_connection a) W tc segs"
      and a': "a' = a\<lparr>ep_connection := tc, ep_written := W, ep_sent := ep_sent a @ segs\<rparr>"
      using app_step_own [OF assms] by blast
    show ?thesis unfolding a' using own_step_continues [OF own] by simp
  next
    case True
    then obtain n where "x = ARead n" by blast
    moreover have "ra_inv (rc_reassembler (receiver_of a))" using assms(1) by (simp add: ep_ok_def tc_inv_def rc_inv_def)
    ultimately have x: "x = ARead n" "ra_inv (rc_reassembler (receiver_of a))" by blast+
    obtain s d where s: "ByteStream_pop (TcpReceiver_output (receiver_of a)) n = Some (s, d)"
      "bs_pushed s = pushed (rc_reassembler (receiver_of a))" "bs_closed s = bs_closed (TcpReceiver_output (receiver_of a))"
      "bs_capacity s = bs_capacity (TcpReceiver_output (receiver_of a))"
      using pop_keeps [OF x(2)] unfolding TcpReceiver_output_def by blast
    show ?thesis using assms(3) s by (auto simp: x(1) continues_as_def position_def TcpReceiver_output_def)
  qed
  then show "continues_as a a'" and "sn_una (sender_of a') = sn_una (sender_of a)" and "rc_isn (receiver_of a') = rc_isn (receiver_of a)"
    by blast+
qed

text \<open>A delivery: what the receiver does with the message, and the answer.\<close>

lemma received_position:
  assumes "delivering S isn (rc, out)" and "length S < 2147483647" and "symbols m = [] \<or> speaks S isn m" and "\<not> sm_rst m"
  shows "position rc \<le> position (receiver_after rc m)"
    and "bs_capacity (TcpReceiver_output (receiver_after rc m)) = bs_capacity (TcpReceiver_output rc)"
    and "rc_isn (receiver_after rc m) \<noteq> None \<Longrightarrow> rc_isn rc \<noteq> None \<or> symbols m \<noteq> []"
proof -
  have "position rc \<le> position (receiver_after rc m) \<and>
      bs_capacity (TcpReceiver_output (receiver_after rc m)) = bs_capacity (TcpReceiver_output rc)"
  proof (cases "symbols m = [] \<or> rc_isn rc = None \<and> \<not> sm_syn m")
    case True
    then have "receiver_after rc m = rc" using assms(4) by (auto simp: receiver_after_def TcpReceiver_receive_def)
    then show ?thesis by simp
  next
    case False
    then obtain i where i: "carries isn i (sm_payload m) (sm_fin m) m" "segment_of S (RInsert i (sm_payload m) (sm_fin m))"
      using assms(3,4) speaks_message unfolding message_of_def by blast
    have "rc_isn rc \<noteq> None \<or> sm_syn m" using False by simp
    from receive_message_at [OF assms(1) i assms(2) this] obtain rc' where
      rc': "TcpReceiver_receive rc m = Some (rc', Inr ())" "delivering S isn (rc', out)" "rc_isn rc' = Some isn"
      "known (rc_reassembler rc) \<subseteq> known (rc_reassembler rc')"
      "bs_capacity (TcpReceiver_output rc') = bs_capacity (TcpReceiver_output rc)"
      "ra_eof (rc_reassembler rc) \<noteq> None \<Longrightarrow> ra_eof (rc_reassembler rc') \<noteq> None" by auto
    then have "position rc \<le> position rc'" by (intro position_mono [OF assms(1) rc'(2,4,6)]) auto
    then show ?thesis using rc'(1,5) False by (simp add: receiver_after_def)
  qed
  then show "position rc \<le> position (receiver_after rc m)"
    and "bs_capacity (TcpReceiver_output (receiver_after rc m)) = bs_capacity (TcpReceiver_output rc)" by blast+
  show "rc_isn rc \<noteq> None \<or> symbols m \<noteq> []" if "rc_isn (receiver_after rc m) \<noteq> None"
    using that assms(4) by (auto simp: receiver_after_def)
qed

text \<open>\<open>answers_from b r\<close>: the segment \<open>r\<close> of \<open>b\<close> carries its current acknowledgment.\<close>

definition answers_from :: "Endpoint \<Rightarrow> TcpSegment \<Rightarrow> bool" where
  "answers_from b r \<longleftrightarrow> r \<in> set (ep_sent b) \<and> \<not> th_rst (ts_header r) \<and>
     th_src_port (ts_header r) = tc_local_port (ep_connection b) \<and> th_dst_port (ts_header r) = tc_peer_port (ep_connection b) \<and>
     (\<exists>fb. TcpReceiver_send (receiver_of b) = Some fb \<and> th_ackno (ts_header r) = rm_ackno fb)"

lemma emits_answer:
  assumes "emits W tc segs" and "segs \<noteq> []" and "ep_ok b" and "ep_connection b = tc" and "set segs \<subseteq> set (ep_sent b)"
  shows "\<exists>r. answers_from b r"
proof -
  obtain r where r: "r \<in> set segs" using assms(2) by (cases segs) auto
  then have "\<not> th_rst (ts_header r)" using assms(3,5) by (auto simp: ep_ok_def all_heard_def sent_by_def heard_def)
  then show ?thesis using r assms emits_ackno [OF assms(1) r]
    by (auto simp: answers_from_def emits_def from_endpoint_def TcpConnection_build_segment_def TcpSegment_from_messages_def Let_def
        intro!: exI [of _ r])
qed

lemma deliver_result:
  assumes "net_inv (a, b)" and "length (ep_written a) < 2147483647" and "seg \<in> set (ep_sent a)"
    and "TcpConnection_belongs_to_this_connection (ep_connection b) seg" and "deliver b seg = Some b'"
  shows "continues_as b b'"
    and "rc_isn (receiver_of b') \<noteq> None \<Longrightarrow> rc_isn (receiver_of b) \<noteq> None \<or> 0 < sn_nxt (sender_of a)"
    and "map_option sn_una (TcpSender_receive (sender_of b) (TcpSegment_to_receiver_message seg)) = Some (sn_una (sender_of b'))"
    and "receiver_of b' = receiver_after (receiver_of b) (TcpSegment_to_sender_message seg)"
    and "symbols (TcpSegment_to_sender_message seg) \<noteq> [] \<Longrightarrow> rc_isn (receiver_of b') \<noteq> None \<Longrightarrow>
      \<exists>r. answers_from b' r"
    and "ep_written b' = ep_written b" and "outbound_closed b' = outbound_closed b"
proof -
  let ?m = "TcpSegment_to_sender_message seg"
  have ok: "ep_ok a" "ep_ok b" "receives_from a b" using assms(1) by (auto simp: net_inv_def)
  have sent: "sent_by (ep_written a) (sender_of a) seg" using ok(1) assms(3) by (simp add: ep_ok_def all_heard_def)
  then have m: "symbols ?m = [] \<or> speaks (ep_written a) (sn_isn (sender_of a)) ?m" "\<not> sm_rst ?m"
    by (auto simp: sent_by_def heard_def TcpSegment_to_sender_message_def)
  note rcv = received_position [OF delivering_from [OF assms(1,2)] assms(2) m]
  have inv: "tc_inv (ep_written b) (ep_connection b)" using ok(2) by (simp add: ep_ok_def)
  obtain tc' out where r: "TcpConnection_receive_segment (ep_connection b) seg = Some (tc', out)"
    "evolves (ep_written b) (ep_connection b) (ep_written b) tc'" "emits (ep_written b) tc' out"
    "tc_receiver tc' = receiver_after (receiver_of b) ?m"
    "symbols ?m \<noteq> [] \<longrightarrow> rc_isn (tc_receiver tc') \<noteq> None \<longrightarrow> out \<noteq> []"
    "map_option sn_una (TcpSender_receive (sender_of b) (TcpSegment_to_receiver_message seg)) = Some (sn_una (tc_sender tc'))"
    "bs_closed (sn_outbound (tc_sender tc')) = outbound_closed b"
    using receive_segment_spec [OF inv assms(4)] by blast
  have b': "b' = b\<lparr>ep_connection := tc', ep_sent := ep_sent b @ out\<rparr>" using assms(5) r(1) by (simp add: deliver_def)
  show "continues_as b b'" using r(2,4) rcv(1,2) emits_ackno [OF r(3)] by (auto simp: b' continues_as_def evolves_def)
  show "rc_isn (receiver_of b) \<noteq> None \<or> 0 < sn_nxt (sender_of a)" if "rc_isn (receiver_of b') \<noteq> None"
    using rcv(3) that sent r(4) by (auto simp: b' sent_by_def speaks_to_def)
  show "map_option sn_una (TcpSender_receive (sender_of b) (TcpSegment_to_receiver_message seg)) = Some (sn_una (sender_of b'))"
    "receiver_of b' = receiver_after (receiver_of b) ?m" "ep_written b' = ep_written b" "outbound_closed b' = outbound_closed b"
    using r(4,6,7) by (simp_all add: b')
  show "\<exists>r. answers_from b' r" if "symbols ?m \<noteq> []" "rc_isn (receiver_of b') \<noteq> None"
  proof -
    have "out \<noteq> []" using r(5) that by (simp add: b')
    moreover have "ep_ok b'" using deliver_advances [OF ok assms(2,3)] assms(5) by (auto simp: moves_def)
    ultimately show ?thesis using emits_answer [OF r(3)] by (simp add: b')
  qed
qed

section \<open>The invariant of both directions\<close>

text \<open>What an acknowledgment of at most what was sent does to the sender.\<close>

lemma receive_una:
  assumes "sn_inv W sn" and "length W < 2147483646" and "\<not> th_rst (ts_header seg)"
    and "TcpSender_receive sn (TcpSegment_to_receiver_message seg) = Some sn'"
  shows "th_ackno (ts_header seg) = None \<Longrightarrow> sn_una sn' = sn_una sn"
    and "th_ackno (ts_header seg) = Some (Wrap32_wrap k (sn_isn sn)) \<Longrightarrow> k \<le> sn_nxt sn \<Longrightarrow> sn_una sn' = max (sn_una sn) k"
proof -
  let ?m = "TcpSegment_to_receiver_message seg"
  have m: "\<not> rm_rst ?m" "rm_ackno ?m = th_ackno (ts_header seg)" using assms(3) by (simp_all add: TcpSegment_to_receiver_message_def)
  show "sn_una sn' = sn_una sn" if "th_ackno (ts_header seg) = None"
    using receive_no_ack [OF assms(1) m(1)] m(2) that assms(4) by auto
  show "sn_una sn' = max (sn_una sn) k" if w: "th_ackno (ts_header seg) = Some (Wrap32_wrap k (sn_isn sn))" "k \<le> sn_nxt sn"
  proof -
    have "sent_ok W sn" using assms(1) by (simp add: sn_inv_def)
    note b = sent_ok_bounds [OF this]
    have "Wrap32_unwrap (Wrap32_wrap k (sn_isn sn)) (sn_isn sn) (sn_nxt sn) = Some k"
      using b w(2) assms(2) by (intro unwrap_wrap) (auto simp: abs_diff_def)
    from receive_ack [OF assms(1) m(1) _ this] show ?thesis using m(2) w assms(4) by (auto simp: acked_def)
  qed
qed

definition in_step_both :: "Endpoint \<times> Endpoint \<Rightarrow> bool" where
  "in_step_both = (\<lambda>(a, b). net_inv (a, b) \<and> in_step a b \<and> in_step b a \<and>
     length (ep_written a) < 2147483646 \<and> length (ep_written b) < 2147483646)"

lemma in_step_bothD:
  assumes "in_step_both (a, b)"
  shows "net_inv (a, b)" "in_step a b" "in_step b a" "length (ep_written a) < 2147483646" "length (ep_written b) < 2147483646"
    "net_inv (b, a)" "ep_ok a" "ep_ok b" "in_step_both (b, a)"
  using assms by (auto simp: in_step_both_def net_inv_def)

text \<open>A segment of the peer acknowledges at most what the peer has, and never takes anything back.\<close>

lemma deliver_una:
  assumes "in_step_both (a, b)" and "seg \<in> set (ep_sent a)"
    and "TcpConnection_belongs_to_this_connection (ep_connection b) seg" and "deliver b seg = Some b'"
  shows "sn_una (sender_of b') \<le> position (receiver_of a)" and "sn_una (sender_of b) \<le> sn_una (sender_of b')"
    and "th_ackno (ts_header seg) = Some (Wrap32_wrap (position (receiver_of a)) (sn_isn (sender_of b))) \<Longrightarrow>
      sn_una (sender_of b') = position (receiver_of a)"
proof -
  note g = in_step_bothD [OF assms(1)]
  let ?isn = "sn_isn (sender_of b)" and ?p = "position (receiver_of a)"
  have una: "sn_una (sender_of b) \<le> ?p" "acks_upto ?isn ?p seg" using g(3) assms(2) by (auto simp: in_step_def)
  have le: "?p \<le> sn_nxt (sender_of b)" by (rule position_le_nxt [OF g(6,3,5)])
  have inv: "sn_inv (ep_written b) (sender_of b)" using g(8) by (simp add: ep_ok_def tc_inv_def)
  have rst: "\<not> th_rst (ts_header seg)" using g(7) assms(2) by (auto simp: ep_ok_def all_heard_def sent_by_def heard_def)
  have len: "length (ep_written a) < 2147483647" using g(4) by simp
  obtain sn' where sn': "TcpSender_receive (sender_of b) (TcpSegment_to_receiver_message seg) = Some sn'"
    "sn_una (sender_of b') = sn_una sn'"
    using deliver_result(3) [OF g(1) len assms(2-4)] by auto
  note rcv = receive_una [OF inv g(5) rst sn'(1)]
  show "sn_una (sender_of b') = ?p" if "th_ackno (ts_header seg) = Some (Wrap32_wrap ?p ?isn)"
    using rcv(2) [OF that le] una(1) sn'(2) by simp
  have "sn_una (sender_of b') \<le> ?p \<and> sn_una (sender_of b) \<le> sn_una (sender_of b')"
  proof (cases "th_ackno (ts_header seg)")
    case None
    then show ?thesis using rcv(1) una(1) sn'(2) by simp
  next
    case (Some w)
    then obtain k where k: "k \<le> ?p" "w = Wrap32_wrap k ?isn" using una(2) by (auto simp: acks_upto_def)
    then have "sn_una sn' = max (sn_una (sender_of b)) k" using Some le by (intro rcv(2)) auto
    then show ?thesis using k(1) una(1) sn'(2) by simp
  qed
  then show "sn_una (sender_of b') \<le> ?p" and "sn_una (sender_of b) \<le> sn_una (sender_of b')" by blast+
qed

lemma deliver_foreign:
  "\<not> TcpConnection_belongs_to_this_connection (ep_connection b) seg \<Longrightarrow> deliver b seg = Some b"
  by (simp add: deliver_def TcpConnection_receive_segment_def)

lemma in_step_app:
  assumes "in_step_both (a, b)" and "admissible b x" and "app_step b x = Some b'" and "length (ep_written b') < 2147483646"
  shows "in_step_both (a, b')"
proof -
  note g = in_step_bothD [OF assms(1)] and c = app_step_continues [OF in_step_bothD(8) [OF assms(1)] assms(2,3)]
  have inv: "net_inv (a, b')"
    using net_step_inv [OF app_right [OF assms(2,3), of a] g(1)] g(4) assms(4) by (simp add: short_def)
  have "length (ep_written a) < 2147483647" using g(4) by simp
  then have "in_step a b'" using g(2) c(3) by (intro in_step_receiver [OF g(2) c(1) inv]) (auto simp: in_step_def)
  moreover have "in_step b' a" using g(3) c(2) by (intro in_step_sender [OF g(3) c(1)]) (simp add: in_step_def)
  ultimately show ?thesis using inv g(4) assms(4) by (simp add: in_step_both_def)
qed

lemma in_step_deliver:
  assumes "in_step_both (a, b)" and "seg \<in> set (ep_sent a)" and "deliver b seg = Some b'"
  shows "in_step_both (a, b')"
proof (cases "TcpConnection_belongs_to_this_connection (ep_connection b) seg")
  case False
  then show ?thesis using assms(1,3) deliver_foreign by simp
next
  case True
  note g = in_step_bothD [OF assms(1)]
  have len: "length (ep_written a) < 2147483647" using g(4) by simp
  note d = deliver_result [OF g(1) len assms(2) True assms(3)] and u = deliver_una [OF assms(1,2) True assms(3)]
  have inv: "net_inv (a, b')"
    using net_step_inv [OF to_right [of seg, OF assms(2,3)] g(1)] g(4,5) d(6) by (simp add: short_def)
  have "in_step a b'" using g(2) d(2) by (intro in_step_receiver [OF g(2) d(1) inv len]) (auto simp: in_step_def)
  moreover have "in_step b' a" by (rule in_step_sender [OF g(3) d(1) u(1)])
  ultimately show ?thesis using inv g(4,5) d(6) by (simp add: in_step_both_def)
qed

lemma in_step_both_step:
  assumes "net_step s s'" and "in_step_both s" and "length (ep_written (fst s')) < 2147483646" and "length (ep_written (snd s')) < 2147483646"
  shows "in_step_both s'"
  using assms
proof (induction rule: net_step.induct)
  case (app_left a x a' b)
  then show ?case using in_step_app [of b a x a'] in_step_bothD(9) by auto
next
  case (to_left seg b a a')
  then show ?case using in_step_deliver [of b a seg a'] in_step_bothD(9) by auto
qed (auto intro: in_step_app in_step_deliver)

lemma in_step_both_reach:
  assumes "net_step\<^sup>*\<^sup>* s s'" and "in_step_both s" and "length (ep_written (fst s')) < 2147483646" and "length (ep_written (snd s')) < 2147483646"
  shows "in_step_both s'"
  using assms
proof (induction rule: rtranclp_induct)
  case (step s' s'')
  have "length (ep_written (fst s')) \<le> length (ep_written (fst s'')) \<and> length (ep_written (snd s')) \<le> length (ep_written (snd s''))"
    using step(2) by (induction rule: net_step.induct) (auto dest!: app_written deliver_written)
  then show ?case using step by (intro in_step_both_step [OF step(2)]) auto
qed

lemma new_capacity:
  "TcpConnection_new c = Some tc \<Longrightarrow> bs_capacity (TcpReceiver_output (tc_receiver tc)) = cc_receiver_capacity c"
  by (auto simp: TcpConnection_new_def TcpReceiver_new_def Reassembler_new_def TcpReceiver_output_def ByteStream_new_def
      bind_eq_Some_conv run_simps Let_def)

lemma in_step_both_new:
  assumes "config_ok ca" and "TcpConnection_new ca = Some tca" and "config_ok cb" and "TcpConnection_new cb = Some tcb"
    and "cc_local_port ca = cc_peer_port cb" and "cc_peer_port ca = cc_local_port cb"
    and "0 < cc_receiver_capacity ca" and "0 < cc_receiver_capacity cb"
  shows "in_step_both (endpoint tca, endpoint tcb)"
proof -
  have new: "tc_local_port tc = cc_local_port c" "tc_peer_port tc = cc_peer_port c" "sn_una (tc_sender tc) = 0"
    "rc_isn (tc_receiver tc) = None"
    if "TcpConnection_new c = Some tc" for c tc
    using that by (auto simp: TcpConnection_new_def TcpSender_new_def TcpReceiver_new_def bind_eq_Some_conv)
  show ?thesis using net_inv_new [OF assms(1-4)] new [OF assms(2)] new [OF assms(4)] new_capacity [OF assms(2)]
    new_capacity [OF assms(4)] assms(5-8)
    by (simp add: in_step_both_def in_step_def linked_def endpoint_def)
qed

end
