(* ===== verification/Tcp_Delivery.thy ===== *)
theory Tcp_Delivery
  imports Tcp_Progress
begin

text \<open>
  Everything can be delivered: from every reachable state of two endpoints and the network between them
  there is a continuation, in which the applications write nothing more, after which each application has
  read everything the other one has written and knows of its end.
\<close>

section \<open>Steps that serve what has been written\<close>

definition quiet :: "Endpoint \<Rightarrow> Endpoint \<Rightarrow> bool" where
  "quiet a a' \<longleftrightarrow> ep_written a' = ep_written a \<and> outbound_closed a' = outbound_closed a \<and>
     sn_una (sender_of a) \<le> sn_una (sender_of a') \<and>
     bs_capacity (TcpReceiver_output (receiver_of a')) = bs_capacity (TcpReceiver_output (receiver_of a))"

definition serves :: "Endpoint \<times> Endpoint \<Rightarrow> Endpoint \<times> Endpoint \<Rightarrow> bool" where
  "serves s s' \<longleftrightarrow> net_step s s' \<and> quiet (fst s) (fst s') \<and> quiet (snd s) (snd s')"

lemma quiet_refl [simp]: "quiet a a"
  by (simp add: quiet_def)

lemma net_step_swap: "net_step (a, b) (a', b') \<Longrightarrow> net_step (b, a) (b', a')"
  by (elim net_stepE) (auto intro: net_step.intros)

lemma serves_swap: "serves (a, b) (a', b') \<Longrightarrow> serves (b, a) (b', a')"
  by (simp add: serves_def net_step_swap)

lemma serves_run_swap: "serves\<^sup>*\<^sup>* (a, b) (a', b') \<Longrightarrow> serves\<^sup>*\<^sup>* (b, a) (b', a')"
proof (induction "(a', b')" arbitrary: a' b' rule: rtranclp_induct)
  case (step s)
  then show ?case using serves_swap by (cases s) (metis rtranclp.rtrancl_into_rtrancl)
qed simp

lemma serves_run:
  assumes "serves\<^sup>*\<^sup>* s s'" and "in_step_both s"
  shows "in_step_both s'" and "net_step\<^sup>*\<^sup>* s s'" and "quiet (fst s) (fst s')" and "quiet (snd s) (snd s')"
proof -
  have "in_step_both s' \<and> net_step\<^sup>*\<^sup>* s s' \<and> quiet (fst s) (fst s') \<and> quiet (snd s) (snd s')"
    using assms
  proof (induction rule: rtranclp_induct)
    case (step t u)
    then have t: "in_step_both t" "net_step\<^sup>*\<^sup>* s t" "quiet (fst s) (fst t)" "quiet (snd s) (snd t)"
      and u: "net_step t u" "quiet (fst t) (fst u)" "quiet (snd t) (snd u)" by (auto simp: serves_def)
    have "in_step_both u" using in_step_both_step [OF u(1) t(1)] u(2,3) t(1)
      by (auto simp: quiet_def in_step_both_def split: prod.splits)
    then show ?case using t(2-4) u by (auto simp: quiet_def)
  qed simp
  then show "in_step_both s'" and "net_step\<^sup>*\<^sup>* s s'" and "quiet (fst s) (fst s')" and "quiet (snd s) (snd s')" by blast+
qed

fun serving :: "app_op \<Rightarrow> bool" where
  "serving AConnect = True"
| "serving (ARead n) = True"
| "serving (ATick ms) = True"
| "serving _ = False"

lemma serving_step:
  assumes "ep_ok b" and "serving x" and "app_step b x = Some b'"
  shows "quiet b b'" and "serves (a, b) (a, b')"
proof -
  have inv: "tc_inv (ep_written b) (ep_connection b)" using assms(1) by (simp add: ep_ok_def)
  have adm: "admissible b x" using assms(2) by (cases x) auto
  have "ep_written b' = ep_written b \<and> outbound_closed b' = outbound_closed b"
  proof (cases x)
    case AConnect
    obtain tc out where "TcpConnection_connect (ep_connection b) = Some (tc, out)"
      "bs_closed (sn_outbound (tc_sender tc)) = outbound_closed b"
      using flush_sender_spec [OF inv] unfolding TcpConnection_connect_def by blast
    then show ?thesis using assms(3) AConnect by auto
  next
    case (ATick ms)
    obtain tc out where "TcpConnection_tick (ep_connection b) ms = Some (tc, out)"
      "bs_closed (sn_outbound (tc_sender tc)) = outbound_closed b"
      using tick_conn_spec [OF inv] by blast
    then show ?thesis using assms(3) ATick by auto
  qed (use assms(2,3) in \<open>auto simp: bind_eq_Some_conv\<close>)
  then show "quiet b b'" using app_step_continues(1,2) [OF assms(1) adm assms(3)] by (simp add: quiet_def continues_as_def)
  then show "serves (a, b) (a, b')" using app_right [OF adm assms(3)] by (simp add: serves_def)
qed

text \<open>
  The steps among them in which nobody reads: an endpoint sends what it can, lets time pass, or gets a
  segment of its connection.
\<close>

inductive transports :: "Endpoint \<times> Endpoint \<Rightarrow> Endpoint \<times> Endpoint \<Rightarrow> bool" where
  sends_on: "app_step b AConnect = Some b' \<Longrightarrow> transports (a, b) (a, b')"
| waits: "app_step b (ATick ms) = Some b' \<Longrightarrow> transports (a, b) (a, b')"
| carries_one: "seg \<in> set (ep_sent a) \<Longrightarrow> TcpConnection_belongs_to_this_connection (ep_connection b) seg \<Longrightarrow>
    deliver b seg = Some b' \<Longrightarrow> transports (a, b) (a, b')"
| swapped: "transports (b, a) (b', a') \<Longrightarrow> transports (a, b) (a', b')"

lemma deliver_serves:
  assumes "in_step_both (a, b)" and "seg \<in> set (ep_sent a)" and "TcpConnection_belongs_to_this_connection (ep_connection b) seg"
    and "deliver b seg = Some b'"
  shows "serves (a, b) (a, b')"
proof -
  note g = in_step_bothD [OF assms(1)]
  have len: "length (ep_written a) < 2147483647" using g(4) by simp
  have "quiet b b'" using deliver_result(1,6,7) [OF g(1) len assms(2-4)] deliver_una(2) [OF assms]
    by (simp add: quiet_def continues_as_def)
  then show ?thesis using to_right [of seg, OF assms(2,4)] by (simp add: serves_def)
qed

lemma transports_serves:
  assumes "transports s s'" and "in_step_both s"
  shows "serves s s' \<and> ep_read (fst s') = ep_read (fst s) \<and> ep_read (snd s') = ep_read (snd s)"
  using assms
proof (induction rule: transports.induct)
  case (sends_on b b' a)
  then show ?case using serving_step(2) [of b AConnect b' a] in_step_bothD(8) by (auto simp: bind_eq_Some_conv)
next
  case (waits b ms b' a)
  then show ?case using serving_step(2) [of b "ATick ms" b' a] in_step_bothD(8) by (auto simp: bind_eq_Some_conv)
next
  case (carries_one seg a b b')
  then show ?case using deliver_serves [of a b seg b'] by (auto simp: deliver_def bind_eq_Some_conv)
next
  case (swapped b a b' a')
  then show ?case using serves_swap in_step_bothD(9) by auto
qed

lemma transports_run:
  assumes "transports\<^sup>*\<^sup>* s s'" and "in_step_both s"
  shows "serves\<^sup>*\<^sup>* s s'" and "ep_read (fst s') = ep_read (fst s)" and "ep_read (snd s') = ep_read (snd s)"
proof -
  have "serves\<^sup>*\<^sup>* s s' \<and> ep_read (fst s') = ep_read (fst s) \<and> ep_read (snd s') = ep_read (snd s)"
    using assms(1)
  proof (induction rule: rtranclp_induct)
    case (step t u)
    then have "in_step_both t" using serves_run(1) assms(2) by blast
    from transports_serves [OF step.hyps(2) this] step.IH show ?case by auto
  qed simp
  then show "serves\<^sup>*\<^sup>* s s'" and "ep_read (fst s') = ep_read (fst s)" and "ep_read (snd s') = ep_read (snd s)" by blast+
qed

lemma transports_run_swap: "transports\<^sup>*\<^sup>* (a, b) (a', b') \<Longrightarrow> transports\<^sup>*\<^sup>* (b, a) (b', a')"
proof (induction "(a', b')" arbitrary: a' b' rule: rtranclp_induct)
  case (step s)
  then show ?case using swapped by (cases s) (metis rtranclp.rtrancl_into_rtrancl)
qed simp

lemma transports_in_step: "transports s s' \<Longrightarrow> in_step_both s \<Longrightarrow> in_step_both s'"
  using transports_serves serves_run(1) r_into_rtranclp by metis

lemma deliver_step:
  assumes "in_step_both (a, b)" and "seg \<in> set (ep_sent a)" and "TcpConnection_belongs_to_this_connection (ep_connection b) seg"
  obtains b' where "deliver b seg = Some b'" and "transports (a, b) (a, b')"
proof -
  note g = in_step_bothD [OF assms(1)]
  have len: "length (ep_written a) < 2147483647" using g(4) by simp
  have "receives_from a b" using g(1) by (simp add: net_inv_def)
  then obtain b' where "deliver b seg = Some b'" using deliver_advances [OF g(7,8) _ len assms(2)] by blast
  then show thesis using carries_one assms(2,3) that by blast
qed

section \<open>One round\<close>

text \<open>After a long enough wait the oldest outstanding segment is sent again.\<close>

lemma retransmits_oldest:
  assumes "in_step_both (a, b)" and "sn_una (sender_of a) < sn_nxt (sender_of a)"
  shows "\<exists>a' seg. transports (a, b) (a', b) \<and> seg \<in> set (ep_sent a') \<and> sn_una (sender_of a') = sn_una (sender_of a) \<and>
    TcpConnection_belongs_to_this_connection (ep_connection b) seg \<and> sn_isn (sender_of a') = sn_isn (sender_of a) \<and>
    sm_seqno (TcpSegment_to_sender_message seg) = Wrap32_wrap (sn_una (sender_of a)) (sn_isn (sender_of a)) \<and>
    piece (ep_written a) (sn_una (sender_of a)) (TcpSegment_to_sender_message seg) \<and>
    symbols (TcpSegment_to_sender_message seg) \<noteq> []"
proof -
  note g = in_step_bothD [OF assms(1)]
  let ?sn = "sender_of a" and ?ms = "tm_timeout_ms (sn_timer (sender_of a))"
  have inv: "tc_inv (ep_written a) (ep_connection a)" "sn_inv (ep_written a) ?sn" using g(7) by (auto simp: ep_ok_def tc_inv_def)
  then have tiles: "tiles (sn_isn ?sn) (ep_written a) (sn_una ?sn) (sn_outstanding ?sn) (sn_nxt ?sn)"
    unfolding sn_inv_def sent_ok_def by blast
  then obtain s ss where s: "sn_outstanding ?sn = s # ss" using assms(2) by (cases "sn_outstanding ?sn") auto
  then have "?ms \<le> U64_MAX" using inv(2) by (auto simp: sn_inv_def timer_ok_def rto_ok_def split: if_splits)
  then have "expires ?sn ?ms" using s by (simp add: expires_def saturating_add_def)
  then obtain tc out fb where t: "TcpConnection_tick (ep_connection a) ?ms = Some (tc, out)"
    "own_step (ep_written a) (ep_connection a) (ep_written a) tc out"
    "TcpConnection_build_segment (tc_local_port (ep_connection a)) (tc_peer_port (ep_connection a)) (os_message s) fb \<in> set out"
    using tick_conn_spec [OF inv(1), of ?ms] s by auto
  let ?seg = "TcpConnection_build_segment (tc_local_port (ep_connection a)) (tc_peer_port (ep_connection a)) (os_message s) fb"
  let ?a = "a\<lparr>ep_connection := tc, ep_sent := ep_sent a @ out\<rparr>"
  have a': "app_step a (ATick ?ms) = Some ?a" using t(1) by simp
  have "transports (a, b) (?a, b)" by (rule swapped, rule waits [OF a'])
  moreover have "TcpConnection_belongs_to_this_connection (ep_connection b) ?seg"
    using g(2) by (simp add: in_step_def linked_def TcpConnection_belongs_to_this_connection_def TcpConnection_build_segment_def
        TcpSegment_from_messages_def Let_def)
  moreover have "symbols (TcpSegment_to_sender_message ?seg) = symbols (os_message s)"
    "sm_seqno (TcpSegment_to_sender_message ?seg) = sm_seqno (os_message s)"
    by (simp_all add: TcpConnection_build_segment_def messages_of_segment symbols_def)
  ultimately show ?thesis using t(2,3) tiles s
    by (intro exI [of _ ?a] exI [of _ ?seg]) (auto simp: own_step_def evolves_def piece_def)
qed

text \<open>Its delivery moves the receiver past what was acknowledged, and is answered.\<close>

lemma answers_oldest:
  assumes "in_step_both (a, b)" and "has_room (length (ep_written a)) (receiver_of b)" and "seg \<in> set (ep_sent a)"
    and "TcpConnection_belongs_to_this_connection (ep_connection b) seg"
    and "sm_seqno (TcpSegment_to_sender_message seg) = Wrap32_wrap (sn_una (sender_of a)) (sn_isn (sender_of a))"
    and "piece (ep_written a) (sn_una (sender_of a)) (TcpSegment_to_sender_message seg)"
    and "symbols (TcpSegment_to_sender_message seg) \<noteq> []"
  shows "\<exists>b' r. transports (a, b) (a, b') \<and> answers_from b' r \<and> sn_una (sender_of a) < position (receiver_of b')"
proof -
  let ?m = "TcpSegment_to_sender_message seg" and ?u = "sn_una (sender_of a)"
  note g = in_step_bothD [OF assms(1)]
  have len: "length (ep_written a) < 2147483647" using g(4) by simp
  note del = delivering_from [OF g(1) len]
  obtain b' where b': "deliver b seg = Some b'" "transports (a, b) (a, b')" by (rule deliver_step [OF assms(1,3,4)])
  note r = deliver_result [OF g(1) len assms(3,4) b'(1)]
  have st: "?u \<le> position (receiver_of b)" using g(2) by (auto simp: in_step_def)
  have rst: "\<not> sm_rst ?m" using g(7) assms(3)
    by (auto simp: ep_ok_def all_heard_def sent_by_def heard_def TcpSegment_to_sender_message_def)
  have pos: "?u < position (receiver_of b')"
  proof (cases "position (receiver_of b) < ?u + length (symbols ?m)")
    case True
    obtain rc where "TcpReceiver_receive (receiver_of b) ?m = Some (rc, Inr ())" "position (receiver_of b) < position rc"
      using position_advances [OF del len assms(6,5) rst st True assms(2)] by blast
    then show ?thesis using r(4) assms(7) st by (simp add: receiver_after_def)
  next
    case False
    then have "?u < position (receiver_of b)" using assms(7) by (cases "symbols ?m") auto
    then show ?thesis using r(1) by (simp add: continues_as_def)
  qed
  then have "rc_isn (receiver_of b') \<noteq> None" by (auto simp: position_def split: if_splits)
  then show ?thesis using r(5) [OF assms(7)] b'(2) pos by blast
qed

text \<open>The answer reaches the sender.\<close>

lemma acknowledges:
  assumes "in_step_both (a, b)" and "answers_from b r" and "0 < position (receiver_of b)"
  shows "\<exists>a'. transports (a, b) (a', b) \<and> sn_una (sender_of a') = position (receiver_of b)"
proof -
  note g = in_step_bothD [OF assms(1)]
  have len: "length (ep_written a) < 2147483647" using g(4) by simp
  have "rc_isn (receiver_of b) \<noteq> None" using assms(3) by (auto simp: position_def split: if_splits)
  then have ack: "th_ackno (ts_header r) = Some (Wrap32_wrap (position (receiver_of b)) (sn_isn (sender_of a)))"
    using send_position [OF delivering_from [OF g(1) len] len] assms(2) by (auto simp: answers_from_def)
  have r: "r \<in> set (ep_sent b)" "TcpConnection_belongs_to_this_connection (ep_connection a) r"
    using assms(2) g(2) by (auto simp: answers_from_def in_step_def linked_def TcpConnection_belongs_to_this_connection_def)
  obtain a' where a': "deliver a r = Some a'" "transports (b, a) (b, a')" by (rule deliver_step [OF g(9) r])
  then show ?thesis using deliver_una(3) [OF g(9) r a'(1) ack] swapped by blast
qed

lemma round:
  assumes "in_step_both (a, b)" and "has_room (length (ep_written a)) (receiver_of b)" and "sn_una (sender_of a) < sn_nxt (sender_of a)"
  shows "\<exists>a' b'. transports\<^sup>*\<^sup>* (a, b) (a', b') \<and> sn_una (sender_of a) < sn_una (sender_of a')"
proof -
  obtain a1 seg where a1: "transports (a, b) (a1, b)" "seg \<in> set (ep_sent a1)" "sn_una (sender_of a1) = sn_una (sender_of a)"
    "TcpConnection_belongs_to_this_connection (ep_connection b) seg" "sn_isn (sender_of a1) = sn_isn (sender_of a)"
    "sm_seqno (TcpSegment_to_sender_message seg) = Wrap32_wrap (sn_una (sender_of a)) (sn_isn (sender_of a))"
    "piece (ep_written a) (sn_una (sender_of a)) (TcpSegment_to_sender_message seg)"
    "symbols (TcpSegment_to_sender_message seg) \<noteq> []"
    using retransmits_oldest [OF assms(1,3)] by blast
  have "ep_written a1 = ep_written a" using transports_serves [OF a1(1) assms(1)] by (simp add: serves_def quiet_def)
  moreover note i1 = transports_in_step [OF a1(1) assms(1)]
  ultimately obtain b2 r where b2: "transports (a1, b) (a1, b2)" "answers_from b2 r" "sn_una (sender_of a) < position (receiver_of b2)"
    using answers_oldest [OF i1 _ a1(2,4)] a1 assms(2) by metis
  note i2 = transports_in_step [OF b2(1) i1]
  obtain a2 where a2: "transports (a1, b2) (a2, b2)" "sn_una (sender_of a2) = position (receiver_of b2)"
    using acknowledges [OF i2 b2(2)] b2(3) by auto
  have "transports\<^sup>*\<^sup>* (a, b) (a2, b2)" using a1(1) b2(1) a2(1) by (meson rtranclp.rtrancl_into_rtrancl rtranclp.rtrancl_refl)
  then show ?thesis using a2(2) b2(3) by auto
qed

section \<open>Until everything is acknowledged\<close>

definition goal :: "Endpoint \<Rightarrow> nat" where
  "goal a = 1 + length (ep_written a) + of_bool (outbound_closed a)"

lemma una_le_goal:
  assumes "ep_ok a"
  shows "sn_una (sender_of a) \<le> sn_nxt (sender_of a)" and "sn_nxt (sender_of a) \<le> goal a"
    and "drained (sender_of a) \<longleftrightarrow> sn_nxt (sender_of a) = goal a"
proof -
  have ok: "sent_ok (ep_written a) (sender_of a)" using assms by (simp add: ep_ok_def tc_inv_def sn_inv_def)
  note b = sent_ok_bounds [OF ok]
  show "sn_una (sender_of a) \<le> sn_nxt (sender_of a)" by (rule b(1))
  show "sn_nxt (sender_of a) \<le> goal a" using b(2,5) ok by (auto simp: goal_def sent_ok_def)
  show "drained (sender_of a) \<longleftrightarrow> sn_nxt (sender_of a) = goal a" using drained_iff [OF ok] by (simp add: goal_def)
qed

lemma quiet_goal: "quiet a a' \<Longrightarrow> goal a' = goal a"
  by (simp add: quiet_def goal_def)

lemma progress:
  assumes "in_step_both (a, b)" and "has_room (length (ep_written a)) (receiver_of b)" and "sn_una (sender_of a) < goal a"
  shows "\<exists>a' b'. transports\<^sup>*\<^sup>* (a, b) (a', b') \<and> sn_una (sender_of a) < sn_una (sender_of a')"
proof -
  note g = in_step_bothD [OF assms(1)]
  have inv: "tc_inv (ep_written a) (ep_connection a)" using g(7) by (simp add: ep_ok_def)
  obtain tc out where tc: "TcpConnection_connect (ep_connection a) = Some (tc, out)"
    "sn_una (tc_sender tc) < sn_nxt (tc_sender tc) \<or> drained (tc_sender tc)" "sn_una (tc_sender tc) = sn_una (sender_of a)"
    using flush_sender_spec [OF inv] unfolding TcpConnection_connect_def own_step_def by blast
  let ?a = "a\<lparr>ep_connection := tc, ep_sent := ep_sent a @ out\<rparr>"
  have "app_step a AConnect = Some ?a" using tc(1) by simp
  then have step: "transports (a, b) (?a, b)" by (rule swapped [OF sends_on])
  note i = transports_in_step [OF step assms(1)]
  have "quiet a ?a" using transports_serves [OF step assms(1)] by (simp add: serves_def)
  then have "goal ?a = goal a" by (rule quiet_goal)
  then have "sn_una (sender_of ?a) < sn_nxt (sender_of ?a)"
    using una_le_goal(3) [OF in_step_bothD(7) [OF i]] tc(2,3) assms(3) by auto
  moreover have "has_room (length (ep_written ?a)) (receiver_of b)" using assms(2) by simp
  ultimately obtain a' b' where r: "transports\<^sup>*\<^sup>* (?a, b) (a', b')" "sn_una (sender_of ?a) < sn_una (sender_of a')"
    using round [OF i] by blast
  have "sn_una (sender_of ?a) = sn_una (sender_of a)" using tc(3) by simp
  then show ?thesis using r converse_rtranclp_into_rtranclp [of transports, OF step r(1)] by metis
qed

text \<open>If the stream fits the capacity nobody has to read.\<close>

definition fits_capacity :: "Endpoint \<Rightarrow> Endpoint \<Rightarrow> bool" where
  "fits_capacity a b \<longleftrightarrow> length (ep_written a) \<le> bs_capacity (TcpReceiver_output (receiver_of b))"

lemma completes_unread:
  assumes "in_step_both (a, b)" and "fits_capacity a b"
  shows "\<exists>a' b'. transports\<^sup>*\<^sup>* (a, b) (a', b') \<and> sn_una (sender_of a') = goal a'"
proof -
  let ?inv = "\<lambda>(a, b). in_step_both (a, b) \<and> fits_capacity a b" and ?m = "\<lambda>(a, b). goal a - sn_una (sender_of a)"
  have "\<exists>s'. transports\<^sup>*\<^sup>* (a, b) s' \<and> ?inv s' \<and> ?m s' < ?m (a, b)"
    if i: "in_step_both (a, b)" "fits_capacity a b" "0 < goal a - sn_una (sender_of a)" for a b
  proof -
    have "has_room (length (ep_written a)) (receiver_of b)"
      using i(2) in_step_bothD(4) [OF i(1)] by (intro capacity_has_room) (simp_all add: fits_capacity_def)
    then obtain a' b' where r: "transports\<^sup>*\<^sup>* (a, b) (a', b')" "sn_una (sender_of a) < sn_una (sender_of a')"
      using progress [OF i(1)] i(3) by fastforce
    note q = serves_run [OF transports_run(1) [OF r(1) i(1)] i(1)]
    have "goal a' = goal a" "fits_capacity a' b'" using quiet_goal q(3,4) i(2) by (auto simp: quiet_def fits_capacity_def)
    then show ?thesis using r q(1) i(3) by (intro exI [of _ "(a', b')"]) simp
  qed
  then obtain s' where s': "transports\<^sup>*\<^sup>* (a, b) s'" "?inv s'" "?m s' = 0"
    using measure_reaches [of ?inv ?m transports "(a, b)"] assms by auto
  then show ?thesis using una_le_goal(1,2) [of "fst s'"] in_step_bothD(7) by (cases s') fastforce
qed

section \<open>With reading\<close>

text \<open>The application of the receiver reads everything.\<close>

lemma reads_everything:
  assumes "in_step_both (a, b)"
  shows "\<exists>b'. serves\<^sup>*\<^sup>* (a, b) (a, b') \<and> bs_contents (TcpReceiver_output (receiver_of b')) = []"
  using assms
proof (induction "length (bs_contents (TcpReceiver_output (receiver_of b)))" arbitrary: b rule: less_induct)
  case less
  let ?s = "TcpReceiver_output (receiver_of b)"
  show ?case
  proof (cases "bs_contents ?s = []")
    case False
    note g = in_step_bothD [OF less.prems]
    have "bs_wf ?s" using g(8) by (auto simp: ep_ok_def tc_inv_def rc_inv_def ra_inv_def ra_wf_def stored_ok_def TcpReceiver_output_def)
    then obtain s d where s: "ByteStream_pop ?s 1 = Some (s, d)" "bs_contents ?s = d @ bs_contents s" "d \<noteq> []"
      using pop_spec [of ?s 1] False by auto
    obtain b' where b': "app_step b (ARead 1) = Some b'" "TcpReceiver_output (receiver_of b') = s"
      using s(1) by (simp add: TcpReceiver_output_def)
    have step: "serves (a, b) (a, b')" by (rule serving_step(2) [OF g(8) _ b'(1)]) simp
    then have "in_step_both (a, b')" using serves_run(1) [OF r_into_rtranclp less.prems] by metis
    moreover have "length (bs_contents s) < length (bs_contents ?s)" using s(2,3) by simp
    ultimately obtain b'' where "serves\<^sup>*\<^sup>* (a, b') (a, b'')" "bs_contents (TcpReceiver_output (receiver_of b'')) = []"
      using less.hyps [of b'] b'(2) by blast
    then show ?thesis using step by (meson converse_rtranclp_into_rtranclp)
  qed blast
qed

lemma completes:
  assumes "in_step_both (a, b)"
  shows "\<exists>a' b'. serves\<^sup>*\<^sup>* (a, b) (a', b') \<and> sn_una (sender_of a') = goal a'"
proof -
  let ?m = "\<lambda>(a, b). goal a - sn_una (sender_of a)"
  have "\<exists>s'. serves\<^sup>*\<^sup>* (a, b) s' \<and> in_step_both s' \<and> ?m s' < ?m (a, b)"
    if i: "in_step_both (a, b)" "0 < goal a - sn_una (sender_of a)" for a b
  proof -
    obtain b1 where b1: "serves\<^sup>*\<^sup>* (a, b) (a, b1)" "bs_contents (TcpReceiver_output (receiver_of b1)) = []"
      using reads_everything [OF i(1)] by blast
    note i1 = serves_run(1) [OF b1(1) i(1)]
    note g = in_step_bothD [OF i1]
    have len: "length (ep_written a) < 2147483647" using g(4) by simp
    have "has_room (length (ep_written a)) (receiver_of b1)"
      using read_has_room [OF delivering_from [OF g(1) len] len b1(2)] g(2) by (simp add: in_step_def)
    then obtain a' b' where r: "transports\<^sup>*\<^sup>* (a, b1) (a', b')" "sn_una (sender_of a) < sn_una (sender_of a')"
      using progress [OF i1] i(2) by fastforce
    note run = rtranclp_trans [OF b1(1) transports_run(1) [OF r(1) i1]]
    note q = serves_run [OF run i(1)]
    have "goal a' = goal a" using quiet_goal q(3) by simp
    then show ?thesis using r(2) run q(1) i(2) by (intro exI [of _ "(a', b')"]) simp
  qed
  then obtain s' where s': "serves\<^sup>*\<^sup>* (a, b) s'" "in_step_both s'" "?m s' = 0"
    using measure_reaches [of in_step_both ?m serves "(a, b)"] assms by auto
  then show ?thesis using una_le_goal(1,2) [of "fst s'"] in_step_bothD(7) by (cases s') fastforce
qed

text \<open>Once acknowledged, always acknowledged: first one direction, then the other, then both read.\<close>

lemma quiet_complete:
  assumes "quiet a a'" and "sn_una (sender_of a) = goal a" and "ep_ok a'"
  shows "sn_una (sender_of a') = goal a'"
  using una_le_goal(1,2) [OF assms(3)] quiet_goal [OF assms(1)] assms(1,2) by (simp add: quiet_def)

lemma both_complete_unread:
  assumes "in_step_both (a, b)" and "fits_capacity a b" and "fits_capacity b a"
  shows "\<exists>a' b'. transports\<^sup>*\<^sup>* (a, b) (a', b') \<and> sn_una (sender_of a') = goal a' \<and> sn_una (sender_of b') = goal b'"
proof -
  obtain a1 b1 where r1: "transports\<^sup>*\<^sup>* (a, b) (a1, b1)" "sn_una (sender_of a1) = goal a1"
    using completes_unread [OF assms(1,2)] by blast
  note i1 = serves_run [OF transports_run(1) [OF r1(1) assms(1)] assms(1)]
  have "fits_capacity b1 a1" using assms(3) i1(3,4) by (simp add: fits_capacity_def quiet_def)
  then obtain a2 b2 where r2: "transports\<^sup>*\<^sup>* (b1, a1) (b2, a2)" "sn_una (sender_of b2) = goal b2"
    using completes_unread [OF in_step_bothD(9) [OF i1(1)]] by blast
  note i2 = serves_run [OF transports_run(1) [OF r2(1) in_step_bothD(9) [OF i1(1)]] in_step_bothD(9) [OF i1(1)]]
  have "sn_una (sender_of a2) = goal a2" using i2(4) quiet_complete [OF _ r1(2) in_step_bothD(8) [OF i2(1)]] by simp
  then show ?thesis using rtranclp_trans [OF r1(1) transports_run_swap [OF r2(1)]] r2(2) by blast
qed

lemma both_complete:
  assumes "in_step_both (a, b)"
  shows "\<exists>a' b'. serves\<^sup>*\<^sup>* (a, b) (a', b') \<and> sn_una (sender_of a') = goal a' \<and> sn_una (sender_of b') = goal b' \<and>
    bs_contents (TcpReceiver_output (receiver_of a')) = [] \<and> bs_contents (TcpReceiver_output (receiver_of b')) = []"
proof -
  obtain a1 b1 where r1: "serves\<^sup>*\<^sup>* (a, b) (a1, b1)" "sn_una (sender_of a1) = goal a1" using completes [OF assms] by blast
  note i1 = serves_run [OF r1(1) assms]
  obtain a2 b2 where r2: "serves\<^sup>*\<^sup>* (b1, a1) (b2, a2)" "sn_una (sender_of b2) = goal b2"
    using completes [OF in_step_bothD(9) [OF i1(1)]] by blast
  note i2 = serves_run [OF r2(1) in_step_bothD(9) [OF i1(1)]]
  obtain a3 where r3: "serves\<^sup>*\<^sup>* (b2, a2) (b2, a3)" "bs_contents (TcpReceiver_output (receiver_of a3)) = []"
    using reads_everything [OF i2(1)] by blast
  note i3 = serves_run [OF r3(1) i2(1)]
  obtain b4 where r4: "serves\<^sup>*\<^sup>* (a3, b2) (a3, b4)" "bs_contents (TcpReceiver_output (receiver_of b4)) = []"
    using reads_everything [OF in_step_bothD(9) [OF i3(1)]] by blast
  note i4 = serves_run [OF r4(1) in_step_bothD(9) [OF i3(1)]]
  have "quiet a1 a3" using i2(4) i3(4) by (simp add: quiet_def)
  then have "sn_una (sender_of a3) = goal a3" by (rule quiet_complete [OF _ r1(2) in_step_bothD(7) [OF i4(1)]])
  moreover have "sn_una (sender_of b4) = goal b4"
    using i4(4) quiet_complete [OF _ r2(2) in_step_bothD(8) [OF i4(1)]] by simp
  moreover have "serves\<^sup>*\<^sup>* (a, b) (a3, b4)"
    by (rule rtranclp_trans [OF r1(1) serves_run_swap [OF rtranclp_trans [OF r2(1) rtranclp_trans [OF r3(1) serves_run_swap [OF r4(1)]]]]])
  ultimately show ?thesis using r3(2) r4(2) by blast
qed

text \<open>What it means that everything is acknowledged.\<close>

lemma complete_delivered:
  assumes "in_step_both (a, b)" and "sn_una (sender_of a) = goal a"
  shows "ep_read b @ bs_contents (TcpReceiver_output (receiver_of b)) = ep_written a"
    and "outbound_closed a \<Longrightarrow> ByteStream_is_closed (TcpReceiver_output (receiver_of b)) \<and> TcpSender_is_finished (sender_of a)"
    and "bs_contents (TcpReceiver_output (receiver_of b)) = [] \<Longrightarrow> bs_buffered (TcpReceiver_output (receiver_of b)) = 0"
proof -
  note g = in_step_bothD [OF assms(1)] and le = una_le_goal [OF in_step_bothD(7) [OF assms(1)]]
  have "length (ep_written a) < 2147483647" using g(4) by simp
  note d = delivering_facts [OF delivering_from [OF g(1) this]]
  have pos: "goal a \<le> position (receiver_of b)" using g(2) assms(2) by (simp add: in_step_def)
  then have all: "pushed (rc_reassembler (receiver_of b)) = length (ep_written a)"
    using d(3,4) by (auto simp: position_def goal_def of_bool_def split: if_splits)
  then show "ep_read b @ bs_contents (TcpReceiver_output (receiver_of b)) = ep_written a"
    using net_inv_stream_ok [OF g(1,4)]
    by (simp add: stream_ok_def Let_def ByteStream_bytes_pushed_def TcpReceiver_output_def)
  show "bs_contents (TcpReceiver_output (receiver_of b)) = [] \<Longrightarrow> bs_buffered (TcpReceiver_output (receiver_of b)) = 0"
    using d(1) by (simp add: TcpReceiver_output_def ra_inv_def ra_wf_def stored_ok_def bs_wf_def)
  assume closed: "outbound_closed a"
  have "bs_closed (TcpReceiver_output (receiver_of b))"
    using pos all closed by (auto simp: position_def goal_def of_bool_def split: if_splits)
  moreover have ok: "sent_ok (ep_written a) (sender_of a)" using g(7) by (simp add: ep_ok_def tc_inv_def sn_inv_def)
  have nxt: "sn_nxt (sender_of a) = goal a" using le(1,2) assms(2) by simp
  then have "sn_fin_sent (sender_of a)" using sent_ok_bounds(5) [OF ok] closed by (simp add: goal_def)
  moreover have "tiles (sn_isn (sender_of a)) (ep_written a) (sn_una (sender_of a)) (sn_outstanding (sender_of a)) (sn_nxt (sender_of a))"
    using ok unfolding sent_ok_def by blast
  then have "sn_outstanding (sender_of a) = []"
    using assms(2) nxt tiles_le by (cases "sn_outstanding (sender_of a)") fastforce+
  ultimately show "ByteStream_is_closed (TcpReceiver_output (receiver_of b)) \<and> TcpSender_is_finished (sender_of a)"
    by (simp add: TcpSender_is_finished_def ByteStream_is_closed_def)
qed

text \<open>A connection keeps the capacity of its receiver.\<close>

lemma deliver_capacity:
  assumes "in_step_both (a, b)" and "seg \<in> set (ep_sent a)" and "deliver b seg = Some b'"
  shows "bs_capacity (TcpReceiver_output (receiver_of b')) = bs_capacity (TcpReceiver_output (receiver_of b))"
proof (cases "TcpConnection_belongs_to_this_connection (ep_connection b) seg")
  case True
  then show ?thesis using deliver_serves [OF assms(1,2) True assms(3)] by (simp add: serves_def quiet_def)
next
  case False
  then show ?thesis using deliver_foreign assms(3) by simp
qed

lemma reach_capacity:
  assumes "net_step\<^sup>*\<^sup>* s s'" and "in_step_both s" and "length (ep_written (fst s')) < 2147483646" and "length (ep_written (snd s')) < 2147483646"
  shows "bs_capacity (TcpReceiver_output (receiver_of (fst s'))) = bs_capacity (TcpReceiver_output (receiver_of (fst s))) \<and>
    bs_capacity (TcpReceiver_output (receiver_of (snd s'))) = bs_capacity (TcpReceiver_output (receiver_of (snd s)))"
  using assms
proof (induction rule: rtranclp_induct)
  case (step t u)
  have len: "length (ep_written (fst t)) < 2147483646" "length (ep_written (snd t)) < 2147483646"
    using step.hyps(2) step.prems by (induction rule: net_step.induct) (auto dest!: app_written deliver_written)
  note i = in_step_both_reach [OF step.hyps(1) step.prems(1) len]
  have "bs_capacity (TcpReceiver_output (receiver_of (fst u))) = bs_capacity (TcpReceiver_output (receiver_of (fst t))) \<and>
    bs_capacity (TcpReceiver_output (receiver_of (snd u))) = bs_capacity (TcpReceiver_output (receiver_of (snd t)))"
    using step.hyps(2) i
  proof (induction rule: net_step.induct)
    case (app_left a x a' b)
    then show ?case using app_step_continues(1) [of a x a'] in_step_bothD(7) by (auto simp: continues_as_def)
  next
    case (app_right b x b' a)
    then show ?case using app_step_continues(1) [of b x b'] in_step_bothD(8) by (auto simp: continues_as_def)
  next
    case (to_right seg a b b')
    then show ?case using deliver_capacity by auto
  next
    case (to_left seg b a a')
    then show ?case using deliver_capacity [OF in_step_bothD(9)] by auto
  qed
  then show ?case using step.IH step.prems(1) len by simp
qed simp

section \<open>Property\<close>



end
