(* ===== verification/Host_Delivery.thy ===== *)
theory Host_Delivery
  imports Ip_Network Tcp_Delivery
begin

text \<open>
  How much two hosts can transport. The simulation of \<open>Ip_Network\<close> in the other direction: what two TCP
  endpoints can do without reading, two hosts can do. So they can always deliver streams that fit the
  receive capacity; and as a host never reads its receiver's stream, no more than that.
\<close>

section \<open>Hosts follow their endpoints\<close>

lemma ip_step_swap: "ip_step view (a, b) (a', b') \<Longrightarrow> ip_step view (b, a) (b', a')"
  by (auto elim!: ip_step.cases intro: ip_step.intros)

lemma host_step_total:
  assumes "layout_ok view" and "host_run_inv t" and "host_good x" and "host_bytes x = 0 \<or> local_op t x"
  shows "\<exists>t'. host_step view t x = Some t' \<and> host_run_inv t'"
proof -
  obtain h W tx where t: "t = (h, W, tx)" by (cases t)
  have "length W + 2 \<le> U64_MAX" using assms(2) t by (simp add: host_inv_def tc_inv_def sn_inv_def sent_ok_def)
  then have "written t + host_bytes x \<le> U64_MAX - 2" using assms(4) t by (cases x) auto
  from host_step_safe [OF assms(1-3) this] show ?thesis by blast
qed

lemma ip_step_inv:
  assumes "layout_ok view" and "ip_step view s s'" and "host_run_inv (fst s)" and "host_run_inv (snd s)"
  shows "host_run_inv (fst s') \<and> host_run_inv (snd s')"
  using assms(2-4)
proof (induction rule: ip_step.induct)
  case (act_left a x a' b)
  then have "host_good x" by (cases x) auto
  then show ?case using act_left host_step_total [OF assms(1), of a x] by auto
next
  case (act_right b x b' a)
  then have "host_good x" by (cases x) auto
  then show ?case using act_right host_step_total [OF assms(1), of b x] by auto
next
  case (packet_right a b p b')
  then show ?case using host_step_total [OF assms(1), of b "HPacket p"] by auto
next
  case (packet_left b a p a')
  then show ?case using host_step_total [OF assms(1), of a "HPacket p"] by auto
qed

lemma ip_run_inv:
  assumes "layout_ok view" and "(ip_step view)\<^sup>*\<^sup>* s s'" and "host_run_inv (fst s)" and "host_run_inv (snd s)"
  shows "host_run_inv (fst s') \<and> host_run_inv (snd s')"
  using assms(2)
  by (induction rule: rtranclp_induct) (use assms(3,4) ip_step_inv [OF assms(1)] in auto)

text \<open>A call of the application.\<close>

lemma app_followed:
  assumes "layout_ok view" and "implements c b e" and "host_run_inv b" and "x = HConnect \<or> (\<exists>ms. x = HTick ms)"
    and "app_step e (app_of x) = Some e'"
  shows "\<exists>b'. ip_step view (a, b) (a, b') \<and> implements c b' e' \<and> host_run_inv b'"
proof -
  have x: "host_good x" "host_bytes x = 0" "local_op b x" using assms(4) by (cases b; auto)+
  then obtain b' where b': "host_step view b x = Some b'" "host_run_inv b'" using host_step_total [OF assms(1,3)] by blast
  then have "implements c b' e'" using local_simulates [OF assms(2) x(3) b'(1)] assms(5) by auto
  then show ?thesis using act_right [OF x(3) b'(1)] b'(2) by blast
qed

text \<open>A delivery: the datagram of the segment, which the peer has sent, is carried as it is.\<close>

lemma delivery_followed:
  assumes "layout_ok view" and "mirrored ca cb" and "implements ca a ea" and "implements cb b eb"
    and "host_run_inv a" and "host_run_inv b"
    and "seg \<in> set (ep_sent ea)" and "TcpConnection_belongs_to_this_connection (ep_connection eb) seg" and "deliver eb seg = Some eb'"
  shows "\<exists>b'. ip_step view (a, b) (a, b') \<and> implements cb b' eb' \<and> host_run_inv b'"
proof -
  obtain ha Wa txa h W tx where ab: "a = (ha, Wa, txa)" "b = (h, W, tx)" by (cases a, cases b)
  let ?d = "tcp_datagram ca seg"
  have d: "?d \<in> set txa" "20 + length (ts_payload seg) \<le> U16_MAX" using assms(3,7) by (auto simp: ab implements_def)
  then have fits: "ip_fits ?d" using assms(5) by (simp add: ab)
  then obtain p where p: "Ipv4Datagram_serialize ?d = Some p" using ip_serialize_eq by blast
  have seg: "as_segment h ?d seg"
    using assms(2,4,8) tcp_datagram_parses [OF d(2), of ca]
    by (auto simp: as_segment_def ab implements_def mirrored_def tcp_datagram_def Ipv4Datagram_new_tcp_def Ipv4Datagram_new_def
        Ipv4Header_new_def)
  obtain b' where b': "host_step view b (HPacket p) = Some b'" "host_run_inv b'"
    using host_step_total [OF assms(1,6), of "HPacket p"] by auto
  then obtain h' out where r: "IpHost_receive_datagram h ?d = Some (h', out)" "b' = (h', W, tx @ ho_datagrams out)"
    using ip_parse_serialized [OF assms(1) fits p] by (auto simp: ab IpHost_receive_ipv4_bytes_def bind_eq_Some_conv)
  have "implements cb b' eb'" using segment_implements [OF assms(4) [unfolded ab] r(1) seg] assms(9) r(2) by auto
  moreover have "genuine view a b p" using carried_genuine [OF assms(1) d(1) fits p] by (simp add: ab)
  ultimately show ?thesis using packet_right [OF _ b'(1)] b'(2) by blast
qed

text \<open>The state of two hosts and of the endpoints they implement.\<close>

definition follow :: "IpHostConfig \<Rightarrow> IpHostConfig \<Rightarrow> host_state \<times> host_state \<Rightarrow> Endpoint \<times> Endpoint \<Rightarrow> bool" where
  "follow ca cb = (\<lambda>(a, b) (ea, eb). implements ca a ea \<and> implements cb b eb \<and> host_run_inv a \<and> host_run_inv b)"

lemma step_followed:
  assumes "layout_ok view" and "transports s s'" and "mirrored ca cb" and "follow ca cb t s"
  shows "\<exists>t'. ip_step view t t' \<and> follow ca cb t' s'"
  using assms(2-4)
proof (induction arbitrary: ca cb t rule: transports.induct)
  case (sends_on b b' a)
  then show ?case using app_followed [OF assms(1), of cb "snd t" b HConnect b' "fst t"] by (fastforce simp: follow_def)
next
  case (waits b ms b' a)
  then show ?case using app_followed [OF assms(1), of cb "snd t" b "HTick ms" b' "fst t"] by (fastforce simp: follow_def)
next
  case (carries_one seg a b b')
  then show ?case using delivery_followed [OF assms(1), of ca cb "fst t" a "snd t" b seg b'] by (fastforce simp: follow_def)
next
  case (swapped b a b' a')
  have "mirrored cb ca" "follow cb ca (snd t, fst t) (b, a)" using swapped.prems by (auto simp: mirrored_def follow_def)
  then obtain t' where t': "ip_step view (snd t, fst t) t'" "follow cb ca t' (b', a')" using swapped.IH by blast
  then show ?case using ip_step_swap [of view "snd t" "fst t" "fst t'" "snd t'"]
    by (intro exI [of _ "(snd t', fst t')"]) (auto simp: follow_def)
qed

lemma run_followed:
  assumes "layout_ok view" and "transports\<^sup>*\<^sup>* s s'" and "mirrored ca cb" and "follow ca cb t s"
  shows "\<exists>t'. (ip_step view)\<^sup>*\<^sup>* t t' \<and> follow ca cb t' s'"
  using assms(2)
proof (induction rule: rtranclp_induct)
  case base
  then show ?case using assms(4) by blast
next
  case (step s1 s2)
  then show ?case using step_followed [OF assms(1) step.hyps(2) assms(3)] by (meson rtranclp.rtrancl_into_rtrancl)
qed

section \<open>The capacity is a limit\<close>

text \<open>Nothing leaves a stream that is never read.\<close>

lemma unread_pushed:
  assumes "delivering S isn (rc, [])"
  shows "pushed (rc_reassembler rc) \<le> bs_capacity (TcpReceiver_output rc)"
proof -
  have "bs_popped (ra_output (rc_reassembler rc)) = 0" "bs_wf (ra_output (rc_reassembler rc))"
    using assms by (auto simp: delivering_def reassembling_def reasm_inv_def ra_inv_def ra_wf_def stored_ok_def)
  then show ?thesis by (auto simp: bs_wf_def TcpReceiver_output_def)
qed

lemma unread_stalls:
  assumes "in_step_both (a, b)" and "ep_read b = []" and "bs_capacity (TcpReceiver_output (receiver_of b)) < length (ep_written a)"
  shows "\<not> bs_closed (TcpReceiver_output (receiver_of b))"
    and "sn_una (sender_of a) \<le> 1 + bs_capacity (TcpReceiver_output (receiver_of b))" and "\<not> TcpSender_is_finished (sender_of a)"
proof -
  note g = in_step_bothD [OF assms(1)]
  have len: "length (ep_written a) < 2147483647" using g(4) by simp
  have del: "delivering (ep_written a) (sn_isn (sender_of a)) (receiver_of b, [])" using delivering_from [OF g(1) len] assms(2) by simp
  note d = delivering_facts [OF del] and le = unread_pushed [OF del]
  show open_end: "\<not> bs_closed (TcpReceiver_output (receiver_of b))" using d(3) le assms(3) by auto
  have "position (receiver_of b) \<le> 1 + bs_capacity (TcpReceiver_output (receiver_of b))" using le open_end by (simp add: position_def)
  then show una: "sn_una (sender_of a) \<le> 1 + bs_capacity (TcpReceiver_output (receiver_of b))" using g(2) by (auto simp: in_step_def)
  show "\<not> TcpSender_is_finished (sender_of a)"
  proof
    assume fin: "TcpSender_is_finished (sender_of a)"
    have ok: "sent_ok (ep_written a) (sender_of a)" using g(7) by (simp add: ep_ok_def tc_inv_def sn_inv_def)
    have "sn_una (sender_of a) = sn_nxt (sender_of a)" "sn_nxt (sender_of a) = length (ep_written a) + 2"
      using ok fin by (auto simp: TcpSender_is_finished_def sent_ok_def of_bool_def)
    then show False using una assms(3) by simp
  qed
qed

section \<open>Properties\<close>

definition peers :: "IpHostConfig \<Rightarrow> IpHostConfig \<Rightarrow> bool" where
  "peers ca cb \<longleftrightarrow> mirrored ca cb \<and> hc_local_port ca = hc_peer_port cb \<and> hc_peer_port ca = hc_local_port cb \<and>
     0 < hc_receiver_capacity ca \<and> 0 < hc_receiver_capacity cb"

lemma hosts_in_step:
  assumes "layout_ok view" and "host_config_ok ca" and "IpHost_new ca = Some ha" and "host_config_ok cb" and "IpHost_new cb = Some hb"
    and "peers ca cb" and "(ip_step view)\<^sup>*\<^sup>* ((ha, [], []), (hb, [], [])) ((ha', Wa, txa), (hb', Wb, txb))"
    and "length Wa < 2147483646" and "length Wb < 2147483646"
  obtains ea eb where "follow ca cb ((ha', Wa, txa), (hb', Wb, txb)) (ea, eb)" and "in_step_both (ea, eb)"
    and "bs_capacity (TcpReceiver_output (receiver_of ea)) = hc_receiver_capacity ca"
    and "bs_capacity (TcpReceiver_output (receiver_of eb)) = hc_receiver_capacity cb"
proof -
  have pc: "mirrored ca cb" "cc_local_port (connection_config ca) = cc_peer_port (connection_config cb)"
    "cc_peer_port (connection_config ca) = cc_local_port (connection_config cb)"
    "0 < cc_receiver_capacity (connection_config ca)" "0 < cc_receiver_capacity (connection_config cb)"
    using assms(6) by (simp_all add: peers_def connection_config_def TcpConnectionConfig_new_def)
  obtain tca tcb ea eb where new: "config_ok (connection_config ca)" "TcpConnection_new (connection_config ca) = Some tca"
      "config_ok (connection_config cb)" "TcpConnection_new (connection_config cb) = Some tcb"
    and run: "net_step\<^sup>*\<^sup>* (endpoint tca, endpoint tcb) (ea, eb)"
    and sim: "implements ca (ha', Wa, txa) ea" "implements cb (hb', Wb, txb) eb"
    by (rule hosts_endpoints [OF assms(2-5) pc(1) assms(7)])
  have W: "ep_written ea = Wa" "ep_written eb = Wb" using sim by (auto simp: implements_def)
  have "host_run_inv (ha, [], [])" "host_run_inv (hb, [], [])"
    using host_inv_new [OF assms(2)] host_inv_new [OF assms(4)] assms(3,5) by auto
  then have "host_run_inv (ha', Wa, txa)" "host_run_inv (hb', Wb, txb)" using ip_run_inv [OF assms(1,7)] by auto
  then have fol: "follow ca cb ((ha', Wa, txa), (hb', Wb, txb)) (ea, eb)" using sim by (simp add: follow_def)
  note i0 = in_step_both_new [OF new pc(2-5)]
  have i: "in_step_both (ea, eb)" using in_step_both_reach [OF run i0] assms(8,9) W by simp
  have "bs_capacity (TcpReceiver_output (tc_receiver tca)) = hc_receiver_capacity ca"
    "bs_capacity (TcpReceiver_output (tc_receiver tcb)) = hc_receiver_capacity cb"
    using new_capacity [OF new(2)] new_capacity [OF new(4)] by (simp_all add: connection_config_def TcpConnectionConfig_new_def)
  then have "bs_capacity (TcpReceiver_output (receiver_of ea)) = hc_receiver_capacity ca"
    "bs_capacity (TcpReceiver_output (receiver_of eb)) = hc_receiver_capacity cb"
    using reach_capacity [OF run i0] assms(8,9) W by (simp_all add: endpoint_def)
  then show thesis using that fol i by blast
qed


lemma example_peers: "peers example_host_config example_peer_host"
  using example_peer_host_ok(2) by (simp add: peers_def example_host_config_def example_peer_host_def IpHostConfig_tcp_demo_def)

lemma example_host_write:
  assumes "IpHost_new example_host_config = Some h" and "host_step repr_c (h, [], []) (HWrite [1, 2, 3]) = Some (h', W, tx)"
  shows "W = [1, 2, 3]"
  using assms by (auto simp: IpHost_new_def TcpConnection_new_def TcpConnectionConfig_new_def TcpSender_new_def example_host_config_def
      IpHostConfig_tcp_demo_def IpHost_write_def TcpConnection_write_def bind_eq_Some_conv ByteStream_push_def ByteStream_new_def
      run_simps TcpSenderConfig_default_def Let_def ByteStream_available_capacity_def split: if_splits)

lemma example_hosts_run:
  assumes "host_config_ok cb"
  obtains ha hb ha' txa where "IpHost_new example_host_config = Some ha" and "IpHost_new cb = Some hb"
    and "(ip_step repr_c)\<^sup>*\<^sup>* ((ha, [], []), (hb, [], [])) ((ha', [1, 2, 3], txa), (hb, [], []))"
proof -
  obtain ha hb where new: "IpHost_new example_host_config = Some ha" "IpHost_new cb = Some hb"
    and inv: "host_run_inv (ha, [], [])"
    using host_inv_new [OF example_host_config_ok] host_inv_new [OF assms] by auto
  obtain ha' W txa where a: "host_step repr_c (ha, [], []) (HWrite [1, 2, 3]) = Some (ha', W, txa)"
    using host.step_budget [OF inv, of "HWrite [1, 2, 3]"] by auto
  have "ip_step repr_c ((ha, [], []), (hb, [], [])) ((ha', W, txa), (hb, [], []))" by (rule act_left [OF _ a]) simp
  then show thesis using that new example_host_write [OF new(1) a] by blast
qed


text \<open>
  C5. A host stops at its receive capacity: it reports the payload of every segment as an event, but never
  reads the reassembled stream, so that its window only ever shrinks. In every reachable state it has
  accepted at most the capacity in bytes. If the peer's application writes more, no byte beyond the
  capacity is ever acknowledged, the end of the stream never arrives, and the peer never finishes.
\<close>

theorem hosts_stop_at_capacity:
  assumes "layout_ok ref_from_bytes" and "host_config_ok ca" and "IpHost_new ca = Some ha" and "host_config_ok cb"
    and "IpHost_new cb = Some hb" and "peers ca cb"
    and "(ip_step ref_from_bytes)\<^sup>*\<^sup>* ((ha, [], []), (hb, [], [])) ((ha', Wa, txa), (hb', Wb, txb))"
    and "length Wa < 2147483646" and "length Wb < 2147483646"
  shows "ByteStream_bytes_pushed (TcpReceiver_output (tc_receiver (host_connection hb'))) \<le> hc_receiver_capacity cb \<and>
    (hc_receiver_capacity cb < length Wa \<longrightarrow>
       sn_una (tc_sender (host_connection ha')) \<le> 1 + hc_receiver_capacity cb \<and>
       \<not> ByteStream_is_closed (TcpReceiver_output (tc_receiver (host_connection hb'))) \<and>
       \<not> TcpSender_is_finished (tc_sender (host_connection ha')))"
proof -
  obtain ea eb where fol: "follow ca cb ((ha', Wa, txa), (hb', Wb, txb)) (ea, eb)" and i: "in_step_both (ea, eb)"
    and cap: "bs_capacity (TcpReceiver_output (receiver_of eb)) = hc_receiver_capacity cb"
    by (rule hosts_in_step [OF assms])
  have e: "ep_written ea = Wa" "ep_read eb = []" "ep_connection ea = host_connection ha'" "ep_connection eb = host_connection hb'"
    using fol by (auto simp: follow_def implements_def)
  have "length (ep_written ea) < 2147483647" using in_step_bothD(4) [OF i] by simp
  then have "delivering Wa (sn_isn (sender_of ea)) (receiver_of eb, [])"
    using delivering_from [OF in_step_bothD(1) [OF i]] e(1,2) by simp
  from unread_pushed [OF this] show ?thesis using unread_stalls [OF i e(2)] e cap
    by (auto simp: ByteStream_bytes_pushed_def ByteStream_is_closed_def TcpReceiver_output_def)
qed

definition example_small_host :: IpHostConfig where
  "example_small_host = example_peer_host\<lparr>hc_receiver_capacity := 2\<rparr>"

lemma example_small_host_ok: "host_config_ok example_small_host" "peers example_host_config example_small_host"
  using example_peer_host_ok example_peers by (simp_all add: example_small_host_def host_config_ok_def peers_def mirrored_def)

theorem hosts_stop_at_capacity_witness:
  "\<exists>ha hb ha' txa. IpHost_new example_host_config = Some ha \<and> IpHost_new example_small_host = Some hb \<and>
    (ip_step repr_c)\<^sup>*\<^sup>* ((ha, [], []), (hb, [], [])) ((ha', [1, 2, 3], txa), (hb, [], [])) \<and>
    \<not> TcpSender_is_finished (tc_sender (host_connection ha'))"
proof -
  obtain ha hb ha' txa where run: "IpHost_new example_host_config = Some ha" "IpHost_new example_small_host = Some hb"
    "(ip_step repr_c)\<^sup>*\<^sup>* ((ha, [], []), (hb, [], [])) ((ha', [1, 2, 3], txa), (hb, [], []))"
    by (rule example_hosts_run [OF example_small_host_ok(1)])
  have "hc_receiver_capacity example_small_host < length [1 :: byte, 2, 3]" by (simp add: example_small_host_def)
  then show ?thesis
    using hosts_stop_at_capacity [OF layout_ok_repr_c example_host_config_ok run(1) example_small_host_ok(1) run(2)
        example_small_host_ok(2) run(3)] run
    by auto
qed

end
