(* ===== verification/Std_Io.thy ===== *)
theory Std_Io
  imports Prelude
begin

text \<open>
  What the programs use of the standard library's I/O and strings: errors, which are their kinds (the
  programs look at nothing else, and message texts are left out), printing, the lossy decoding of UTF-8,
  and the parsing of unsigned numbers.
\<close>

section \<open>Results\<close>

datatype ErrorKind = WouldBlock | Interrupted | InvalidInput | InvalidData | Unsupported | Other | OsError nat

type_synonym 'a io_result = "ErrorKind + 'a"

text \<open>The operations of a file: \<open>write_all\<close>, and \<open>read\<close> of at most so many bytes.\<close>

type_synonym 'f write_all = "'f \<Rightarrow> bytes \<Rightarrow> 'f \<times> unit io_result"
type_synonym 'f read = "'f \<Rightarrow> nat \<Rightarrow> 'f \<times> bytes io_result"

text \<open>
  The macros \<open>print!\<close>, \<open>println!\<close> and \<open>eprintln!\<close> on a stream that is written with \<open>write\<close>: they panic when the
  text cannot be written.
\<close>

definition print_text :: "'o write_all \<Rightarrow> 'o \<Rightarrow> bytes \<Rightarrow> 'o run" where
  "print_text write_all out text = (case write_all out text of (out, Inl e) \<Rightarrow> None | (out, Inr _) \<Rightarrow> Some out)"

definition print_line :: "'o write_all \<Rightarrow> 'o \<Rightarrow> string \<Rightarrow> 'o run" where
  "print_line write_all out text = print_text write_all out (map of_char text @ [10])"

fun print_lines :: "'o write_all \<Rightarrow> 'o \<Rightarrow> string list \<Rightarrow> 'o run" where
  "print_lines write_all out [] = Some out"
| "print_lines write_all out (x # xs) = do {
     out \<leftarrow> print_line write_all out x;
     print_lines write_all out xs
   }"

text \<open>A stream that can always be written.\<close>

definition writable :: "'o write_all \<Rightarrow> bool" where
  "writable write_all \<longleftrightarrow> (\<forall>out b. snd (write_all out b) = Inr ())"

lemma print_total:
  assumes "writable write_all"
  shows "\<exists>out'. print_text write_all out b = Some out'" "\<exists>out'. print_line write_all out x = Some out'"
    "\<exists>out'. print_lines write_all out xs = Some out'"
proof -
  have t: "\<exists>out'. print_text write_all out b = Some out'" for out b
  proof -
    have "snd (write_all out b) = Inr ()" using assms by (simp add: writable_def)
    then show ?thesis by (cases "write_all out b") (simp add: print_text_def)
  qed
  have l: "\<exists>out'. print_line write_all out x = Some out'" for out x using t by (simp add: print_line_def)
  show "\<exists>out'. print_text write_all out b = Some out'" "\<exists>out'. print_line write_all out x = Some out'" by (fact t l)+
  show "\<exists>out'. print_lines write_all out xs = Some out'"
  proof (induction xs arbitrary: out)
    case (Cons x xs)
    obtain out' where "print_line write_all out x = Some out'" using l by blast
    then show ?case using Cons.IH [of out'] by simp
  qed simp
qed

text \<open>Strings are their UTF-8 bytes.\<close>

definition string_of_bytes :: "bytes \<Rightarrow> string" where
  "string_of_bytes bs = map (\<lambda>b. char_of (unat b)) bs"

text \<open>Formatting of Booleans, and of optional numbers for debugging.\<close>

fun show_bool :: "bool \<Rightarrow> string" where
  "show_bool True = ''true''"
| "show_bool False = ''false''"

fun debug_option :: "nat option \<Rightarrow> string" where
  "debug_option None = ''None''"
| "debug_option (Some n) = ''Some('' @ string_of_nat n @ '')''"

section \<open>UTF-8\<close>

text \<open>
  \<open>String::from_utf8_lossy\<close> goes through the bytes character by character; the longest beginning of a
  character that is not valid becomes the replacement character U+FFFD. \<open>utf8_char\<close> is the number of bytes of the
  first character or of what is invalid, and whether it is a character.
\<close>

definition byte_or_0 :: "bytes \<Rightarrow> nat \<Rightarrow> byte" where
  "byte_or_0 bs i = (if i < length bs then bs ! i else 0)"

definition continues :: "byte \<Rightarrow> bool" where
  "continues b \<longleftrightarrow> 0x80 \<le> b \<and> b \<le> 0xBF"

definition second_of_3 :: "byte \<Rightarrow> byte \<Rightarrow> bool" where
  "second_of_3 a b \<longleftrightarrow> continues b \<and> (a = 0xE0 \<longrightarrow> 0xA0 \<le> b) \<and> (a = 0xED \<longrightarrow> b \<le> 0x9F)"

definition second_of_4 :: "byte \<Rightarrow> byte \<Rightarrow> bool" where
  "second_of_4 a b \<longleftrightarrow> continues b \<and> (a = 0xF0 \<longrightarrow> 0x90 \<le> b) \<and> (a = 0xF4 \<longrightarrow> b \<le> 0x8F)"

definition utf8_char :: "bytes \<Rightarrow> nat \<times> bool" where
  "utf8_char bs =
     (let a = byte_or_0 bs 0; b = byte_or_0 bs 1; c = byte_or_0 bs 2; d = byte_or_0 bs 3 in
      if a < 0x80 then (1, True)
      else if 0xC2 \<le> a \<and> a \<le> 0xDF then (if continues b then (2, True) else (1, False))
      else if 0xE0 \<le> a \<and> a \<le> 0xEF then
        (if second_of_3 a b then (if continues c then (3, True) else (2, False)) else (1, False))
      else if 0xF0 \<le> a \<and> a \<le> 0xF4 then
        (if second_of_4 a b
         then (if continues c then (if continues d then (4, True) else (3, False)) else (2, False))
         else (1, False))
      else (1, False))"

lemma utf8_char_pos: "0 < fst (utf8_char bs)"
  by (simp add: utf8_char_def Let_def)

function from_utf8_lossy :: "bytes \<Rightarrow> bytes" where
  "from_utf8_lossy bs =
     (if bs = [] then []
      else (if snd (utf8_char bs) then take (fst (utf8_char bs)) bs else [0xEF, 0xBF, 0xBD]) @
        from_utf8_lossy (drop (fst (utf8_char bs)) bs))"
  by pat_completeness auto

termination
  by (relation "measure length") (use utf8_char_pos in auto)

function utf8 :: "bytes \<Rightarrow> bool" where
  "utf8 bs \<longleftrightarrow> (if bs = [] then True else snd (utf8_char bs) \<and> utf8 (drop (fst (utf8_char bs)) bs))"
  by pat_completeness auto

termination
  by (relation "measure length") (use utf8_char_pos in auto)

declare from_utf8_lossy.simps [simp del] utf8.simps [simp del]

lemma from_utf8_lossy_valid: "utf8 bs \<Longrightarrow> from_utf8_lossy bs = bs"
proof (induction bs rule: utf8.induct)
  case (1 bs)
  then show ?case
    by (cases "bs = []") (simp_all add: from_utf8_lossy.simps [of bs] from_utf8_lossy.simps [of "[]"] utf8.simps [of bs])
qed

lemma utf8_ascii: "\<forall>b \<in> set bs. b < 0x80 \<Longrightarrow> utf8 bs"
proof (induction bs)
  case (Cons b bs)
  then have "utf8_char (b # bs) = (1, True)" by (simp add: utf8_char_def byte_or_0_def Let_def)
  then show ?case using Cons by (simp add: utf8.simps [of "b # bs"])
qed (simp add: utf8.simps [of "[]"])

section \<open>Parsing numbers\<close>

text \<open>\<open>char::to_digit\<close> for the radices 10 and 16.\<close>

definition to_digit :: "nat \<Rightarrow> char \<Rightarrow> nat option" where
  "to_digit radix c =
     (let n = of_char c :: nat;
          d = (if 48 \<le> n \<and> n \<le> 57 then n - 48
               else if 97 \<le> n \<and> n \<le> 102 then n - 87
               else if 65 \<le> n \<and> n \<le> 70 then n - 55
               else 36)
      in if d < radix then Some d else None)"

fun digits_value :: "nat \<Rightarrow> nat \<Rightarrow> nat \<Rightarrow> string \<Rightarrow> nat option" where
  "digits_value radix limit acc [] = Some acc"
| "digits_value radix limit acc (c # cs) =
     (case to_digit radix c of
        None \<Rightarrow> None
      | Some d \<Rightarrow> if acc * radix + d \<le> limit then digits_value radix limit (acc * radix + d) cs else None)"

text \<open>
  \<open>from_str_radix\<close> of an unsigned type with the greatest value \<open>limit\<close>: at least one digit, which a plus
  sign may precede.
\<close>

definition from_str_radix :: "nat \<Rightarrow> nat \<Rightarrow> string \<Rightarrow> nat option" where
  "from_str_radix radix limit s =
     (case s of
        [] \<Rightarrow> None
      | c # cs \<Rightarrow> if c = CHR ''+'' then (if cs = [] then None else digits_value radix limit 0 cs)
                  else digits_value radix limit 0 s)"

lemma digits_value_append:
  "digits_value radix limit acc (xs @ ys) =
     Option.bind (digits_value radix limit acc xs) (\<lambda>n. digits_value radix limit n ys)"
  by (induction xs arbitrary: acc) (auto split: option.splits)

lemma digits_value_le: "digits_value radix limit acc s = Some n \<Longrightarrow> acc \<le> limit \<Longrightarrow> n \<le> limit"
  by (induction s arbitrary: acc) (auto split: option.splits if_splits)

lemma from_str_radix_le: "from_str_radix radix limit s = Some n \<Longrightarrow> n \<le> limit"
  by (auto simp: from_str_radix_def simp del: digits_value.simps dest: digits_value_le split: list.splits if_splits)

lemma to_digit_char_of: "d < 10 \<Longrightarrow> to_digit 10 (char_of (48 + d)) = Some d"
  by (simp add: to_digit_def Let_def)

lemma digits_value_string_of_nat:
  "n \<le> limit \<Longrightarrow> digits_value 10 limit 0 (string_of_nat n) = Some n"
proof (induction n rule: string_of_nat.induct)
  case (1 n)
  show ?case
  proof (cases "n < 10")
    case True
    then show ?thesis using 1 to_digit_char_of [of n] by (simp add: string_of_nat.simps [of n])
  next
    case False
    then have "digits_value 10 limit 0 (string_of_nat (n div 10)) = Some (n div 10)" using 1 by auto
    then show ?thesis using False 1(2) to_digit_char_of [of "n mod 10"]
      by (simp add: string_of_nat.simps [of n] digits_value_append)
  qed
qed

lemma string_of_nat_digits: "c \<in> set (string_of_nat n) \<Longrightarrow> \<exists>d < (10 :: nat). c = char_of (48 + d)"
proof (induction n rule: string_of_nat.induct)
  case (1 n)
  show ?case
  proof (cases "c = char_of (48 + n mod 10)")
    case True
    then show ?thesis by (intro exI [of _ "n mod 10"]) simp
  next
    case False
    then show ?thesis using 1 by (cases "n < 10") (auto simp: string_of_nat.simps [of n])
  qed
qed

lemma string_of_nat_not_Nil: "string_of_nat n \<noteq> []"
  by (simp add: string_of_nat.simps [of n])

lemma digit_not_plus: "d < 10 \<Longrightarrow> char_of (48 + d :: nat) \<noteq> CHR ''+''"
  by (auto simp: char_of_eq_iff take_bit_eq_mod)

lemma parse_string_of_nat: "n \<le> limit \<Longrightarrow> from_str_radix 10 limit (string_of_nat n) = Some n"
  using digits_value_string_of_nat [of n limit] string_of_nat_not_Nil [of n] string_of_nat_digits [of _ n] digit_not_plus
  by (cases "string_of_nat n") (force simp: from_str_radix_def)+

end
