(* ===== verification/Ethernet_Frame.thy ===== *)
theory Ethernet_Frame
  imports Wire_Format
begin

text \<open>\<open>src/ethernet_frame.rs\<close>: Ethernet addresses, their display, and frames.\<close>

section \<open>Model\<close>

abbreviation ETHERNET_HEADER_LEN :: nat where "ETHERNET_HEADER_LEN \<equiv> 14"

definition ETHERTYPE_IPV4 :: u16 where "ETHERTYPE_IPV4 = 0x0800"
definition ETHERTYPE_ARP :: u16 where "ETHERTYPE_ARP = 0x0806"

type_synonym EthernetAddress = octets6

definition EthernetAddress_BROADCAST :: EthernetAddress where
  "EthernetAddress_BROADCAST = (0xff, 0xff, 0xff, 0xff, 0xff, 0xff)"

definition EthernetAddress_ZERO :: EthernetAddress where
  "EthernetAddress_ZERO = (0, 0, 0, 0, 0, 0)"

definition EthernetAddress_is_broadcast :: "EthernetAddress \<Rightarrow> bool" where
  "EthernetAddress_is_broadcast self = (self = EthernetAddress_BROADCAST)"

text \<open>The \<open>{:02x}\<close> format of a byte.\<close>

definition hex_digit :: "nat \<Rightarrow> char" where
  "hex_digit n = char_of (if n < 10 then 48 + n else 87 + n)"

definition hex2 :: "byte \<Rightarrow> string" where
  "hex2 b = [hex_digit (unat b div 16), hex_digit (unat b mod 16)]"

definition EthernetAddress_fmt :: "EthernetAddress \<Rightarrow> string" where
  "EthernetAddress_fmt self =
     (case self of (a, b, c, d, e, f) \<Rightarrow>
        hex2 a @ '':'' @ hex2 b @ '':'' @ hex2 c @ '':'' @ hex2 d @ '':'' @ hex2 e @ '':'' @ hex2 f)"

record EthernetHeader =
  eh_dst :: EthernetAddress
  eh_src :: EthernetAddress
  eh_ethertype :: u16

record EthernetFrame =
  ef_header :: EthernetHeader
  ef_payload :: bytes

datatype EthernetParseError = FrameTooShort

fun EthernetParseError_debug :: "EthernetParseError \<Rightarrow> string" where
  "EthernetParseError_debug FrameTooShort = ''FrameTooShort''"

definition EthernetFrame_new :: "EthernetAddress \<Rightarrow> EthernetAddress \<Rightarrow> u16 \<Rightarrow> bytes \<Rightarrow> EthernetFrame" where
  "EthernetFrame_new dst src ethertype payload =
     \<lparr> ef_header = \<lparr> eh_dst = dst, eh_src = src, eh_ethertype = ethertype \<rparr>, ef_payload = payload \<rparr>"

definition EthernetFrame_ipv4 :: "EthernetAddress \<Rightarrow> EthernetAddress \<Rightarrow> bytes \<Rightarrow> EthernetFrame" where
  "EthernetFrame_ipv4 dst src payload = EthernetFrame_new dst src ETHERTYPE_IPV4 payload"

definition EthernetFrame_arp :: "EthernetAddress \<Rightarrow> EthernetAddress \<Rightarrow> bytes \<Rightarrow> EthernetFrame" where
  "EthernetFrame_arp dst src payload = EthernetFrame_new dst src ETHERTYPE_ARP payload"

definition EthernetFrame_is_for :: "EthernetFrame \<Rightarrow> EthernetAddress \<Rightarrow> bool" where
  "EthernetFrame_is_for self ethernet_address =
     (eh_dst (ef_header self) = ethernet_address \<or> EthernetAddress_is_broadcast (eh_dst (ef_header self)))"

definition EthernetFrame_serialize :: "EthernetFrame \<Rightarrow> bytes" where
  "EthernetFrame_serialize self =
     octets6_bytes (eh_dst (ef_header self)) @ octets6_bytes (eh_src (ef_header self)) @
     be16 (eh_ethertype (ef_header self)) @ ef_payload self"

definition EthernetFrame_parse_bytes :: "bytes \<Rightarrow> (EthernetParseError + EthernetFrame) run" where
  "EthernetFrame_parse_bytes data =
     (if length data < ETHERNET_HEADER_LEN then Some (Inl FrameTooShort)
      else do {
        let dst = (data ! 0, data ! 1, data ! 2, data ! 3, data ! 4, data ! 5);
        let src = (data ! 6, data ! 7, data ! 8, data ! 9, data ! 10, data ! 11);
        let ethertype = from_be16 (data ! 12) (data ! 13);
        payload \<leftarrow> slice_from ETHERNET_HEADER_LEN data;
        Some (Inr \<lparr> ef_header = \<lparr> eh_dst = dst, eh_src = src, eh_ethertype = ethertype \<rparr>,
                    ef_payload = payload \<rparr>)
      })"

definition EthernetFrame_parse :: "bytes \<Rightarrow> (EthernetParseError + EthernetFrame) run" where
  "EthernetFrame_parse data = EthernetFrame_parse_bytes data"

section \<open>Round trip\<close>

lemma eth_parse_serialized: "EthernetFrame_parse_bytes (EthernetFrame_serialize f) = Some (Inr f)"
proof -
  obtain d0 d1 d2 d3 d4 d5 s0 s1 s2 s3 s4 s5 where
    addr: "eh_dst (ef_header f) = (d0, d1, d2, d3, d4, d5)" "eh_src (ef_header f) = (s0, s1, s2, s3, s4, s5)"
    by (metis prod.exhaust)
  have "f = \<lparr> ef_header = \<lparr> eh_dst = (d0, d1, d2, d3, d4, d5), eh_src = (s0, s1, s2, s3, s4, s5),
      eh_ethertype = eh_ethertype (ef_header f) \<rparr>, ef_payload = ef_payload f \<rparr>"
    using addr by (cases f; cases "ef_header f") simp
  then show ?thesis
    unfolding EthernetFrame_parse_bytes_def EthernetFrame_serialize_def addr octets6_bytes_def be16_def
    by (simp add: slice_from_def from_be16_be16 del: of_nat_unat)
qed

text \<open>The format is exact: what is parsed serializes to the same bytes.\<close>

lemma eth_serialize_parsed:
  assumes "EthernetFrame_parse_bytes bs = Some (Inr f)"
  shows "EthernetFrame_serialize f = bs"
proof -
  have "14 \<le> length bs" using assms by (auto simp: EthernetFrame_parse_bytes_def not_less split: if_splits)
  then obtain b0 b1 b2 b3 b4 b5 b6 b7 b8 b9 b10 b11 b12 b13 rest
    where "bs = b0 # b1 # b2 # b3 # b4 # b5 # b6 # b7 # b8 # b9 # b10 # b11 # b12 # b13 # rest"
    by (auto simp: Suc_le_length_iff numeral_eq_Suc)
  then show ?thesis using assms
    by (auto simp: EthernetFrame_parse_bytes_def EthernetFrame_serialize_def slice_from_def
        octets6_bytes_def be16_from_be16)
qed

interpretation eth_wire: wire_format "\<lambda>f. Some (EthernetFrame_serialize f)" EthernetFrame_parse_bytes "\<lambda>_. True"
  by unfold_locales (auto simp: eth_parse_serialized)

section \<open>Properties\<close>

text \<open>
  Frames and byte strings of at least 14 bytes correspond one to one: parsing what was serialized
  gives the frame back, serializing what was parsed gives the bytes back, and exactly the byte strings
  shorter than a header are rejected.
\<close>

lemma ethernet_bijection:
  "EthernetFrame_parse_bytes (EthernetFrame_serialize f) = Some (Inr f) \<and>
   (EthernetFrame_parse_bytes bs = Some (Inr g) \<longrightarrow> EthernetFrame_serialize g = bs) \<and>
   (EthernetFrame_parse_bytes bs = Some (Inl FrameTooShort) \<longleftrightarrow> length bs < 14) \<and>
   EthernetFrame_parse_bytes bs \<noteq> None"
proof -
  have "EthernetFrame_parse_bytes bs = Some (Inl FrameTooShort) \<longleftrightarrow> length bs < 14"
    and "EthernetFrame_parse_bytes bs \<noteq> None"
    by (simp_all add: EthernetFrame_parse_bytes_def slice_from_def)
  then show ?thesis using eth_wire.decodes eth_serialize_parsed by blast
qed

definition example_frame :: EthernetFrame where
  "example_frame = EthernetFrame_ipv4 EthernetAddress_BROADCAST (2, 0, 0, 0, 0, 1) [1, 2, 3]"

end
