(* ===== verification/Host_Cli.thy ===== *)
theory Host_Cli
  imports Std_Io Ethernet_Frame Wrapping_Integers
begin

text \<open>
  The command lines of the host programs: \<open>src/bin/common/host_cli.rs\<close> and the \<open>parse_args\<close> of
  \<open>src/bin/tap_host.rs\<close> and \<open>src/bin/tun_host.rs\<close>. \<open>Ipv4Addr::from_str\<close> is the standard library's parser: four
  numbers of at most three digits, without leading zeros, separated by dots.
\<close>

section \<open>Values\<close>

fun require_arg :: "string list \<Rightarrow> nat \<Rightarrow> string io_result" where
  "require_arg args index = (if index < length args then Inr (args ! index) else Inl InvalidInput)"

text \<open>\<open>read_number\<close>: the digits at the front; \<open>count\<close> of them so far.\<close>

fun read_digits :: "nat \<Rightarrow> nat \<Rightarrow> string \<Rightarrow> (nat \<times> nat \<times> string) option" where
  "read_digits acc count [] = Some (acc, count, [])"
| "read_digits acc count (c # cs) =
     (case to_digit 10 c of
        None \<Rightarrow> Some (acc, count, c # cs)
      | Some d \<Rightarrow> if acc * 10 + d \<le> 255 \<and> count < 3 then read_digits (acc * 10 + d) (count + 1) cs else None)"

definition read_octet :: "string \<Rightarrow> (byte \<times> string) option" where
  "read_octet s =
     (case read_digits 0 0 s of
        None \<Rightarrow> None
      | Some (n, count, rest) \<Rightarrow>
          if count = 0 \<or> s ! 0 = CHR ''0'' \<and> count > 1 then None else Some (of_nat n, rest))"

fun read_dot :: "string \<Rightarrow> string option" where
  "read_dot (c # cs) = (if c = CHR ''.'' then Some cs else None)"
| "read_dot [] = None"

definition Ipv4Addr_from_str :: "string \<Rightarrow> octets4 option" where
  "Ipv4Addr_from_str s =
     (if length s > 15 then None
      else do {
        (a, s) \<leftarrow> read_octet s;
        s \<leftarrow> read_dot s;
        (b, s) \<leftarrow> read_octet s;
        s \<leftarrow> read_dot s;
        (c, s) \<leftarrow> read_octet s;
        s \<leftarrow> read_dot s;
        (d, s) \<leftarrow> read_octet s;
        if s = [] then Some (a, b, c, d) else None
      })"

definition parse_ipv4 :: "string \<Rightarrow> octets4 io_result" where
  "parse_ipv4 value = (case Ipv4Addr_from_str value of None \<Rightarrow> Inl InvalidInput | Some octets \<Rightarrow> Inr octets)"

definition parse_port :: "string \<Rightarrow> u16 io_result" where
  "parse_port value =
     (case from_str_radix 10 U16_MAX value of
        None \<Rightarrow> Inl InvalidInput
      | Some port \<Rightarrow> if port = 0 then Inl InvalidInput else Inr (of_nat port))"

definition fmt_ip :: "octets4 \<Rightarrow> string" where
  "fmt_ip = (\<lambda>(a, b, c, d). string_of_nat (unat a) @ ''.'' @ string_of_nat (unat b) @ ''.'' @
     string_of_nat (unat c) @ ''.'' @ string_of_nat (unat d))"

text \<open>\<open>str::split\<close> at a character: the pieces between its occurrences.\<close>

fun split_at :: "char \<Rightarrow> string \<Rightarrow> string \<Rightarrow> string list" where
  "split_at sep piece [] = [piece]"
| "split_at sep piece (c # cs) = (if c = sep then piece # split_at sep [] cs else split_at sep (piece @ [c]) cs)"

fun parse_mac_loop :: "string list \<Rightarrow> bytes io_result" where
  "parse_mac_loop [] = Inr []"
| "parse_mac_loop (part # parts) =
     (if length part \<noteq> 2 then Inl InvalidInput
      else case from_str_radix 16 255 part of
        None \<Rightarrow> Inl InvalidInput
      | Some octet \<Rightarrow>
          (case parse_mac_loop parts of Inl e \<Rightarrow> Inl e | Inr octets \<Rightarrow> Inr (of_nat octet # octets)))"

definition parse_mac :: "string \<Rightarrow> EthernetAddress io_result" where
  "parse_mac value =
     (let parts = split_at (CHR '':'') [] value in
      if length parts \<noteq> 6 then Inl InvalidInput
      else case parse_mac_loop parts of
        Inl e \<Rightarrow> Inl e
      | Inr octets \<Rightarrow> Inr (octets ! 0, octets ! 1, octets ! 2, octets ! 3, octets ! 4, octets ! 5))"

section \<open>Command lines\<close>

text \<open>The configurations of the two programs; \<open>tun_host\<close> has the same without the Ethernet address.\<close>

record Config =
  cfg_local_ip :: octets4
  cfg_peer_ip :: octets4
  cfg_local_port :: u16
  cfg_peer_port :: u16
  cfg_isn :: Wrap32
  cfg_pcap_path :: "string option"

record TunConfig = Config +
  cfg_tun_name :: string

record TapConfig = Config +
  cfg_tap_name :: string
  cfg_local_mac :: EthernetAddress

definition TapConfig_default :: TapConfig where
  "TapConfig_default =
     \<lparr> cfg_local_ip = (169, 254, 144, 2), cfg_peer_ip = (169, 254, 144, 1), cfg_local_port = 50000,
       cfg_peer_port = 9090, cfg_isn = Wrap32 1000000, cfg_pcap_path = None, cfg_tap_name = ''tap144'',
       cfg_local_mac = (0x02, 0x00, 0x00, 0x00, 0x00, 0x02) \<rparr>"

definition TunConfig_default :: TunConfig where
  "TunConfig_default =
     \<lparr> cfg_local_ip = (169, 254, 144, 2), cfg_peer_ip = (169, 254, 144, 1), cfg_local_port = 50000,
       cfg_peer_port = 9090, cfg_isn = Wrap32 1000000, cfg_pcap_path = None, cfg_tun_name = ''tun144'' \<rparr>"

text \<open>The options that both programs have: what they do to the configuration with their value.\<close>

definition set_isn :: "string \<Rightarrow> Wrap32 io_result" where
  "set_isn value = (case from_str_radix 10 U32_MAX value of None \<Rightarrow> Inl InvalidInput | Some raw \<Rightarrow> Inr (Wrap32 (of_nat raw)))"

definition apply_value :: "('v \<Rightarrow> 'c \<Rightarrow> 'c) \<Rightarrow> 'v io_result \<Rightarrow> 'c \<Rightarrow> 'c io_result" where
  "apply_value update v config = (case v of Inl e \<Rightarrow> Inl e | Inr x \<Rightarrow> Inr (update x config))"

text \<open>
  \<open>None\<close> is the exit after the help text. The index of the loop is the position of the option; its value is
  the next argument.
\<close>

definition common_option :: "string \<Rightarrow> string \<Rightarrow> 'a Config_scheme \<Rightarrow> 'a Config_scheme io_result" where
  "common_option flag value config =
     (if flag = ''--local-ip'' then apply_value (\<lambda>x c. c\<lparr> cfg_local_ip := x \<rparr>) (parse_ipv4 value) config
      else if flag = ''--peer-ip'' then apply_value (\<lambda>x c. c\<lparr> cfg_peer_ip := x \<rparr>) (parse_ipv4 value) config
      else if flag = ''--local-port'' then apply_value (\<lambda>x c. c\<lparr> cfg_local_port := x \<rparr>) (parse_port value) config
      else if flag = ''--peer-port'' then apply_value (\<lambda>x c. c\<lparr> cfg_peer_port := x \<rparr>) (parse_port value) config
      else if flag = ''--isn'' then apply_value (\<lambda>x c. c\<lparr> cfg_isn := x \<rparr>) (set_isn value) config
      else if flag = ''--pcap'' then Inr (config\<lparr> cfg_pcap_path := Some value \<rparr>)
      else Inl InvalidInput)"

text \<open>An option without a value is an error of the same kind as an unknown option.\<close>

definition tap_option :: "string \<Rightarrow> string io_result \<Rightarrow> TapConfig \<Rightarrow> TapConfig io_result" where
  "tap_option flag required config =
     (case required of
        Inl e \<Rightarrow> Inl e
      | Inr value \<Rightarrow>
          if flag = ''--tap'' then Inr (config\<lparr> cfg_tap_name := value \<rparr>)
          else if flag = ''--local-mac'' then apply_value (\<lambda>x c. c\<lparr> cfg_local_mac := x \<rparr>) (parse_mac value) config
          else common_option flag value config)"

function tap_args_loop :: "string list \<Rightarrow> nat \<Rightarrow> TapConfig \<Rightarrow> TapConfig io_result option" where
  "tap_args_loop args i config =
     (if \<not> i < length args then Some (Inr config)
      else if args ! i = ''--help'' \<or> args ! i = ''-h'' then None
      else case tap_option (args ! i) (require_arg args (i + 1)) config of
        Inl e \<Rightarrow> Some (Inl e)
      | Inr config \<Rightarrow> tap_args_loop args (i + 2) config)"
  by pat_completeness auto

termination
  by (relation "measure (\<lambda>(args, i, config). length args - i)") auto

definition tun_option :: "string \<Rightarrow> string io_result \<Rightarrow> TunConfig \<Rightarrow> TunConfig io_result" where
  "tun_option flag required config =
     (case required of
        Inl e \<Rightarrow> Inl e
      | Inr value \<Rightarrow>
          if flag = ''--tun'' then Inr (config\<lparr> cfg_tun_name := value \<rparr>)
          else common_option flag value config)"

function tun_args_loop :: "string list \<Rightarrow> nat \<Rightarrow> TunConfig \<Rightarrow> TunConfig io_result option" where
  "tun_args_loop args i config =
     (if \<not> i < length args then Some (Inr config)
      else if args ! i = ''--help'' \<or> args ! i = ''-h'' then None
      else case tun_option (args ! i) (require_arg args (i + 1)) config of
        Inl e \<Rightarrow> Some (Inl e)
      | Inr config \<Rightarrow> tun_args_loop args (i + 2) config)"
  by pat_completeness auto

termination
  by (relation "measure (\<lambda>(args, i, config). length args - i)") auto

declare tap_args_loop.simps [simp del] tun_args_loop.simps [simp del]

definition tap_parse_args :: "string list \<Rightarrow> TapConfig io_result option" where
  "tap_parse_args args =
     (case tap_args_loop args 1 TapConfig_default of
        None \<Rightarrow> None
      | Some (Inl e) \<Rightarrow> Some (Inl e)
      | Some (Inr config) \<Rightarrow>
          if cfg_local_ip config = cfg_peer_ip config then Some (Inl InvalidInput)
          else if cfg_local_port config = cfg_peer_port config then Some (Inl InvalidInput)
          else Some (Inr config))"

definition tun_parse_args :: "string list \<Rightarrow> TunConfig io_result option" where
  "tun_parse_args args =
     (case tun_args_loop args 1 TunConfig_default of
        None \<Rightarrow> None
      | Some (Inl e) \<Rightarrow> Some (Inl e)
      | Some (Inr config) \<Rightarrow>
          if cfg_local_ip config = cfg_peer_ip config then Some (Inl InvalidInput)
          else if cfg_local_port config = cfg_peer_port config then Some (Inl InvalidInput)
          else Some (Inr config))"

section \<open>Printed values parse back\<close>

definition digit :: "char \<Rightarrow> bool" where
  "digit c \<longleftrightarrow> to_digit 10 c \<noteq> None"

definition stops :: "string \<Rightarrow> bool" where
  "stops s \<longleftrightarrow> s = [] \<or> \<not> digit (hd s)"

lemma read_digits_eq:
  "digits_value 10 255 acc s = Some n \<Longrightarrow> count + length s \<le> 3 \<Longrightarrow> stops rest \<Longrightarrow>
     read_digits acc count (s @ rest) = Some (n, count + length s, rest)"
proof (induction s arbitrary: acc count)
  case Nil
  then show ?case by (cases rest) (auto simp: stops_def digit_def)
next
  case (Cons c s)
  then show ?case by (auto split: option.splits if_splits)
qed

lemma string_of_small:
  assumes "n < 256"
  shows "length (string_of_nat n) \<le> 3" "string_of_nat n ! 0 = CHR ''0'' \<Longrightarrow> length (string_of_nat n) = 1"
proof -
  have zero: "char_of (48 + d) = CHR ''0'' \<longleftrightarrow> d = 0" if "d < 10" for d :: nat
    using that by (auto simp: char_of_eq_iff take_bit_eq_mod)
  note unf = string_of_nat.simps [of n] string_of_nat.simps [of "n div 10"] string_of_nat.simps [of "n div 10 div 10"]
  show "length (string_of_nat n) \<le> 3" using assms by (auto simp: unf)
  show "length (string_of_nat n) = 1" if "string_of_nat n ! 0 = CHR ''0''"
    using that assms zero [of "n div 10"] zero [of "n div 10 div 10"]
    by (auto simp: unf nth_append split: if_splits)
qed

lemma read_octet_string_of_nat:
  assumes "stops rest"
  shows "read_octet (string_of_nat (unat b) @ rest) = Some (b, rest)"
proof -
  let ?s = "string_of_nat (unat b)"
  have n: "unat b < 256" by (rule unat_byte_less)
  have "read_digits 0 0 (?s @ rest) = Some (unat b, length ?s, rest)"
    using read_digits_eq [OF digits_value_string_of_nat, of "unat b" 0 rest] n string_of_small(1) [OF n] assms by simp
  moreover have "(?s @ rest) ! 0 = ?s ! 0" using string_of_nat_not_Nil [of "unat b"] by (simp add: nth_append)
  ultimately show ?thesis using string_of_small(2) [OF n] string_of_nat_not_Nil [of "unat b"]
    by (auto simp: read_octet_def)
qed

lemma parse_fmt_ip: "parse_ipv4 (fmt_ip ip) = Inr ip"
proof -
  obtain a b c d where ip: "ip = (a, b, c, d)" by (cases ip)
  have dot: "stops (''.'' @ s)" "stops []" for s by (simp_all add: stops_def digit_def to_digit_def)
  have "length (string_of_nat (unat x)) \<le> 3" for x :: byte by (rule string_of_small(1) [OF unat_byte_less])
  from this [of a] this [of b] this [of c] this [of d]
  have "length (fmt_ip ip) \<le> 15" by (simp add: fmt_ip_def ip)
  then have "Ipv4Addr_from_str (fmt_ip ip) = Some ip"
    using read_octet_string_of_nat [OF dot(1)] read_octet_string_of_nat [OF dot(2)]
    by (simp add: Ipv4Addr_from_str_def fmt_ip_def ip)
  then show ?thesis by (simp add: parse_ipv4_def)
qed

lemma parse_printed_port: "port \<noteq> 0 \<Longrightarrow> parse_port (string_of_nat (unat port)) = Inr port"
  using parse_string_of_nat [of "unat port" U16_MAX] unat_u16_less [of port]
  by (simp add: parse_port_def unat_eq_zero)

lemma parse_printed_isn: "set_isn (string_of_nat (unat (raw_value isn))) = Inr isn"
  using parse_string_of_nat [of "unat (raw_value isn)" U32_MAX] unat_u32_less [of "raw_value isn"]
  by (cases isn) (simp add: set_isn_def)

lemma hex_digit_value:
  assumes "n < 16"
  shows "to_digit 16 (hex_digit n) = Some n" "hex_digit n \<noteq> CHR ''+''" "hex_digit n \<noteq> CHR '':''"
  using assms by (auto simp: hex_digit_def to_digit_def Let_def char_of_eq_iff take_bit_eq_mod)

lemma parse_hex2: "from_str_radix 16 255 (hex2 b) = Some (unat b)"
proof -
  have "unat b div 16 < 16" "unat b mod 16 < 16" "unat b < 256" using unat_byte_less [of b] by auto
  then show ?thesis using hex_digit_value [of "unat b div 16"] hex_digit_value [of "unat b mod 16"]
    by (simp add: from_str_radix_def hex2_def)
qed

lemma split_piece: "CHR '':'' \<notin> set s \<Longrightarrow> split_at (CHR '':'') piece (s @ CHR '':'' # rest) = (piece @ s) # split_at (CHR '':'') [] rest"
  and split_last: "CHR '':'' \<notin> set s \<Longrightarrow> split_at (CHR '':'') piece s = [piece @ s]"
  by (induction s arbitrary: piece) auto

lemma hex2_no_colon: "CHR '':'' \<notin> set (hex2 b)"
proof -
  have "unat b div 16 < 16" using unat_byte_less [of b] by auto
  then show ?thesis using hex_digit_value(3) [of "unat b div 16"] hex_digit_value(3) [of "unat b mod 16"]
    by (auto simp: hex2_def)
qed

lemma parse_printed_mac: "parse_mac (EthernetAddress_fmt mac) = Inr mac"
proof -
  obtain a b c d e f where mac: "mac = (a, b, c, d, e, f)" by (cases mac)
  have "split_at (CHR '':'') [] (EthernetAddress_fmt mac) = [hex2 a, hex2 b, hex2 c, hex2 d, hex2 e, hex2 f]"
    by (simp add: EthernetAddress_fmt_def mac split_piece split_last hex2_no_colon)
  moreover have "length (hex2 x) = 2" for x by (simp add: hex2_def)
  ultimately show ?thesis by (simp add: parse_mac_def parse_hex2 mac)
qed

text \<open>A plus sign passes for a hexadecimal digit, since \<open>from_str_radix\<close> accepts it in front of a number.\<close>

lemma parse_mac_plus: "parse_mac ''02:00:00:00:00:+f'' = Inr (2, 0, 0, 0, 0, 15)"
  by (simp add: parse_mac_def from_str_radix_def to_digit_def Let_def)

section \<open>Accepted command lines\<close>

text \<open>The arguments that spell out a configuration.\<close>

definition tap_command_line :: "TapConfig \<Rightarrow> string list" where
  "tap_command_line c =
     [''--tap'', cfg_tap_name c, ''--local-mac'', EthernetAddress_fmt (cfg_local_mac c),
      ''--local-ip'', fmt_ip (cfg_local_ip c), ''--peer-ip'', fmt_ip (cfg_peer_ip c),
      ''--local-port'', string_of_nat (unat (cfg_local_port c)), ''--peer-port'', string_of_nat (unat (cfg_peer_port c)),
      ''--isn'', string_of_nat (unat (raw_value (cfg_isn c)))] @
     (case cfg_pcap_path c of None \<Rightarrow> [] | Some path \<Rightarrow> [''--pcap'', path])"

definition tun_command_line :: "TunConfig \<Rightarrow> string list" where
  "tun_command_line c =
     [''--tun'', cfg_tun_name c,
      ''--local-ip'', fmt_ip (cfg_local_ip c), ''--peer-ip'', fmt_ip (cfg_peer_ip c),
      ''--local-port'', string_of_nat (unat (cfg_local_port c)), ''--peer-port'', string_of_nat (unat (cfg_peer_port c)),
      ''--isn'', string_of_nat (unat (raw_value (cfg_isn c)))] @
     (case cfg_pcap_path c of None \<Rightarrow> [] | Some path \<Rightarrow> [''--pcap'', path])"

definition valid_config :: "'a Config_scheme \<Rightarrow> bool" where
  "valid_config c \<longleftrightarrow> cfg_local_ip c \<noteq> cfg_peer_ip c \<and> cfg_local_port c \<noteq> cfg_peer_port c \<and>
     cfg_local_port c \<noteq> 0 \<and> cfg_peer_port c \<noteq> 0"

lemmas printed_values = parse_fmt_ip parse_printed_port parse_printed_isn parse_printed_mac apply_value_def

lemma tap_loop_command_line:
  assumes "cfg_local_port c \<noteq> 0" "cfg_peer_port c \<noteq> 0"
  shows "tap_args_loop (prog # tap_command_line c) 1 TapConfig_default = Some (Inr c)"
  using assms
  by (cases c; cases "cfg_pcap_path c")
    (simp_all add: tap_args_loop.simps tap_option_def common_option_def tap_command_line_def printed_values TapConfig_default_def Let_def)

lemma tun_loop_command_line:
  assumes "cfg_local_port c \<noteq> 0" "cfg_peer_port c \<noteq> 0"
  shows "tun_args_loop (prog # tun_command_line c) 1 TunConfig_default = Some (Inr c)"
  using assms
  by (cases c; cases "cfg_pcap_path c")
    (simp_all add: tun_args_loop.simps tun_option_def common_option_def tun_command_line_def printed_values TunConfig_default_def Let_def)

text \<open>The ports of a configuration stay nonzero.\<close>

definition ports_ok :: "'a Config_scheme \<Rightarrow> bool" where
  "ports_ok c \<longleftrightarrow> cfg_local_port c \<noteq> 0 \<and> cfg_peer_port c \<noteq> 0"

lemma parse_port_nonzero:
  assumes "parse_port v = Inr p"
  shows "p \<noteq> 0"
proof -
  obtain n where "from_str_radix 10 U16_MAX v = Some n" and n: "n \<noteq> 0" and p: "p = of_nat n"
    using assms by (auto simp: parse_port_def split: option.splits if_splits)
  then have "n \<le> U16_MAX" using from_str_radix_le by blast
  then have "unat p = n" using p by (simp add: unat_of_nat16)
  then show ?thesis using n by auto
qed

lemma common_option_ports: "common_option flag v c = Inr c' \<Longrightarrow> ports_ok c \<Longrightarrow> ports_ok c'"
  by (auto simp: common_option_def ports_ok_def apply_value_def dest: parse_port_nonzero split: if_splits sum.splits)

lemma tap_option_ports: "tap_option flag v c = Inr c' \<Longrightarrow> ports_ok c \<Longrightarrow> ports_ok c'"
  by (auto simp: tap_option_def apply_value_def dest: common_option_ports split: if_splits sum.splits)
    (auto simp: ports_ok_def)

lemma tun_option_ports: "tun_option flag v c = Inr c' \<Longrightarrow> ports_ok c \<Longrightarrow> ports_ok c'"
  by (auto simp: tun_option_def dest: common_option_ports split: if_splits sum.splits)
    (auto simp: ports_ok_def)

lemma tap_loop_ports: "tap_args_loop args i c = Some (Inr c') \<Longrightarrow> ports_ok c \<Longrightarrow> ports_ok c'"
proof (induction args i c rule: tap_args_loop.induct)
  case (1 args i c)
  then show ?case
    by (cases "tap_option (args ! i) (require_arg args (i + 1)) c")
      (auto simp: tap_args_loop.simps [of args i c] dest: tap_option_ports split: if_splits)
qed

lemma tun_loop_ports: "tun_args_loop args i c = Some (Inr c') \<Longrightarrow> ports_ok c \<Longrightarrow> ports_ok c'"
proof (induction args i c rule: tun_args_loop.induct)
  case (1 args i c)
  then show ?case
    by (cases "tun_option (args ! i) (require_arg args (i + 1)) c")
      (auto simp: tun_args_loop.simps [of args i c] dest: tun_option_ports split: if_splits)
qed

lemma tap_parse_valid:
  assumes "tap_parse_args args = Some (Inr c)"
  shows "valid_config c"
proof -
  have l: "tap_args_loop args 1 TapConfig_default = Some (Inr c)"
    and d: "cfg_local_ip c \<noteq> cfg_peer_ip c" "cfg_local_port c \<noteq> cfg_peer_port c"
    using assms by (auto simp: tap_parse_args_def split: option.splits sum.splits if_splits)
  have "ports_ok c" by (rule tap_loop_ports [OF l]) (simp add: ports_ok_def TapConfig_default_def)
  then show ?thesis using d by (simp add: valid_config_def ports_ok_def)
qed

lemma tun_parse_valid:
  assumes "tun_parse_args args = Some (Inr c)"
  shows "valid_config c"
proof -
  have l: "tun_args_loop args 1 TunConfig_default = Some (Inr c)"
    and d: "cfg_local_ip c \<noteq> cfg_peer_ip c" "cfg_local_port c \<noteq> cfg_peer_port c"
    using assms by (auto simp: tun_parse_args_def split: option.splits sum.splits if_splits)
  have "ports_ok c" by (rule tun_loop_ports [OF l]) (simp add: ports_ok_def TunConfig_default_def)
  then show ?thesis using d by (simp add: valid_config_def ports_ok_def)
qed

section \<open>Properties\<close>

text \<open>
  C35. Command lines: the arguments that spell out a configuration, with addresses, ports and the
  initial sequence number as they are printed, are parsed to exactly that configuration, provided that
  the addresses differ and the ports differ and are not 0; and every command line that is accepted gives
  such a configuration.
\<close>

theorem command_line_roundtrip:
  assumes "valid_config c" and "valid_config c'"
  shows "tap_parse_args (prog # tap_command_line c) = Some (Inr c) \<and>
    tun_parse_args (prog # tun_command_line c') = Some (Inr c') \<and>
    (\<forall>args d. tap_parse_args args = Some (Inr d) \<longrightarrow> valid_config d) \<and>
    (\<forall>args d. tun_parse_args args = Some (Inr d) \<longrightarrow> valid_config d)"
proof -
  have "tap_args_loop (prog # tap_command_line c) 1 TapConfig_default = Some (Inr c)"
    "tun_args_loop (prog # tun_command_line c') 1 TunConfig_default = Some (Inr c')"
    using assms tap_loop_command_line tun_loop_command_line by (simp_all add: valid_config_def)
  then have "tap_parse_args (prog # tap_command_line c) = Some (Inr c)"
    "tun_parse_args (prog # tun_command_line c') = Some (Inr c')"
    using assms unfolding tap_parse_args_def tun_parse_args_def by (simp_all add: valid_config_def)
  then show ?thesis using tap_parse_valid tun_parse_valid by blast
qed

theorem command_line_roundtrip_witness:
  "tap_parse_args (''tap_host'' # tap_command_line TapConfig_default) = Some (Inr TapConfig_default) \<and>
   tun_parse_args (''tap_host'' # tun_command_line TunConfig_default) = Some (Inr TunConfig_default)"
proof -
  have "valid_config TapConfig_default" "valid_config TunConfig_default"
    by (simp_all add: valid_config_def TapConfig_default_def TunConfig_default_def)
  then show ?thesis using command_line_roundtrip [of TapConfig_default TunConfig_default "''tap_host''"] by blast
qed

end
