(* ===== verification/Net_Device.thy ===== *)
theory Net_Device
  imports Std_Io Ipv4_Datagram
begin

text \<open>
  \<open>src/tun.rs\<close> and \<open>src/tap.rs\<close>: the TUN and TAP devices on Linux, and the stand-ins for them on other systems.
  The kernel is a parameter: the opened device file, the \<open>ioctl\<close> and \<open>fcntl\<close> calls on it (their return code
  with the error number they leave behind), and the reads and writes. Strings are their UTF-8 bytes, and
  a C character is a byte. Each of the two modules has private helpers of its own.
\<close>

unbundle bit_operations_syntax

section \<open>Interface requests\<close>

definition IFNAMSIZ :: nat where "IFNAMSIZ = 16"
definition IFF_TUN :: u16 where "IFF_TUN = 1"
definition IFF_TAP :: u16 where "IFF_TAP = 2"
definition IFF_NO_PI :: u16 where "IFF_NO_PI = 0x1000"
definition O_NONBLOCK :: u32 where "O_NONBLOCK = 0x800"
definition TUNSETIFF :: nat where "TUNSETIFF = 0x400454ca"
definition DEFAULT_TUN_NAME :: string where "DEFAULT_TUN_NAME = ''tun144''"
definition DEFAULT_TAP_NAME :: string where "DEFAULT_TAP_NAME = ''tap144''"
definition MAX_IPV4_PACKET_SIZE :: nat where "MAX_IPV4_PACKET_SIZE = 65535"
definition MAX_ETHERNET_FRAME_SIZE :: nat where "MAX_ETHERNET_FRAME_SIZE = 65535"

record IfReq =
  ifr_name :: bytes
  ifr_flags :: u16
  ifr_padding :: bytes

definition validate_interface_name :: "bytes \<Rightarrow> unit io_result" where
  "validate_interface_name name =
     (if name = [] then Inl InvalidInput
      else if 0 \<in> set name then Inl InvalidInput
      else if length name \<ge> IFNAMSIZ then Inl InvalidInput
      else Inr ())"

text \<open>The assignments of the loop over \<open>zip\<close>: the bytes overwrite the front of the array.\<close>

fun zip_assign :: "bytes \<Rightarrow> bytes \<Rightarrow> bytes" where
  "zip_assign (d # dst) (s # src) = s # zip_assign dst src"
| "zip_assign dst _ = dst"

definition IfReq_new :: "bytes \<Rightarrow> u16 \<Rightarrow> IfReq io_result" where
  "IfReq_new name flags =
     (case validate_interface_name name of
        Inl e \<Rightarrow> Inl e
      | Inr _ \<Rightarrow>
          (let ifreq = \<lparr> ifr_name = replicate IFNAMSIZ 0, ifr_flags = flags, ifr_padding = replicate 22 0 \<rparr>
           in Inr (ifreq\<lparr> ifr_name := zip_assign (ifr_name ifreq) name \<rparr>)))"

definition ifreq_name_to_string :: "bytes \<Rightarrow> bytes" where
  "ifreq_name_to_string name = from_utf8_lossy (takeWhile (\<lambda>c. c \<noteq> 0) name)"

section \<open>Devices\<close>

record 'f TunDevice =
  tun_file :: 'f
  tun_name :: bytes

record 'f TapDevice =
  tap_file :: 'f
  tap_name :: bytes

text \<open>The request as the kernel leaves it, the return code and the error number.\<close>

type_synonym 'f ioctl = "'f \<Rightarrow> nat \<Rightarrow> IfReq \<Rightarrow> IfReq \<times> int \<times> ErrorKind"

definition TunDevice_create :: "'f io_result \<Rightarrow> 'f ioctl \<Rightarrow> bytes \<Rightarrow> 'f TunDevice io_result" where
  "TunDevice_create opened ioctl name =
     (case validate_interface_name name of
        Inl e \<Rightarrow> Inl e
      | Inr _ \<Rightarrow>
          (case opened of
             Inl e \<Rightarrow> Inl e
           | Inr file \<Rightarrow>
               (case IfReq_new name (IFF_TUN OR IFF_NO_PI) of
                  Inl e \<Rightarrow> Inl e
                | Inr ifreq \<Rightarrow>
                    (let (ifreq, rc, errno) = ioctl file TUNSETIFF ifreq in
                     if rc < 0 then Inl errno
                     else Inr \<lparr> tun_file = file, tun_name = ifreq_name_to_string (ifr_name ifreq) \<rparr>))))"

definition TunDevice_read_packet :: "'f read \<Rightarrow> 'f TunDevice \<Rightarrow> 'f TunDevice \<times> bytes io_result" where
  "TunDevice_read_packet read self =
     (let (file, r) = read (tun_file self) MAX_IPV4_PACKET_SIZE in (self\<lparr> tun_file := file \<rparr>, r))"

definition TunDevice_read_packet_into :: "'f read \<Rightarrow> 'f TunDevice \<Rightarrow> nat \<Rightarrow> 'f TunDevice \<times> bytes io_result" where
  "TunDevice_read_packet_into read self len =
     (let (file, r) = read (tun_file self) len in (self\<lparr> tun_file := file \<rparr>, r))"

definition TunDevice_read_ipv4_datagram ::
  "(bytes \<Rightarrow> Ipv4FixedHeader option) \<Rightarrow> 'f read \<Rightarrow> 'f TunDevice \<Rightarrow> ('f TunDevice \<times> Ipv4Datagram io_result) run" where
  "TunDevice_read_ipv4_datagram ref_from_bytes read self =
     (case TunDevice_read_packet read self of
        (self, Inl e) \<Rightarrow> Some (self, Inl e)
      | (self, Inr packet) \<Rightarrow> do {
          parsed \<leftarrow> Ipv4Datagram_parse ref_from_bytes packet;
          Some (self, case parsed of Inl err \<Rightarrow> Inl InvalidData | Inr d \<Rightarrow> Inr d)
        })"

definition TunDevice_write_packet :: "'f write_all \<Rightarrow> 'f TunDevice \<Rightarrow> bytes \<Rightarrow> 'f TunDevice \<times> unit io_result" where
  "TunDevice_write_packet write_all self packet =
     (if packet = [] then (self, Inl InvalidInput)
      else let (file, r) = write_all (tun_file self) packet in (self\<lparr> tun_file := file \<rparr>, r))"

definition TunDevice_write_ipv4_datagram ::
  "'f write_all \<Rightarrow> 'f TunDevice \<Rightarrow> Ipv4Datagram \<Rightarrow> ('f TunDevice \<times> unit io_result) run" where
  "TunDevice_write_ipv4_datagram write_all self datagram = do {
     packet \<leftarrow> Ipv4Datagram_serialize datagram;
     Some (TunDevice_write_packet write_all self packet)
   }"

definition TunDevice_write_bytes :: "'f write_all \<Rightarrow> 'f TunDevice \<Rightarrow> bytes \<Rightarrow> 'f TunDevice \<times> unit io_result" where
  "TunDevice_write_bytes write_all self packet = TunDevice_write_packet write_all self packet"

text \<open>\<open>getfl\<close> and \<open>setfl\<close> are the two commands of \<open>fcntl\<close>; a C \<open>int\<close> is a signed 32-bit word.\<close>

definition TunDevice_set_nonblocking ::
  "('f \<Rightarrow> u32 \<times> ErrorKind) \<Rightarrow> ('f \<Rightarrow> u32 \<Rightarrow> 'f \<times> u32 \<times> ErrorKind) \<Rightarrow> 'f TunDevice \<Rightarrow> bool \<Rightarrow>
     'f TunDevice \<times> unit io_result" where
  "TunDevice_set_nonblocking getfl setfl self nonblocking =
     (let (flags, errno) = getfl (tun_file self) in
      if sint flags < 0 then (self, Inl errno)
      else
        let new_flags = (if nonblocking then flags OR O_NONBLOCK else flags AND NOT O_NONBLOCK);
            (file, rc, errno) = setfl (tun_file self) new_flags;
            self = self\<lparr> tun_file := file \<rparr>
        in if sint rc < 0 then (self, Inl errno) else (self, Inr ()))"

definition TunDevice_try_clone :: "('f \<Rightarrow> 'f io_result) \<Rightarrow> 'f TunDevice \<Rightarrow> 'f TunDevice io_result" where
  "TunDevice_try_clone try_clone self =
     (case try_clone (tun_file self) of
        Inl e \<Rightarrow> Inl e
      | Inr file \<Rightarrow> Inr \<lparr> tun_file = file, tun_name = tun_name self \<rparr>)"

text \<open>The helpers of \<open>src/tap.rs\<close>.\<close>

record TapIfReq =
  tap_ifr_name :: bytes
  tap_ifr_flags :: u16
  tap_ifr_padding :: bytes

definition tap_validate_interface_name :: "bytes \<Rightarrow> unit io_result" where
  "tap_validate_interface_name name =
     (if name = [] then Inl InvalidInput
      else if 0 \<in> set name then Inl InvalidInput
      else if length name \<ge> IFNAMSIZ then Inl InvalidInput
      else Inr ())"

definition TapIfReq_new :: "bytes \<Rightarrow> u16 \<Rightarrow> TapIfReq io_result" where
  "TapIfReq_new name flags =
     (case tap_validate_interface_name name of
        Inl e \<Rightarrow> Inl e
      | Inr _ \<Rightarrow>
          (let ifreq = \<lparr> tap_ifr_name = replicate IFNAMSIZ 0, tap_ifr_flags = flags, tap_ifr_padding = replicate 22 0 \<rparr>
           in Inr (ifreq\<lparr> tap_ifr_name := zip_assign (tap_ifr_name ifreq) name \<rparr>)))"

definition tap_ifreq_name_to_string :: "bytes \<Rightarrow> bytes" where
  "tap_ifreq_name_to_string name = from_utf8_lossy (takeWhile (\<lambda>c. c \<noteq> 0) name)"

text \<open>The kernel sees the same structure.\<close>

definition as_IfReq :: "TapIfReq \<Rightarrow> IfReq" where
  "as_IfReq r = \<lparr> ifr_name = tap_ifr_name r, ifr_flags = tap_ifr_flags r, ifr_padding = tap_ifr_padding r \<rparr>"

definition TapDevice_create :: "'f io_result \<Rightarrow> 'f ioctl \<Rightarrow> bytes \<Rightarrow> 'f TapDevice io_result" where
  "TapDevice_create opened ioctl name =
     (case tap_validate_interface_name name of
        Inl e \<Rightarrow> Inl e
      | Inr _ \<Rightarrow>
          (case opened of
             Inl e \<Rightarrow> Inl e
           | Inr file \<Rightarrow>
               (case TapIfReq_new name (IFF_TAP OR IFF_NO_PI) of
                  Inl e \<Rightarrow> Inl e
                | Inr ifreq \<Rightarrow>
                    (let (ifreq, rc, errno) = ioctl file TUNSETIFF (as_IfReq ifreq) in
                     if rc < 0 then Inl errno
                     else Inr \<lparr> tap_file = file, tap_name = tap_ifreq_name_to_string (ifr_name ifreq) \<rparr>))))"

definition TapDevice_read_frame :: "'f read \<Rightarrow> 'f TapDevice \<Rightarrow> 'f TapDevice \<times> bytes io_result" where
  "TapDevice_read_frame read self =
     (let (file, r) = read (tap_file self) MAX_ETHERNET_FRAME_SIZE in (self\<lparr> tap_file := file \<rparr>, r))"

definition TapDevice_write_frame :: "'f write_all \<Rightarrow> 'f TapDevice \<Rightarrow> bytes \<Rightarrow> 'f TapDevice \<times> unit io_result" where
  "TapDevice_write_frame write_all self frame =
     (if frame = [] then (self, Inl InvalidInput)
      else let (file, r) = write_all (tap_file self) frame in (self\<lparr> tap_file := file \<rparr>, r))"

definition TapDevice_write_bytes :: "'f write_all \<Rightarrow> 'f TapDevice \<Rightarrow> bytes \<Rightarrow> 'f TapDevice \<times> unit io_result" where
  "TapDevice_write_bytes write_all self frame = TapDevice_write_frame write_all self frame"

definition TapDevice_try_clone :: "('f \<Rightarrow> 'f io_result) \<Rightarrow> 'f TapDevice \<Rightarrow> 'f TapDevice io_result" where
  "TapDevice_try_clone try_clone self =
     (case try_clone (tap_file self) of
        Inl e \<Rightarrow> Inl e
      | Inr file \<Rightarrow> Inr \<lparr> tap_file = file, tap_name = tap_name self \<rparr>)"

definition TapDevice_set_nonblocking ::
  "('f \<Rightarrow> u32 \<times> ErrorKind) \<Rightarrow> ('f \<Rightarrow> u32 \<Rightarrow> 'f \<times> u32 \<times> ErrorKind) \<Rightarrow> 'f TapDevice \<Rightarrow> bool \<Rightarrow>
     'f TapDevice \<times> unit io_result" where
  "TapDevice_set_nonblocking getfl setfl self nonblocking =
     (let (flags, errno) = getfl (tap_file self) in
      if sint flags < 0 then (self, Inl errno)
      else
        let new_flags = (if nonblocking then flags OR O_NONBLOCK else flags AND NOT O_NONBLOCK);
            (file, rc, errno) = setfl (tap_file self) new_flags;
            self = self\<lparr> tap_file := file \<rparr>
        in if sint rc < 0 then (self, Inl errno) else (self, Inr ()))"

section \<open>Other systems\<close>

text \<open>
  The modules \<open>unsupported\<close>: devices without data, which cannot be created and whose operations fail.
\<close>

datatype UnsupportedTun = UnsupportedTun
datatype UnsupportedTap = UnsupportedTap

definition tun_unsupported :: ErrorKind where "tun_unsupported = Unsupported"
definition tap_unsupported :: ErrorKind where "tap_unsupported = Unsupported"

definition UnsupportedTun_create :: "bytes \<Rightarrow> UnsupportedTun io_result" where
  "UnsupportedTun_create name = Inl Unsupported"
definition UnsupportedTun_name :: "UnsupportedTun \<Rightarrow> string" where
  "UnsupportedTun_name self = ''unsupported''"
definition UnsupportedTun_read_packet :: "UnsupportedTun \<Rightarrow> bytes io_result" where
  "UnsupportedTun_read_packet self = Inl tun_unsupported"
definition UnsupportedTun_read_packet_into :: "UnsupportedTun \<Rightarrow> nat \<Rightarrow> bytes io_result" where
  "UnsupportedTun_read_packet_into self len = Inl tun_unsupported"
definition UnsupportedTun_read_ipv4_datagram :: "UnsupportedTun \<Rightarrow> Ipv4Datagram io_result" where
  "UnsupportedTun_read_ipv4_datagram self = Inl tun_unsupported"
definition UnsupportedTun_write_packet :: "UnsupportedTun \<Rightarrow> bytes \<Rightarrow> unit io_result" where
  "UnsupportedTun_write_packet self packet = Inl tun_unsupported"
definition UnsupportedTun_write_ipv4_datagram :: "UnsupportedTun \<Rightarrow> Ipv4Datagram \<Rightarrow> unit io_result" where
  "UnsupportedTun_write_ipv4_datagram self datagram = Inl tun_unsupported"
definition UnsupportedTun_set_nonblocking :: "UnsupportedTun \<Rightarrow> bool \<Rightarrow> unit io_result" where
  "UnsupportedTun_set_nonblocking self nonblocking = Inl tun_unsupported"
definition UnsupportedTun_try_clone :: "UnsupportedTun \<Rightarrow> UnsupportedTun io_result" where
  "UnsupportedTun_try_clone self = Inl tun_unsupported"
definition UnsupportedTun_write_bytes :: "UnsupportedTun \<Rightarrow> bytes \<Rightarrow> unit io_result" where
  "UnsupportedTun_write_bytes self packet = Inl tun_unsupported"

definition UnsupportedTap_create :: "bytes \<Rightarrow> UnsupportedTap io_result" where
  "UnsupportedTap_create name = Inl tap_unsupported"
definition UnsupportedTap_name :: "UnsupportedTap \<Rightarrow> string" where
  "UnsupportedTap_name self = ''unsupported''"
definition UnsupportedTap_read_frame :: "UnsupportedTap \<Rightarrow> bytes io_result" where
  "UnsupportedTap_read_frame self = Inl tap_unsupported"
definition UnsupportedTap_write_frame :: "UnsupportedTap \<Rightarrow> bytes \<Rightarrow> unit io_result" where
  "UnsupportedTap_write_frame self frame = Inl tap_unsupported"
definition UnsupportedTap_set_nonblocking :: "UnsupportedTap \<Rightarrow> bool \<Rightarrow> unit io_result" where
  "UnsupportedTap_set_nonblocking self nonblocking = Inl tap_unsupported"
definition UnsupportedTap_try_clone :: "UnsupportedTap \<Rightarrow> UnsupportedTap io_result" where
  "UnsupportedTap_try_clone self = Inl tap_unsupported"
definition UnsupportedTap_write_bytes :: "UnsupportedTap \<Rightarrow> bytes \<Rightarrow> unit io_result" where
  "UnsupportedTap_write_bytes self frame = Inl tap_unsupported"

section \<open>Names\<close>

lemma zip_assign_eq: "length src \<le> length dst \<Longrightarrow> zip_assign dst src = src @ drop (length src) dst"
  by (induction dst src rule: zip_assign.induct) auto

lemma validate_iff:
  "validate_interface_name name = Inr () \<longleftrightarrow> name \<noteq> [] \<and> 0 \<notin> set name \<and> length name < 16"
  by (auto simp: validate_interface_name_def IFNAMSIZ_def)

lemma IfReq_new_name:
  assumes "IfReq_new name flags = Inr r"
  shows "ifr_name r = name @ replicate (16 - length name) 0" "length name < 16" "0 \<notin> set name" "name \<noteq> []" "ifr_flags r = flags"
proof -
  have v: "validate_interface_name name = Inr ()" using assms by (auto simp: IfReq_new_def split: sum.splits)
  then show n: "length name < 16" "0 \<notin> set name" "name \<noteq> []" by (auto simp: validate_iff)
  have "r = \<lparr> ifr_name = zip_assign (replicate 16 0) name, ifr_flags = flags, ifr_padding = replicate 22 0 \<rparr>"
    using assms v by (simp add: IfReq_new_def IFNAMSIZ_def Let_def)
  then show "ifr_name r = name @ replicate (16 - length name) 0" "ifr_flags r = flags"
    using n(1) by (simp_all add: zip_assign_eq)
qed

lemma name_back:
  assumes "0 \<notin> set name" and "utf8 name" and "0 < k"
  shows "ifreq_name_to_string (name @ replicate k 0) = name"
proof -
  have "takeWhile (\<lambda>c. c \<noteq> 0) (name @ replicate k 0) = name"
    using assms(1,3) by (subst takeWhile_append2) (auto simp: gr0_conv_Suc)
  then show ?thesis using assms(2) by (simp add: ifreq_name_to_string_def from_utf8_lossy_valid)
qed

text \<open>The two modules' helpers agree.\<close>

lemma tap_validate_eq: "tap_validate_interface_name name = validate_interface_name name"
  by (simp add: tap_validate_interface_name_def validate_interface_name_def)

lemma TapIfReq_new_eq: "map_sum id as_IfReq (TapIfReq_new name flags) = IfReq_new name flags"
  by (simp add: TapIfReq_new_def IfReq_new_def tap_validate_eq as_IfReq_def Let_def split: sum.splits)

lemma TapIfReq_new_as:
  "TapIfReq_new name flags = Inr r \<longleftrightarrow> IfReq_new name flags = Inr (as_IfReq r)"
  by (cases r) (auto simp: TapIfReq_new_def IfReq_new_def tap_validate_eq as_IfReq_def Let_def split: sum.splits)

text \<open>
  A kernel that accepts the request under the name asked for, as \<open>TUNSETIFF\<close> does for a name without a
  pattern, gives a device of that name; and no request is made under a name that the kernel's field
  cannot hold.
\<close>

definition accepts :: "'f ioctl \<Rightarrow> bool" where
  "accepts ioctl \<longleftrightarrow> (\<forall>f r. \<exists>errno. ioctl f TUNSETIFF r = (r, 0, errno))"

lemma create_names:
  assumes "accepts ioctl" and "utf8 name" and "validate_interface_name name = Inr ()"
  shows "TunDevice_create (Inr f) ioctl name = Inr \<lparr> tun_file = f, tun_name = name \<rparr>"
    "TapDevice_create (Inr f) ioctl name = Inr \<lparr> tap_file = f, tap_name = name \<rparr>"
proof -
  have req: "\<exists>r. IfReq_new name flags = Inr r" for flags using assms(3) by (simp add: IfReq_new_def Let_def)
  have bk: "ifreq_name_to_string (ifr_name r) = name" if "IfReq_new name flags = Inr r" for r flags
    using IfReq_new_name [OF that] assms(2) by (simp add: name_back)
  obtain r where r: "IfReq_new name (IFF_TUN OR IFF_NO_PI) = Inr r" using req by blast
  obtain e where e: "ioctl f TUNSETIFF r = (r, 0, e)" using assms(1) by (auto simp: accepts_def)
  show "TunDevice_create (Inr f) ioctl name = Inr \<lparr> tun_file = f, tun_name = name \<rparr>"
    using assms(3) r e bk by (simp add: TunDevice_create_def)
  obtain r' where r': "TapIfReq_new name (IFF_TAP OR IFF_NO_PI) = Inr r'"
    using assms(3) by (simp add: TapIfReq_new_def tap_validate_eq Let_def)
  then have req2: "IfReq_new name (IFF_TAP OR IFF_NO_PI) = Inr (as_IfReq r')" by (simp add: TapIfReq_new_as)
  obtain e' where e': "ioctl f TUNSETIFF (as_IfReq r') = (as_IfReq r', 0, e')" using assms(1) by (auto simp: accepts_def)
  have "tap_ifreq_name_to_string (ifr_name (as_IfReq r')) = name"
    using bk [OF req2] by (simp add: tap_ifreq_name_to_string_def ifreq_name_to_string_def)
  then show "TapDevice_create (Inr f) ioctl name = Inr \<lparr> tap_file = f, tap_name = name \<rparr>"
    using assms(3) r' e' by (simp add: TapDevice_create_def tap_validate_eq)
qed

end
