(* ===== verification/Pcap.thy ===== *)
theory Pcap
  imports Std_Io
begin

text \<open>
  \<open>src/pcap.rs\<close>: the writer of capture files. The buffered file below it is a parameter: \<open>write_all\<close> is
  what the standard library's writer does with a byte string, and \<open>appends\<close> states its contract, that a
  successful call appends the bytes. The clock is a parameter of each call.
\<close>

section \<open>Model\<close>

definition PCAP_MAGIC_LE :: u32 where "PCAP_MAGIC_LE = 0xa1b2c3d4"
definition PCAP_VERSION_MAJOR :: u16 where "PCAP_VERSION_MAJOR = 2"
definition PCAP_VERSION_MINOR :: u16 where "PCAP_VERSION_MINOR = 4"
definition PCAP_SNAPLEN :: u32 where "PCAP_SNAPLEN = 65535"

datatype PcapLinkType = Ethernet | RawIpv4

fun PcapLinkType_code :: "PcapLinkType \<Rightarrow> u32" where
  "PcapLinkType_code Ethernet = 1"
| "PcapLinkType_code RawIpv4 = 101"

text \<open>A sequence of \<open>write_all\<close> calls with the \<open>?\<close> operator between them: the first error ends it.\<close>

fun write_each :: "'f write_all \<Rightarrow> 'f \<Rightarrow> bytes list \<Rightarrow> 'f \<times> unit io_result" where
  "write_each write_all f [] = (f, Inr ())"
| "write_each write_all f (b # bs) =
     (case write_all f b of
        (f, Inl e) \<Rightarrow> (f, Inl e)
      | (f, Inr _) \<Rightarrow> write_each write_all f bs)"

definition PcapWriter_write_global_header :: "'f write_all \<Rightarrow> 'f \<Rightarrow> PcapLinkType \<Rightarrow> 'f \<times> unit io_result" where
  "PcapWriter_write_global_header write_all writer link_type =
     write_each write_all writer
       [le32 PCAP_MAGIC_LE, le16 PCAP_VERSION_MAJOR, le16 PCAP_VERSION_MINOR, le32 0, le32 0,
        le32 PCAP_SNAPLEN, le32 (PcapLinkType_code link_type)]"

text \<open>\<open>opened\<close> is the result of \<open>File::create\<close>.\<close>

definition PcapWriter_create ::
  "'f write_all \<Rightarrow> 'f io_result \<Rightarrow> PcapLinkType \<Rightarrow> 'f io_result" where
  "PcapWriter_create write_all opened link_type =
     (case opened of
        Inl e \<Rightarrow> Inl e
      | Inr writer \<Rightarrow>
          (case PcapWriter_write_global_header write_all writer link_type of
             (writer, Inl e) \<Rightarrow> Inl e
           | (writer, Inr _) \<Rightarrow> Inr writer))"

text \<open>
  \<open>timestamp\<close> is the time since the epoch as seconds and microseconds (below 1000000), or the error of a
  clock that is set before it; \<open>as u32\<close> truncates the seconds.
\<close>

definition PcapWriter_write_packet ::
  "'f write_all \<Rightarrow> 'f \<Rightarrow> (nat \<times> u32) io_result \<Rightarrow> bytes \<Rightarrow> 'f \<times> unit io_result" where
  "PcapWriter_write_packet write_all writer timestamp packet =
     (case timestamp of
        Inl e \<Rightarrow> (writer, Inl e)
      | Inr (secs, micros) \<Rightarrow>
          if length packet > U32_MAX
          then (writer, Inl InvalidInput)
          else let len = of_nat (length packet) in
            write_each write_all writer [le32 (of_nat secs), le32 micros, le32 len, le32 len, packet])"

section \<open>Reading capture files\<close>

text \<open>
  A reader of the format, as a specification: the header gives the link type, and each record is a
  time stamp, two lengths and a packet.
\<close>

definition get32 :: "bytes \<Rightarrow> u32" where
  "get32 bs = from_be32 (bs ! 3) (bs ! 2) (bs ! 1) (bs ! 0)"

function read_records :: "bytes \<Rightarrow> ((u32 \<times> u32) \<times> bytes) list option" where
  "read_records bs =
     (if bs = [] then Some []
      else if length bs < 16 then None
      else let n = unat (get32 (drop 8 bs)) in
        if get32 (drop 12 bs) \<noteq> get32 (drop 8 bs) \<or> length bs < 16 + n then None
        else map_option ((#) ((get32 bs, get32 (drop 4 bs)), take n (drop 16 bs))) (read_records (drop (16 + n) bs)))"
  by pat_completeness auto

termination
  by (relation "measure length") auto

declare read_records.simps [simp del]

definition read_capture :: "bytes \<Rightarrow> (u32 \<times> ((u32 \<times> u32) \<times> bytes) list) option" where
  "read_capture bs =
     (if length bs < 24 \<or> get32 bs \<noteq> 0xa1b2c3d4 then None
      else map_option (Pair (get32 (drop 20 bs))) (read_records (drop 24 bs)))"

section \<open>Lemmas\<close>

definition appends :: "'f write_all \<Rightarrow> ('f \<Rightarrow> bytes) \<Rightarrow> bool" where
  "appends write_all content \<longleftrightarrow>
     (\<forall>f b f'. write_all f b = (f', Inr ()) \<longrightarrow> content f' = content f @ b)"

lemma write_each_appends:
  "appends write_all content \<Longrightarrow> write_each write_all f bs = (f', Inr ()) \<Longrightarrow> content f' = content f @ concat bs"
proof (induction bs arbitrary: f)
  case (Cons b bs)
  obtain f1 r where f1: "write_all f b = (f1, r)" by (cases "write_all f b")
  with Cons.prems have r: "r = Inr ()" and rest: "write_each write_all f1 bs = (f', Inr ())" by (auto split: sum.splits)
  have "content f1 = content f @ b" using Cons.prems(1) f1 r unfolding appends_def by blast
  then show ?case using Cons.IH [OF Cons.prems(1) rest] by simp
qed simp

lemma length_le [simp]: "length (le32 w) = 4" "length (le16 v) = 2"
  by (simp_all add: le32_def le16_def)

lemma get32_le32: "get32 (le32 w @ rest) = w"
proof -
  obtain a b c d where abcd: "be32 w = [a, b, c, d]" by (simp add: be32_def)
  then have "from_be32 a b c d = w" using from_be32_eq [of a b c d w] by simp
  then show ?thesis using abcd by (simp add: get32_def le32_def)
qed

definition record_bytes :: "(u32 \<times> u32) \<times> bytes \<Rightarrow> bytes" where
  "record_bytes = (\<lambda>((secs, micros), packet).
     le32 secs @ le32 micros @ le32 (of_nat (length packet)) @ le32 (of_nat (length packet)) @ packet)"

lemma read_records_step:
  assumes "length bs \<ge> 16 + n" "unat (get32 (drop 8 bs)) = n" "get32 (drop 12 bs) = get32 (drop 8 bs)"
  shows "read_records bs = map_option ((#) ((get32 bs, get32 (drop 4 bs)), take n (drop 16 bs))) (read_records (drop (16 + n) bs))"
  using assms by (subst read_records.simps) (auto simp: Let_def)

lemma read_record:
  assumes "length packet \<le> U32_MAX"
  shows "read_records (record_bytes ((s, u), packet) @ rest) = map_option ((#) ((s, u), packet)) (read_records rest)"
proof -
  define n :: u32 where "n = of_nat (length packet)"
  define bs where "bs = record_bytes ((s, u), packet) @ rest"
  have eq: "bs = le32 s @ le32 u @ le32 n @ le32 n @ packet @ rest" by (simp add: bs_def n_def record_bytes_def)
  have "unat n = length packet" using assms by (simp add: n_def unat_of_nat32)
  moreover have "get32 bs = s" "get32 (drop 4 bs) = u" "get32 (drop 8 bs) = n" "get32 (drop 12 bs) = n"
    "take (length packet) (drop 16 bs) = packet" "drop (16 + length packet) bs = rest" "length bs \<ge> 16 + length packet"
    unfolding eq by (simp_all add: get32_le32)
  ultimately have "read_records bs = map_option ((#) ((s, u), packet)) (read_records rest)"
    using read_records_step [of "length packet" bs] by simp
  then show ?thesis by (simp add: bs_def)
qed

lemma read_all_records:
  "\<forall>r \<in> set rs. length (snd r) \<le> U32_MAX \<Longrightarrow> read_records (concat (map record_bytes rs)) = Some rs"
  by (induction rs) (auto simp: read_record read_records.simps [of "[]"])

text \<open>A call is rejected, before anything is written, when the clock or the length of the packet is out of range.\<close>

type_synonym capture_call = "(nat \<times> u32) io_result \<times> bytes"

definition rejected :: "capture_call \<Rightarrow> bool" where
  "rejected c \<longleftrightarrow> isl (fst c) \<or> length (snd c) > U32_MAX"

definition stamped :: "capture_call \<Rightarrow> (u32 \<times> u32) \<times> bytes" where
  "stamped c = ((of_nat (fst (projr (fst c))), snd (projr (fst c))), snd c)"

text \<open>The calls of \<open>write_packet\<close> that a program makes, with their results.\<close>

fun capture :: "'f write_all \<Rightarrow> 'f \<Rightarrow> capture_call list \<Rightarrow> 'f \<times> unit io_result list" where
  "capture write_all w [] = (w, [])"
| "capture write_all w ((timestamp, packet) # cs) =
     (let (w, r) = PcapWriter_write_packet write_all w timestamp packet;
          (w, rs) = capture write_all w cs
      in (w, r # rs))"

lemma rejected_write_nothing:
  assumes "rejected (timestamp, packet)"
  shows "\<exists>e. PcapWriter_write_packet write_all w timestamp packet = (w, Inl e)"
  using assms by (auto simp: rejected_def PcapWriter_write_packet_def split: sum.splits)

lemma write_packet_appends:
  assumes "appends write_all content"
    and "PcapWriter_write_packet write_all w timestamp packet = (w', Inr ())"
  shows "\<not> rejected (timestamp, packet)" "content w' = content w @ record_bytes (stamped (timestamp, packet))"
proof -
  show ok: "\<not> rejected (timestamp, packet)"
    using assms(2) rejected_write_nothing [of timestamp packet write_all w] by auto
  then obtain secs micros where t: "timestamp = Inr (secs, micros)"
    by (cases timestamp) (auto simp: rejected_def)
  have "write_each write_all w [le32 (of_nat secs), le32 micros, le32 (of_nat (length packet)),
      le32 (of_nat (length packet)), packet] = (w', Inr ())"
    using assms(2) ok t by (simp add: PcapWriter_write_packet_def rejected_def Let_def)
  from write_each_appends [OF assms(1) this]
  show "content w' = content w @ record_bytes (stamped (timestamp, packet))"
    by (simp add: t stamped_def record_bytes_def)
qed

lemma capture_appends:
  assumes "appends write_all content"
  shows "capture write_all w cs = (w', rs) \<Longrightarrow> (\<forall>i < length cs. rejected (cs ! i) \<or> rs ! i = Inr ()) \<Longrightarrow>
    content w' = content w @ concat (map (record_bytes \<circ> stamped) (filter (\<lambda>c. \<not> rejected c) cs))"
proof (induction cs arbitrary: w rs)
  case (Cons c cs)
  obtain timestamp packet where c: "c = (timestamp, packet)" by (cases c)
  obtain w1 r where w1: "PcapWriter_write_packet write_all w timestamp packet = (w1, r)" by fastforce
  obtain rs1 where rest: "capture write_all w1 cs = (w', rs1)" and rs: "rs = r # rs1"
    using Cons.prems(1) by (auto simp: c w1 split: prod.splits)
  have all: "\<forall>i < length cs. rejected (cs ! i) \<or> rs1 ! i = Inr ()" and r: "rejected c \<or> r = Inr ()"
    using Cons.prems(2) rs by (auto simp: nth_Cons split: nat.splits)
  note IH = Cons.IH [OF rest all]
  show ?case
  proof (cases "rejected c")
    case True
    then have "w1 = w" using rejected_write_nothing [of timestamp packet write_all w] w1 c by auto
    then show ?thesis using IH True by simp
  next
    case False
    then have "content w1 = content w @ record_bytes (stamped c)"
      using write_packet_appends(2) [OF assms] w1 r unfolding c by blast
    then show ?thesis using IH False by simp
  qed
qed simp

lemma create_appends:
  assumes "appends write_all content" "content f = []" "PcapWriter_create write_all (Inr f) link_type = Inr w"
  shows "content w = le32 PCAP_MAGIC_LE @ le16 PCAP_VERSION_MAJOR @ le16 PCAP_VERSION_MINOR @ le32 0 @ le32 0 @
    le32 PCAP_SNAPLEN @ le32 (PcapLinkType_code link_type)"
proof -
  have "PcapWriter_write_global_header write_all f link_type = (w, Inr ())"
    using assms(3) by (auto simp: PcapWriter_create_def split: prod.splits sum.splits)
  from write_each_appends [OF assms(1) this [unfolded PcapWriter_write_global_header_def]] assms(2)
  show ?thesis by simp
qed

lemma read_capture_header:
  "read_capture ((le32 PCAP_MAGIC_LE @ le16 v @ le16 m @ le32 a @ le32 b @ le32 s @ le32 l) @ rest) =
     map_option (Pair l) (read_records rest)"
proof -
  let ?bs = "(le32 PCAP_MAGIC_LE @ le16 v @ le16 m @ le32 a @ le32 b @ le32 s @ le32 l) @ rest"
  have "get32 ?bs = PCAP_MAGIC_LE" "get32 (drop 20 ?bs) = l" "drop 24 ?bs = rest" "length ?bs = 24 + length rest"
    by (simp_all add: get32_le32)
  then show ?thesis unfolding read_capture_def by (simp add: PCAP_MAGIC_LE_def)
qed

section \<open>Properties\<close>

text \<open>
  C36. Capture files: when a file is created and any calls of \<open>write_packet\<close> are made on it, where every call
  that is not rejected outright (a clock before the epoch, a packet longer than \<open>u32::MAX\<close>) succeeds, a
  reader of the format finds the link type and exactly the accepted packets, whole and in order, each with
  its time stamp (the seconds truncated to 32 bits).
\<close>

theorem capture_reads_back:
  assumes "appends write_all content" "content f = []"
    and "PcapWriter_create write_all (Inr f) link_type = Inr w"
    and "capture write_all w calls = (w', results)"
    and "\<forall>i < length calls. rejected (calls ! i) \<or> results ! i = Inr ()"
  shows "read_capture (content w') =
    Some (PcapLinkType_code link_type, map stamped (filter (\<lambda>c. \<not> rejected c) calls))"
proof -
  let ?rs = "map stamped (filter (\<lambda>c. \<not> rejected c) calls)"
  have "read_records (concat (map record_bytes ?rs)) = Some ?rs"
    by (rule read_all_records) (auto simp: stamped_def rejected_def)
  then show ?thesis
    using capture_appends [OF assms(1,4,5)] create_appends [OF assms(1-3)]
    by (simp add: read_capture_header [simplified append_assoc])
qed

lemma all_less_three: "(\<forall>i < Suc (Suc (Suc 0)). P i) \<longleftrightarrow> P 0 \<and> P 1 \<and> P 2"
  by (auto simp: less_Suc_eq numeral_2_eq_2)

theorem capture_reads_back_witness:
  "read_capture (fst (capture (\<lambda>f b. (f @ b, Inr ()))
      (projr (PcapWriter_create (\<lambda>f b. (f @ b, Inr ())) (Inr []) RawIpv4))
      [(Inr (2 ^ 32 + 5, 7), [1, 2, 3]), (Inl Other, [9]), (Inr (6, 0), [])])) =
   Some (101, [((5, 7), [1, 2, 3]), ((6, 0), [])])"
proof -
  let ?put = "\<lambda>f b. (f @ b, Inr ()) :: bytes \<times> unit io_result"
  let ?calls = "[(Inr (2 ^ 32 + 5, 7), [1, 2, 3]), (Inl Other, [9]), (Inr (6, 0), [])] :: capture_call list"
  let ?w = "projr (PcapWriter_create ?put (Inr []) RawIpv4)"
  let ?c = "capture ?put ?w ?calls"
  have disk: "appends ?put id" "id [] = []" by (simp_all add: appends_def)
  have created: "PcapWriter_create ?put (Inr []) RawIpv4 = Inr ?w"
    by (simp add: PcapWriter_create_def PcapWriter_write_global_header_def)
  have written: "?c = (fst ?c, snd ?c)" by simp
  have "snd ?c = [Inr (), Inl Other, Inr ()]" by (simp add: PcapWriter_write_packet_def Let_def)
  then have ok: "\<forall>i < length ?calls. rejected (?calls ! i) \<or> snd ?c ! i = Inr ()"
    by (simp add: all_less_three rejected_def)
  show ?thesis
    using capture_reads_back [OF disk created written ok] by (simp add: rejected_def stamped_def)
qed

end
