(* ===== verification/Host_Io.thy ===== *)
theory Host_Io
  imports Host_Cli Net_Device Pcap Ip_Host
begin

text \<open>
  What the two host programs share: \<open>src/bin/common/host_cli.rs\<close>, the capture of packets, and the
  operating system, which is a parameter: reads and writes of the device, the capture file and its
  clock, standard output and standard error, and the channel that the thread reading standard input
  fills. A loop that does not end has the value \<^const>\<open>None\<close>, like a panic.
\<close>

section \<open>The operating system\<close>

datatype AppEvent = Data bytes | Close

text \<open>
  \<open>os_recv\<close> is \<open>try_recv\<close>: nothing when the channel is empty or disconnected. \<open>os_print\<close> and \<open>os_eprint\<close> write to
  standard output and standard error, \<open>os_flush\<close> flushes standard output.
\<close>

record ('f, 'p, 'o, 'q) os =
  os_read :: "'f read"
  os_write :: "'f write_all"
  os_record :: "'p write_all"
  os_now :: "'p \<Rightarrow> 'p \<times> (nat \<times> u32) io_result"
  os_print :: "'o write_all"
  os_flush :: "'o \<Rightarrow> 'o \<times> unit io_result"
  os_eprint :: "'o write_all"
  os_recv :: "'q \<Rightarrow> 'q \<times> AppEvent option"

text \<open>The variables of \<open>main\<close> that both programs have.\<close>

record ('p, 'o, 'q) HostState =
  st_pcap :: "'p option"
  st_host :: IpHost
  st_out :: 'o
  st_app :: 'q
  st_was_established :: bool

text \<open>A statement with the \<open>?\<close> operator and what follows it.\<close>

definition and_then :: "('s \<times> unit io_result) run \<Rightarrow> ('s \<Rightarrow> ('s \<times> unit io_result) run) \<Rightarrow> ('s \<times> unit io_result) run" where
  "and_then m k = Option.bind m (\<lambda>sr. case snd sr of Inl e \<Rightarrow> Some (fst sr, Inl e) | Inr _ \<Rightarrow> k (fst sr))"

lemma and_then_mono [partial_function_mono]:
  assumes "mono_option B" and "\<And>s. mono_option (\<lambda>f. C s f)"
  shows "mono_option (\<lambda>f. and_then (B f) (\<lambda>s. C s f))"
proof -
  have "mono_option (\<lambda>f. case snd sr of Inl e \<Rightarrow> Some (fst sr, Inl e) | Inr _ \<Rightarrow> C (fst sr) f)" for sr :: "'c \<times> unit io_result"
    using assms(2) by (cases "snd sr") (auto intro: partial_function_mono)
  then show ?thesis unfolding and_then_def by (intro bind_mono [OF assms(1)])
qed

section \<open>Printing\<close>

definition eprintln ::
  "('f, 'p, 'o, 'q) os \<Rightarrow> ('p, 'o, 'q, 'x) HostState_scheme \<Rightarrow> string \<Rightarrow> (('p, 'o, 'q, 'x) HostState_scheme \<times> unit io_result) run" where
  "eprintln os s message =
     Option.bind (print_line (os_eprint os) (st_out s) message) (\<lambda>out. Some (s\<lparr> st_out := out \<rparr>, Inr ()))"

text \<open>The lines that the events are reported with.\<close>

definition show16 :: "u16 \<Rightarrow> string" where "show16 w = string_of_nat (unat w)"
definition show_seqno :: "Wrap32 \<Rightarrow> string" where "show_seqno w = string_of_nat (unat (raw_value w))"

definition tcp_line :: "TcpSegment \<Rightarrow> string" where
  "tcp_line segment =
     (let header = ts_header segment in
      show16 (th_src_port header) @ '' -> '' @ show16 (th_dst_port header) @
      '' seq='' @ show_seqno (th_seqno header) @
      '' ack='' @ debug_option (map_option (\<lambda>ack. unat (raw_value ack)) (th_ackno header)) @
      '' SYN='' @ show_bool (th_syn header) @ '' FIN='' @ show_bool (th_fin header) @
      '' RST='' @ show_bool (th_rst header) @ '' win='' @ show16 (th_window_size header) @
      '' payload='' @ string_of_nat (length (ts_payload segment)))"

definition icmp_line :: "octets4 \<Rightarrow> octets4 \<Rightarrow> u16 \<Rightarrow> u16 \<Rightarrow> nat \<Rightarrow> string" where
  "icmp_line src_ip dst_ip identifier sequence_number payload_len =
     fmt_ip src_ip @ '' -> '' @ fmt_ip dst_ip @ '' id='' @ show16 identifier @ '' seq='' @ show16 sequence_number @
     '' payload='' @ string_of_nat payload_len"

fun print_event ::
  "('f, 'p, 'o, 'q) os \<Rightarrow> ('p, 'o, 'q, 'x) HostState_scheme \<Rightarrow> IpHostEvent \<Rightarrow> (('p, 'o, 'q, 'x) HostState_scheme \<times> unit io_result) run" where
  "print_event os s (IncomingTcp segment) = eprintln os s (''<< TCP '' @ tcp_line segment)"
| "print_event os s (OutgoingTcp segment) = eprintln os s (''>> TCP '' @ tcp_line segment)"
| "print_event os s (TcpPayload payload) =
     Option.bind (print_text (os_print os) (st_out s) (from_utf8_lossy payload)) (\<lambda>out.
       case os_flush os out of (out, r) \<Rightarrow> Some (s\<lparr> st_out := out \<rparr>, r))"
| "print_event os s (IcmpEchoRequest src_ip dst_ip identifier sequence_number payload_len) =
     eprintln os s (''<< ICMP echo request '' @ icmp_line src_ip dst_ip identifier sequence_number payload_len)"
| "print_event os s (IcmpEchoReply src_ip dst_ip identifier sequence_number payload_len) =
     eprintln os s (''>> ICMP echo reply '' @ icmp_line src_ip dst_ip identifier sequence_number payload_len)"
| "print_event os s (IgnoredMalformedIpv4 err) = eprintln os s (''ignored malformed IPv4 packet: '' @ err)"
| "print_event os s (IgnoredMalformedTcp err) = eprintln os s (''ignored malformed TCP segment: '' @ err)"
| "print_event os s (IgnoredMalformedIcmp err) = eprintln os s (''ignored malformed ICMP message: '' @ err)"

fun print_events ::
  "('f, 'p, 'o, 'q) os \<Rightarrow> ('p, 'o, 'q, 'x) HostState_scheme \<Rightarrow> IpHostEvent list \<Rightarrow> (('p, 'o, 'q, 'x) HostState_scheme \<times> unit io_result) run" where
  "print_events os s [] = Some (s, Inr ())"
| "print_events os s (event # events) = and_then (print_event os s event) (\<lambda>s. print_events os s events)"

section \<open>Captures, standard input and devices\<close>

definition dump_packet ::
  "('f, 'p, 'o, 'q) os \<Rightarrow> ('p, 'o, 'q, 'x) HostState_scheme \<Rightarrow> bytes \<Rightarrow> ('p, 'o, 'q, 'x) HostState_scheme \<times> unit io_result" where
  "dump_packet os s packet =
     (case st_pcap s of
        None \<Rightarrow> (s, Inr ())
      | Some writer \<Rightarrow>
          (let (writer, timestamp) = os_now os writer;
               (writer, r) = PcapWriter_write_packet (os_record os) writer timestamp packet
           in (s\<lparr> st_pcap := Some writer \<rparr>, r)))"

text \<open>
  The thread that reads standard input: the events it sends for the lines, without their line ends, or the
  error that reading gives.
\<close>

fun stdin_events :: "bytes io_result list \<Rightarrow> AppEvent list" where
  "stdin_events [] = [Close]"
| "stdin_events (Inr line # input) = Data (line @ [10]) # stdin_events input"
| "stdin_events (Inl e # input) = [Close]"

text \<open>The operations that open a device: the opened file, \<open>ioctl\<close> and \<open>fcntl\<close>; and \<open>File::create\<close> of a capture file.\<close>

record ('f, 'p) os_open =
  os_opened :: "'f io_result"
  os_ioctl :: "'f ioctl"
  os_getfl :: "'f \<Rightarrow> u32 \<times> ErrorKind"
  os_setfl :: "'f \<Rightarrow> u32 \<Rightarrow> 'f \<times> u32 \<times> ErrorKind"
  os_create :: "string \<Rightarrow> 'p io_result"

definition open_capture ::
  "('f, 'p) os_open \<Rightarrow> 'p write_all \<Rightarrow> string option \<Rightarrow> PcapLinkType \<Rightarrow> 'p option io_result" where
  "open_capture oso record path link_type =
     (case path of
        None \<Rightarrow> Inr None
      | Some path \<Rightarrow>
          (case PcapWriter_create record (os_create oso path) link_type of
             Inl e \<Rightarrow> Inl e
           | Inr writer \<Rightarrow> Inr (Some writer)))"

text \<open>
  How a program ends: by exiting after the help text, with an error before the main loop has its
  variables, or with the variables and the result of \<open>main\<close>.
\<close>

datatype ('s, 'o) outcome = Exited 'o | Failed 'o ErrorKind | Ran 's "unit io_result"

text \<open>The reports at the end of an iteration of the main loop.\<close>

definition report_progress ::
  "('f, 'p, 'o, 'q) os \<Rightarrow> ('p, 'o, 'q, 'x) HostState_scheme \<Rightarrow> (('p, 'o, 'q, 'x) HostState_scheme \<times> unit io_result) run" where
  "report_progress os s =
     Option.bind (IpHost_is_established (st_host s)) (\<lambda>established.
       and_then
         (if established \<and> \<not> st_was_established s then
            and_then (eprintln os (s\<lparr> st_was_established := True \<rparr>) ''connection established.'')
              (\<lambda>s. eprintln os s [])
          else Some (s, Inr ())) (\<lambda>s.
         if IpHost_is_finished (st_host s) then
           and_then (eprintln os s ''local outbound stream finished and fully acknowledged.'')
             (\<lambda>s. eprintln os s ''you can Ctrl-C to exit, or keep reading peer data if any.'')
         else Some (s, Inr ())))"

definition warn_short_write ::
  "('f, 'p, 'o, 'q) os \<Rightarrow> ('p, 'o, 'q, 'x) HostState_scheme \<Rightarrow> nat \<Rightarrow> nat \<Rightarrow> (('p, 'o, 'q, 'x) HostState_scheme \<times> unit io_result) run" where
  "warn_short_write os s count data_len =
     (if count < data_len
      then eprintln os s (''warning: outbound ByteStream accepted only '' @ string_of_nat count @ ''/'' @
        string_of_nat data_len @ '' bytes'')
      else Some (s, Inr ()))"

section \<open>The contract of the operating system\<close>

text \<open>
  At any time only finitely much has arrived: a read that does not end the draining of the device leaves
  less in it, and so does taking an event from the channel, and writing does not add to it; \<open>volume\<close> bounds
  the bytes that come through the channel. Standard output and standard error can be written: the
  printing macros panic otherwise.
\<close>

fun event_bytes :: "AppEvent \<Rightarrow> nat" where
  "event_bytes (Data d) = length d"
| "event_bytes Close = 0"

definition os_ok :: "('f, 'p, 'o, 'q) os \<Rightarrow> ('f \<Rightarrow> nat) \<Rightarrow> ('q \<Rightarrow> nat) \<Rightarrow> ('q \<Rightarrow> nat) \<Rightarrow> bool" where
  "os_ok os arrived events volume \<longleftrightarrow>
     (\<forall>f n f' b. os_read os f n = (f', Inr b) \<longrightarrow> arrived f' < arrived f) \<and>
     (\<forall>f n f'. os_read os f n = (f', Inl Interrupted) \<longrightarrow> arrived f' < arrived f) \<and>
     (\<forall>f b f' r. os_write os f b = (f', r) \<longrightarrow> arrived f' \<le> arrived f) \<and>
     (\<forall>q q' x. os_recv os q = (q', Some x) \<longrightarrow> events q' < events q \<and> volume q' + event_bytes x \<le> volume q) \<and>
     (\<forall>q q'. os_recv os q = (q', None) \<longrightarrow> volume q' \<le> volume q) \<and>
     writable (os_print os) \<and> writable (os_eprint os)"

lemma os_okD:
  assumes "os_ok os arrived events volume"
  shows "os_read os f n = (f', Inr b) \<Longrightarrow> arrived f' < arrived f"
    and "os_read os f n = (f', Inl Interrupted) \<Longrightarrow> arrived f' < arrived f"
    and "os_recv os q = (q', Some x) \<Longrightarrow> events q' < events q"
    and "os_recv os q = (q', Some x) \<Longrightarrow> volume q' + event_bytes x \<le> volume q"
    and "os_recv os q = (q', None) \<Longrightarrow> volume q' \<le> volume q"
    and "os_write os f b = (f', w) \<Longrightarrow> arrived f' \<le> arrived f"
    and "writable (os_print os)" and "writable (os_eprint os)"
  using assms unfolding os_ok_def by blast+

text \<open>A computation ends, without a panic, and unless it fails its state satisfies \<open>P\<close>.\<close>

definition ends :: "('s \<Rightarrow> bool) \<Rightarrow> ('s \<times> unit io_result) run \<Rightarrow> bool" where
  "ends P m \<longleftrightarrow> (\<exists>s r. m = Some (s, r) \<and> (r = Inr () \<longrightarrow> P s))"

lemma ends_and_then:
  assumes "ends P m" and "\<And>s. P s \<Longrightarrow> ends Q (k s)"
  shows "ends Q (and_then m k)"
proof -
  obtain s r where r: "m = Some (s, r)" "r = Inr () \<longrightarrow> P s" using assms(1) by (auto simp: ends_def)
  then show ?thesis using assms(2) [of s] by (cases r) (auto simp: and_then_def ends_def)
qed

lemma ends_Some [simp]: "ends P (Some (s, r)) \<longleftrightarrow> (r = Inr () \<longrightarrow> P s)"
  by (auto simp: ends_def)

lemma ends_mono: "ends P m \<Longrightarrow> (\<And>s. P s \<Longrightarrow> Q s) \<Longrightarrow> ends Q m"
  by (auto simp: ends_def)

text \<open>Printing changes nothing but the streams that are printed to.\<close>

definition printed :: "('p, 'o, 'q, 'x) HostState_scheme \<Rightarrow> ('p, 'o, 'q, 'x) HostState_scheme \<Rightarrow> bool" where
  "printed s s' \<longleftrightarrow> (\<exists>out. s' = s\<lparr>st_out := out\<rparr>)"

lemma printed_refl [simp]: "printed s s"
  unfolding printed_def by (rule exI [of _ "st_out s"]) simp

lemma printed_trans: "printed s s1 \<Longrightarrow> printed s1 s2 \<Longrightarrow> printed s s2"
  by (auto simp: printed_def)

lemma printed_host:
  "printed s s' \<Longrightarrow> st_host s' = st_host s \<and> printed (s\<lparr>st_host := h\<rparr>) (s'\<lparr>st_host := h\<rparr>)"
proof -
  assume "printed s s'"
  then obtain out where "s' = s\<lparr>st_out := out\<rparr>" by (auto simp: printed_def)
  then show ?thesis unfolding printed_def by (intro conjI exI [of _ out]) (cases s, simp)+
qed

lemma eprintln_ends:
  assumes "os_ok os arrived events volume"
  shows "ends (printed s) (eprintln os s message)"
  using print_total(2) [OF os_okD(8) [OF assms], of "st_out s" message] by (auto simp: eprintln_def printed_def)

lemma eprintlns_end:
  assumes "os_ok os arrived events volume"
  shows "ends (printed s) (and_then (eprintln os s x) (\<lambda>s. eprintln os s y))"
  by (rule ends_and_then [OF eprintln_ends [OF assms]], rule ends_mono [OF eprintln_ends [OF assms]]) (rule printed_trans)

lemma print_event_ends:
  assumes "os_ok os arrived events volume"
  shows "ends (printed s) (print_event os s event)"
proof (cases event)
  case (TcpPayload payload)
  obtain out where "print_text (os_print os) (st_out s) (from_utf8_lossy payload) = Some out"
    using print_total(1) [OF os_okD(7) [OF assms]] by blast
  then show ?thesis using TcpPayload by (cases "os_flush os out") (auto simp: printed_def)
qed (simp_all add: eprintln_ends [OF assms])

lemma print_events_ends:
  assumes "os_ok os arrived events volume"
  shows "ends (printed s) (print_events os s es)"
proof (induction es arbitrary: s)
  case (Cons e es)
  have "ends (printed s) (and_then (print_event os s e) (\<lambda>s. print_events os s es))"
    by (rule ends_and_then [OF print_event_ends [OF assms]], rule ends_mono [OF Cons.IH]) (rule printed_trans)
  then show ?case by simp
qed simp

text \<open>A panic is what a closed standard output leads to.\<close>

lemma print_event_panics:
  assumes "os_print os (st_out s) (from_utf8_lossy payload) = (out, Inl e)"
  shows "print_event os s (TcpPayload payload) = None"
  using assms by (simp add: print_text_def)

lemma warn_ends:
  assumes "os_ok os arrived events volume"
  shows "ends (printed s) (warn_short_write os s n k)"
  by (simp add: warn_short_write_def eprintln_ends [OF assms])

lemma dump_packet_keeps:
  "dump_packet os s p = (s', r) \<Longrightarrow> \<exists>w. s' = s\<lparr>st_pcap := w\<rparr>"
proof (cases "st_pcap s")
  case None
  then show "dump_packet os s p = (s', r) \<Longrightarrow> \<exists>w. s' = s\<lparr>st_pcap := w\<rparr>"
    by (intro exI [of _ "st_pcap s"]) (simp add: dump_packet_def)
qed (auto simp: dump_packet_def split: prod.splits)

lemma dump_packet_ends:
  "ends (\<lambda>s'. \<exists>w. s' = s\<lparr>st_pcap := w\<rparr>) (Some (dump_packet os s p))"
  using dump_packet_keeps [of os s p] by (cases "dump_packet os s p") auto

section \<open>The calls of the host\<close>

text \<open>The host's invariant with room for \<open>k\<close> more bytes from the application.\<close>

definition host_ok :: "nat \<Rightarrow> IpHost \<Rightarrow> bool" where
  "host_ok k h \<longleftrightarrow> (\<exists>W. host_inv W h \<and> length W + k + 2 \<le> U64_MAX)"

definition answers :: "nat \<Rightarrow> IpHost \<Rightarrow> IpHostOutput \<Rightarrow> bool" where
  "answers k h out \<longleftrightarrow> host_ok k h \<and> (\<forall>d \<in> set (ho_datagrams out). ip_fits d)"

lemma host_ok_mono: "host_ok k h \<Longrightarrow> j \<le> k \<Longrightarrow> host_ok j h"
  by (fastforce simp: host_ok_def)

lemma host_calls:
  assumes "host_ok k h"
  shows "\<exists>h' out. IpHost_connect h = Some (h', out) \<and> answers k h' out"
    and "\<exists>h' out. IpHost_close h = Some (h', out) \<and> answers k h' out"
    and "\<exists>h' out. IpHost_tick h ms = Some (h', out) \<and> answers k h' out"
    and "ip_fits d \<Longrightarrow> \<exists>h' out. IpHost_receive_datagram h d = Some (h', out) \<and> answers k h' out"
    and "layout_ok view \<Longrightarrow> \<exists>h' out. IpHost_receive_ipv4_bytes view h p = Some (h', out) \<and> answers k h' out"
    and "\<exists>b. IpHost_is_established h = Some b"
proof -
  obtain W where W: "host_inv W h" "length W + k + 2 \<le> U64_MAX" using assms by (auto simp: host_ok_def)
  note own = own_step_answers [OF W(1)]
  show "\<exists>h' out. IpHost_connect h = Some (h', out) \<and> answers k h' out"
    using flush_host [OF W(1)] own W(2) unfolding answers_def host_ok_def by blast
  show "\<exists>h' out. IpHost_close h = Some (h', out) \<and> answers k h' out"
    using close_host [OF W(1)] own W(2) unfolding answers_def host_ok_def by blast
  show "\<exists>h' out. IpHost_tick h ms = Some (h', out) \<and> answers k h' out"
    using tick_host [OF W(1), of ms] own W(2) unfolding answers_def host_ok_def by blast
  show "ip_fits d \<Longrightarrow> \<exists>h' out. IpHost_receive_datagram h d = Some (h', out) \<and> answers k h' out"
    using receive_datagram_host [OF W(1), of d] W(2) unfolding answers_def host_ok_def by blast
  show "layout_ok view \<Longrightarrow> \<exists>h' out. IpHost_receive_ipv4_bytes view h p = Some (h', out) \<and> answers k h' out"
    using receive_bytes_host [OF W(1), of view p] W(2) unfolding answers_def host_ok_def by blast
  have "rc_inv (tc_receiver (host_connection h))" using W(1) by (simp add: host_inv_def tc_inv_def)
  then show "\<exists>b. IpHost_is_established h = Some b"
    using send_total by (fastforce simp: IpHost_is_established_def TcpConnection_is_established_def)
qed

lemma host_write:
  assumes "host_ok (k + length d) h"
  shows "\<exists>h' n out. IpHost_write h d = Some (h', n, out) \<and> answers k h' out"
proof -
  obtain W where W: "host_inv W h" "length W + (k + length d) + 2 \<le> U64_MAX" using assms by (auto simp: host_ok_def)
  then have "length W + length d + 2 \<le> U64_MAX" by simp
  from write_host [OF W(1) this] obtain tc' n segs where
    w: "IpHost_write h d = Some (h\<lparr>host_connection := tc'\<rparr>, n, tcp_output (host_config h) segs)"
    and own: "own_step W (host_connection h) (W @ take n d) tc' segs" by blast
  have "length (W @ take n d) + k + 2 \<le> U64_MAX" using W(2) by simp
  then show ?thesis using w own_step_answers [OF W(1) own] unfolding answers_def host_ok_def by blast
qed

lemma host_ok_new:
  assumes "valid_config c" and "k + 2 \<le> U64_MAX"
  shows "\<exists>h. IpHost_new (IpHostConfig_tcp_demo (cfg_local_ip c) (cfg_peer_ip c) (cfg_local_port c) (cfg_peer_port c) (cfg_isn c)) = Some h \<and>
    host_ok k h"
proof -
  have "host_config_ok (IpHostConfig_tcp_demo (cfg_local_ip c) (cfg_peer_ip c) (cfg_local_port c) (cfg_peer_port c) (cfg_isn c))"
    using assms(1) by (simp add: host_config_ok_def IpHostConfig_tcp_demo_def valid_config_def)
  from host_inv_new [OF this] show ?thesis using assms(2) by (auto simp: host_ok_def intro!: exI [of _ "[]"])
qed

text \<open>The reports keep the state of the host and of the device.\<close>

definition reported :: "('p, 'o, 'q, 'x) HostState_scheme \<Rightarrow> ('p, 'o, 'q, 'x) HostState_scheme \<Rightarrow> bool" where
  "reported s s' \<longleftrightarrow> (\<exists>out b. s' = s\<lparr>st_out := out, st_was_established := b\<rparr>)"

lemma reported_printed:
  assumes "reported s s1" and "printed s1 s2"
  shows "reported s s2"
proof -
  obtain out b out' where "s1 = s\<lparr>st_out := out, st_was_established := b\<rparr>" "s2 = s1\<lparr>st_out := out'\<rparr>"
    using assms by (auto simp: reported_def printed_def)
  then have "s2 = s\<lparr>st_out := out', st_was_established := b\<rparr>" by simp
  then show ?thesis unfolding reported_def by blast
qed

lemma reported_self [simp]: "reported s s" "reported s (s\<lparr>st_was_established := b\<rparr>)"
  unfolding reported_def
  by (intro exI [of _ "st_out s"] exI [of _ "st_was_established s"], cases s, simp)
    (intro exI [of _ "st_out s"] exI [of _ b], cases s, simp)

lemma report_progress_ends:
  assumes "os_ok os arrived events volume" and "host_ok k (st_host s)"
  shows "ends (reported s) (report_progress os s)"
proof -
  obtain b where b: "IpHost_is_established (st_host s) = Some b" using host_calls(6) [OF assms(2)] by blast
  have two: "ends (reported s) (and_then (eprintln os s' x) (\<lambda>s. eprintln os s y))" if "reported s s'" for s' x y
    by (rule ends_mono [OF eprintlns_end [OF assms(1)]]) (rule reported_printed [OF that])
  show ?thesis unfolding report_progress_def b bind.simps
    by (rule ends_and_then [where P = "reported s"]) (simp_all add: two)
qed

end
