(* ===== verification/Arp.thy ===== *)
theory Arp
  imports Ethernet_Frame
begin

text \<open>\<open>src/arp.rs\<close>: ARP messages for IPv4 over Ethernet and their wire format.\<close>

section \<open>Model\<close>

abbreviation ARP_MESSAGE_LEN :: nat where "ARP_MESSAGE_LEN \<equiv> 28"

definition ARP_HARDWARE_TYPE_ETHERNET :: u16 where "ARP_HARDWARE_TYPE_ETHERNET = 1"
definition ARP_PROTOCOL_TYPE_IPV4 :: u16 where "ARP_PROTOCOL_TYPE_IPV4 = ETHERTYPE_IPV4"
definition ARP_HARDWARE_ADDRESS_LEN_ETHERNET :: byte where "ARP_HARDWARE_ADDRESS_LEN_ETHERNET = 6"
definition ARP_PROTOCOL_ADDRESS_LEN_IPV4 :: byte where "ARP_PROTOCOL_ADDRESS_LEN_IPV4 = 4"
definition ARP_OPCODE_REQUEST :: u16 where "ARP_OPCODE_REQUEST = 1"
definition ARP_OPCODE_REPLY :: u16 where "ARP_OPCODE_REPLY = 2"

datatype ArpOperation = Request | Reply

fun ArpOperation_opcode :: "ArpOperation \<Rightarrow> u16" where
  "ArpOperation_opcode Request = ARP_OPCODE_REQUEST"
| "ArpOperation_opcode Reply = ARP_OPCODE_REPLY"

definition ArpOperation_from_opcode :: "u16 \<Rightarrow> ArpOperation option" where
  "ArpOperation_from_opcode opcode =
     (if opcode = ARP_OPCODE_REQUEST then Some Request
      else if opcode = ARP_OPCODE_REPLY then Some Reply else None)"

record ArpMessage =
  am_operation :: ArpOperation
  am_sender_ethernet_address :: EthernetAddress
  am_sender_ip_address :: octets4
  am_target_ethernet_address :: EthernetAddress
  am_target_ip_address :: octets4

datatype ArpParseError =
    MessageTooShort
  | UnsupportedHardwareType u16
  | UnsupportedProtocolType u16
  | UnsupportedHardwareAddressLength byte
  | UnsupportedProtocolAddressLength byte
  | UnsupportedOperation u16

definition ArpMessage_request :: "EthernetAddress \<Rightarrow> octets4 \<Rightarrow> octets4 \<Rightarrow> ArpMessage" where
  "ArpMessage_request sender_ethernet_address sender_ip_address target_ip_address =
     \<lparr> am_operation = Request, am_sender_ethernet_address = sender_ethernet_address,
       am_sender_ip_address = sender_ip_address, am_target_ethernet_address = EthernetAddress_ZERO,
       am_target_ip_address = target_ip_address \<rparr>"

definition ArpMessage_reply ::
  "EthernetAddress \<Rightarrow> octets4 \<Rightarrow> EthernetAddress \<Rightarrow> octets4 \<Rightarrow> ArpMessage" where
  "ArpMessage_reply sender_ethernet_address sender_ip_address target_ethernet_address target_ip_address =
     \<lparr> am_operation = Reply, am_sender_ethernet_address = sender_ethernet_address,
       am_sender_ip_address = sender_ip_address, am_target_ethernet_address = target_ethernet_address,
       am_target_ip_address = target_ip_address \<rparr>"

definition ArpMessage_is_request :: "ArpMessage \<Rightarrow> bool" where
  "ArpMessage_is_request self = (am_operation self = Request)"

definition ArpMessage_is_reply :: "ArpMessage \<Rightarrow> bool" where
  "ArpMessage_is_reply self = (am_operation self = Reply)"

definition ArpMessage_serialize :: "ArpMessage \<Rightarrow> bytes run" where
  "ArpMessage_serialize self = do {
     let buf = be16 ARP_HARDWARE_TYPE_ETHERNET @ be16 ARP_PROTOCOL_TYPE_IPV4 @
           [ARP_HARDWARE_ADDRESS_LEN_ETHERNET, ARP_PROTOCOL_ADDRESS_LEN_IPV4] @
           be16 (ArpOperation_opcode (am_operation self)) @
           octets6_bytes (am_sender_ethernet_address self) @ octets4_bytes (am_sender_ip_address self) @
           octets6_bytes (am_target_ethernet_address self) @ octets4_bytes (am_target_ip_address self);
     _ \<leftarrow> ensure (length buf = ARP_MESSAGE_LEN);
     Some buf
   }"

definition ArpMessage_parse_bytes :: "bytes \<Rightarrow> (ArpParseError + ArpMessage) run" where
  "ArpMessage_parse_bytes data = Some
     (if length data < ARP_MESSAGE_LEN then Inl MessageTooShort
      else
        let hardware_type = from_be16 (data ! 0) (data ! 1);
            protocol_type = from_be16 (data ! 2) (data ! 3);
            hardware_len = data ! 4;
            protocol_len = data ! 5;
            opcode = from_be16 (data ! 6) (data ! 7)
        in if hardware_type \<noteq> ARP_HARDWARE_TYPE_ETHERNET then Inl (UnsupportedHardwareType hardware_type)
        else if protocol_type \<noteq> ARP_PROTOCOL_TYPE_IPV4 then Inl (UnsupportedProtocolType protocol_type)
        else if hardware_len \<noteq> ARP_HARDWARE_ADDRESS_LEN_ETHERNET
        then Inl (UnsupportedHardwareAddressLength hardware_len)
        else if protocol_len \<noteq> ARP_PROTOCOL_ADDRESS_LEN_IPV4
        then Inl (UnsupportedProtocolAddressLength protocol_len)
        else case ArpOperation_from_opcode opcode of
          None \<Rightarrow> Inl (UnsupportedOperation opcode)
        | Some operation \<Rightarrow> Inr
            \<lparr> am_operation = operation,
              am_sender_ethernet_address =
                (data ! 8, data ! 9, data ! 10, data ! 11, data ! 12, data ! 13),
              am_sender_ip_address = (data ! 14, data ! 15, data ! 16, data ! 17),
              am_target_ethernet_address =
                (data ! 18, data ! 19, data ! 20, data ! 21, data ! 22, data ! 23),
              am_target_ip_address = (data ! 24, data ! 25, data ! 26, data ! 27) \<rparr>)"

definition ArpMessage_parse :: "bytes \<Rightarrow> (ArpParseError + ArpMessage) run" where
  "ArpMessage_parse data = ArpMessage_parse_bytes data"

section \<open>Round trip\<close>

lemma opcode_roundtrip: "ArpOperation_from_opcode (ArpOperation_opcode x) = Some x"
  by (cases x) (simp_all add: ArpOperation_from_opcode_def ARP_OPCODE_REQUEST_def ARP_OPCODE_REPLY_def)

lemma arp_serialize_total: "\<exists>bs. ArpMessage_serialize m = Some bs \<and> length bs = 28"
  by (simp add: ArpMessage_serialize_def)

lemma arp_parse_padded:
  assumes "ArpMessage_serialize m = Some bs"
  shows "ArpMessage_parse_bytes (bs @ pad) = Some (Inr m)"
proof -
  obtain s0 s1 s2 s3 s4 s5 t0 t1 t2 t3 t4 t5 where
    eth: "am_sender_ethernet_address m = (s0, s1, s2, s3, s4, s5)"
      "am_target_ethernet_address m = (t0, t1, t2, t3, t4, t5)"
    by (metis prod.exhaust)
  obtain a0 a1 a2 a3 b0 b1 b2 b3 where
    ip: "am_sender_ip_address m = (a0, a1, a2, a3)" "am_target_ip_address m = (b0, b1, b2, b3)"
    by (metis prod.exhaust)
  have m: "m = \<lparr> am_operation = am_operation m, am_sender_ethernet_address = (s0, s1, s2, s3, s4, s5),
      am_sender_ip_address = (a0, a1, a2, a3), am_target_ethernet_address = (t0, t1, t2, t3, t4, t5),
      am_target_ip_address = (b0, b1, b2, b3) \<rparr>"
    using eth ip by (cases m) simp
  have bs: "bs = be16 1 @ be16 0x0800 @ [6, 4] @ be16 (ArpOperation_opcode (am_operation m)) @
      [s0, s1, s2, s3, s4, s5, a0, a1, a2, a3, t0, t1, t2, t3, t4, t5, b0, b1, b2, b3]"
    using assms by (simp add: ArpMessage_serialize_def eth ip octets6_bytes_def octets4_bytes_def
        ARP_HARDWARE_TYPE_ETHERNET_def ARP_PROTOCOL_TYPE_IPV4_def ETHERTYPE_IPV4_def
        ARP_HARDWARE_ADDRESS_LEN_ETHERNET_def ARP_PROTOCOL_ADDRESS_LEN_IPV4_def)
  let ?d = "bs @ pad"
  have const: "from_be16 (?d ! 0) (?d ! 1) = 1" "from_be16 (?d ! 2) (?d ! 3) = 0x0800" "?d ! 4 = 6" "?d ! 5 = 4"
    "\<not> length ?d < 28"
    unfolding bs be16_def by (simp_all add: from_be16_def)
  have op: "from_be16 (?d ! 6) (?d ! 7) = ArpOperation_opcode (am_operation m)"
    unfolding bs be16_def by (simp add: from_be16_be16 del: of_nat_unat)
  have addr: "(?d ! 8, ?d ! 9, ?d ! 10, ?d ! 11, ?d ! 12, ?d ! 13) = (s0, s1, s2, s3, s4, s5)"
    "(?d ! 14, ?d ! 15, ?d ! 16, ?d ! 17) = (a0, a1, a2, a3)"
    "(?d ! 18, ?d ! 19, ?d ! 20, ?d ! 21, ?d ! 22, ?d ! 23) = (t0, t1, t2, t3, t4, t5)"
    "(?d ! 24, ?d ! 25, ?d ! 26, ?d ! 27) = (b0, b1, b2, b3)"
    unfolding bs be16_def by simp_all
  show ?thesis
    unfolding ArpMessage_parse_bytes_def Let_def const op addr opcode_roundtrip
      ARP_HARDWARE_TYPE_ETHERNET_def ARP_PROTOCOL_TYPE_IPV4_def ETHERTYPE_IPV4_def
      ARP_HARDWARE_ADDRESS_LEN_ETHERNET_def ARP_PROTOCOL_ADDRESS_LEN_IPV4_def
    using const(5) m by simp
qed

interpretation arp_wire: wire_format ArpMessage_serialize ArpMessage_parse_bytes "\<lambda>_. True"
proof unfold_locales
  show "\<exists>bs. ArpMessage_serialize m = Some bs" for m using arp_serialize_total by blast
  show "ArpMessage_parse_bytes bs = Some (Inr m)" if "ArpMessage_serialize m = Some bs" for m bs
    using arp_parse_padded [OF that, of "[]"] by simp
qed

section \<open>Properties\<close>


end
