(* ===== verification/Network_Interface.thy ===== *)
theory Network_Interface
  imports Arp Ipv4_Datagram
begin

text \<open>
  \<open>src/network_interface.rs\<close>: an Ethernet interface with an ARP cache and queues of datagrams that
  wait for an address. The two hash maps are maps; the parser of IPv4 headers takes the third-party
  \<open>ref_from_bytes\<close> as a parameter.
\<close>

section \<open>Model\<close>

abbreviation ARP_CACHE_TTL_MS :: nat where "ARP_CACHE_TTL_MS \<equiv> 30000"
abbreviation ARP_REQUEST_COOLDOWN_MS :: nat where "ARP_REQUEST_COOLDOWN_MS \<equiv> 5000"
abbreviation PENDING_DATAGRAM_TTL_MS :: nat where "PENDING_DATAGRAM_TTL_MS \<equiv> 5000"

record ArpCacheEntry =
  ce_ethernet_address :: EthernetAddress
  ce_age_ms :: nat

record PendingResolution =
  pr_datagrams :: "Ipv4Datagram list"
  pr_age_ms :: nat
  pr_request_age_ms :: nat

definition PendingResolution_new :: PendingResolution where
  "PendingResolution_new =
     \<lparr> pr_datagrams = [], pr_age_ms = 0, pr_request_age_ms = ARP_REQUEST_COOLDOWN_MS \<rparr>"

definition PendingResolution_should_send_arp_request :: "PendingResolution \<Rightarrow> bool" where
  "PendingResolution_should_send_arp_request self = (pr_request_age_ms self \<ge> ARP_REQUEST_COOLDOWN_MS)"

definition PendingResolution_mark_request_sent :: "PendingResolution \<Rightarrow> PendingResolution" where
  "PendingResolution_mark_request_sent self = self\<lparr> pr_request_age_ms := 0 \<rparr>"

definition PendingResolution_tick :: "PendingResolution \<Rightarrow> nat \<Rightarrow> PendingResolution" where
  "PendingResolution_tick self elapsed_ms =
     self\<lparr> pr_age_ms := saturating_add (pr_age_ms self) elapsed_ms,
           pr_request_age_ms := saturating_add (pr_request_age_ms self) elapsed_ms \<rparr>"

definition PendingResolution_is_expired :: "PendingResolution \<Rightarrow> bool" where
  "PendingResolution_is_expired self = (pr_age_ms self \<ge> PENDING_DATAGRAM_TTL_MS)"

record NetworkInterface =
  ni_ethernet_address :: EthernetAddress
  ni_ip_address :: Ipv4AddrBytes
  ni_arp_cache :: "Ipv4AddrBytes \<rightharpoonup> ArpCacheEntry"
  ni_pending :: "Ipv4AddrBytes \<rightharpoonup> PendingResolution"
  ni_frames_out :: "EthernetFrame list"
  ni_datagrams_in :: "Ipv4Datagram list"

definition NetworkInterface_new :: "EthernetAddress \<Rightarrow> Ipv4AddrBytes \<Rightarrow> NetworkInterface" where
  "NetworkInterface_new ethernet_address ip_address =
     \<lparr> ni_ethernet_address = ethernet_address, ni_ip_address = ip_address, ni_arp_cache = Map.empty,
       ni_pending = Map.empty, ni_frames_out = [], ni_datagrams_in = [] \<rparr>"

definition NetworkInterface_frames_out_len :: "NetworkInterface \<Rightarrow> nat" where
  "NetworkInterface_frames_out_len self = length (ni_frames_out self)"

definition NetworkInterface_datagrams_in_len :: "NetworkInterface \<Rightarrow> nat" where
  "NetworkInterface_datagrams_in_len self = length (ni_datagrams_in self)"

definition NetworkInterface_has_arp_cache_entry :: "NetworkInterface \<Rightarrow> Ipv4AddrBytes \<Rightarrow> bool" where
  "NetworkInterface_has_arp_cache_entry self ip = (ni_arp_cache self ip \<noteq> None)"

definition NetworkInterface_lookup_ethernet_address ::
  "NetworkInterface \<Rightarrow> Ipv4AddrBytes \<Rightarrow> EthernetAddress option" where
  "NetworkInterface_lookup_ethernet_address self ip =
     map_option ce_ethernet_address (ni_arp_cache self ip)"

definition NetworkInterface_pop_frame :: "NetworkInterface \<Rightarrow> NetworkInterface \<times> EthernetFrame option" where
  "NetworkInterface_pop_frame self =
     (case ni_frames_out self of
        [] \<Rightarrow> (self, None)
      | f # fs \<Rightarrow> (self\<lparr> ni_frames_out := fs \<rparr>, Some f))"

definition NetworkInterface_pop_datagram :: "NetworkInterface \<Rightarrow> NetworkInterface \<times> Ipv4Datagram option" where
  "NetworkInterface_pop_datagram self =
     (case ni_datagrams_in self of
        [] \<Rightarrow> (self, None)
      | d # ds \<Rightarrow> (self\<lparr> ni_datagrams_in := ds \<rparr>, Some d))"

definition NetworkInterface_emit_ipv4_frame ::
  "NetworkInterface \<Rightarrow> Ipv4Datagram \<Rightarrow> EthernetAddress \<Rightarrow> NetworkInterface run" where
  "NetworkInterface_emit_ipv4_frame self datagram dst = do {
     payload \<leftarrow> Ipv4Datagram_serialize datagram;
     let frame = EthernetFrame_ipv4 dst (ni_ethernet_address self) payload;
     Some (self\<lparr> ni_frames_out := ni_frames_out self @ [frame] \<rparr>)
   }"

definition NetworkInterface_emit_arp_request ::
  "NetworkInterface \<Rightarrow> Ipv4AddrBytes \<Rightarrow> NetworkInterface run" where
  "NetworkInterface_emit_arp_request self target_ip = do {
     let arp = ArpMessage_request (ni_ethernet_address self) (ni_ip_address self) target_ip;
     payload \<leftarrow> ArpMessage_serialize arp;
     let frame = EthernetFrame_arp EthernetAddress_BROADCAST (ni_ethernet_address self) payload;
     Some (self\<lparr> ni_frames_out := ni_frames_out self @ [frame] \<rparr>)
   }"

definition NetworkInterface_emit_arp_reply ::
  "NetworkInterface \<Rightarrow> EthernetAddress \<Rightarrow> Ipv4AddrBytes \<Rightarrow> NetworkInterface run" where
  "NetworkInterface_emit_arp_reply self target_ethernet_address target_ip = do {
     let arp = ArpMessage_reply (ni_ethernet_address self) (ni_ip_address self)
           target_ethernet_address target_ip;
     payload \<leftarrow> ArpMessage_serialize arp;
     let frame = EthernetFrame_arp target_ethernet_address (ni_ethernet_address self) payload;
     Some (self\<lparr> ni_frames_out := ni_frames_out self @ [frame] \<rparr>)
   }"

definition NetworkInterface_send_datagram ::
  "NetworkInterface \<Rightarrow> Ipv4Datagram \<Rightarrow> Ipv4AddrBytes \<Rightarrow> NetworkInterface run" where
  "NetworkInterface_send_datagram self datagram next_hop =
     (case NetworkInterface_lookup_ethernet_address self next_hop of
        Some ethernet_address \<Rightarrow> NetworkInterface_emit_ipv4_frame self datagram ethernet_address
      | None \<Rightarrow>
          (let pending = (case ni_pending self next_hop of
                 Some pending \<Rightarrow> pending
               | None \<Rightarrow> PendingResolution_new);
               pending = pending\<lparr> pr_datagrams := pr_datagrams pending @ [datagram] \<rparr>
           in if PendingResolution_should_send_arp_request pending
              then NetworkInterface_emit_arp_request
                     (self\<lparr> ni_pending := (ni_pending self)
                              (next_hop \<mapsto> PendingResolution_mark_request_sent pending) \<rparr>) next_hop
              else Some (self\<lparr> ni_pending := (ni_pending self)(next_hop \<mapsto> pending) \<rparr>)))"

text \<open>The \<open>while\<close> loop of \<open>learn_arp_mapping\<close>: the waiting datagrams go out in their order.\<close>

fun emit_all :: "NetworkInterface \<Rightarrow> Ipv4Datagram list \<Rightarrow> EthernetAddress \<Rightarrow> NetworkInterface run" where
  "emit_all self [] dst = Some self"
| "emit_all self (datagram # datagrams) dst = do {
     self \<leftarrow> NetworkInterface_emit_ipv4_frame self datagram dst;
     emit_all self datagrams dst
   }"

definition NetworkInterface_learn_arp_mapping ::
  "NetworkInterface \<Rightarrow> Ipv4AddrBytes \<Rightarrow> EthernetAddress \<Rightarrow> NetworkInterface run" where
  "NetworkInterface_learn_arp_mapping self ip ethernet_address =
     (let self = self\<lparr> ni_arp_cache := (ni_arp_cache self)
            (ip \<mapsto> \<lparr> ce_ethernet_address = ethernet_address, ce_age_ms = 0 \<rparr>) \<rparr>
      in case ni_pending self ip of
           Some pending \<Rightarrow>
             emit_all (self\<lparr> ni_pending := (ni_pending self)(ip := None) \<rparr>) (pr_datagrams pending)
               ethernet_address
         | None \<Rightarrow> Some self)"

definition NetworkInterface_recv_frame ::
  "(bytes \<Rightarrow> Ipv4FixedHeader option) \<Rightarrow> NetworkInterface \<Rightarrow> EthernetFrame \<Rightarrow> NetworkInterface run" where
  "NetworkInterface_recv_frame ref_from_bytes self frame =
     (if \<not> EthernetFrame_is_for frame (ni_ethernet_address self) then Some self
      else if eh_ethertype (ef_header frame) = ETHERTYPE_IPV4 then do {
        parsed \<leftarrow> Ipv4Datagram_parse_bytes ref_from_bytes (ef_payload frame);
        (case parsed of
           Inr datagram \<Rightarrow> Some (self\<lparr> ni_datagrams_in := ni_datagrams_in self @ [datagram] \<rparr>)
         | Inl _ \<Rightarrow> Some self)
      }
      else if eh_ethertype (ef_header frame) = ETHERTYPE_ARP then do {
        parsed \<leftarrow> ArpMessage_parse_bytes (ef_payload frame);
        (case parsed of
           Inr message \<Rightarrow> do {
             self \<leftarrow> NetworkInterface_learn_arp_mapping self (am_sender_ip_address message)
                (am_sender_ethernet_address message);
             if am_operation message = Request \<and> am_target_ip_address message = ni_ip_address self
             then NetworkInterface_emit_arp_reply self (am_sender_ethernet_address message)
                    (am_sender_ip_address message)
             else Some self
           }
         | Inl _ \<Rightarrow> Some self)
      }
      else Some self)"

definition NetworkInterface_tick :: "NetworkInterface \<Rightarrow> nat \<Rightarrow> NetworkInterface" where
  "NetworkInterface_tick self elapsed_ms =
     self\<lparr> ni_arp_cache := (\<lambda>ip. case ni_arp_cache self ip of
               None \<Rightarrow> None
             | Some entry \<Rightarrow>
                 (let entry = entry\<lparr> ce_age_ms := saturating_add (ce_age_ms entry) elapsed_ms \<rparr>
                  in if ce_age_ms entry < ARP_CACHE_TTL_MS then Some entry else None)),
           ni_pending := (\<lambda>ip. case ni_pending self ip of
               None \<Rightarrow> None
             | Some pending \<Rightarrow>
                 (let pending = PendingResolution_tick pending elapsed_ms
                  in if \<not> PendingResolution_is_expired pending then Some pending else None)) \<rparr>"

section \<open>Safety\<close>

text \<open>
  Between calls: a next hop is either cached or waited for, not both; cached addresses are younger
  than 30 seconds; every wait began with the one ARP request it has sent, less than 5 seconds ago.
\<close>

definition pending_ok :: "PendingResolution \<Rightarrow> bool" where
  "pending_ok p \<longleftrightarrow> pr_datagrams p \<noteq> [] \<and> (\<forall>d \<in> set (pr_datagrams p). ip_fits d) \<and>
     pr_request_age_ms p = pr_age_ms p \<and> pr_age_ms p < PENDING_DATAGRAM_TTL_MS"

definition ni_inv :: "NetworkInterface \<Rightarrow> bool" where
  "ni_inv ni \<longleftrightarrow>
     (\<forall>ip e. ni_arp_cache ni ip = Some e \<longrightarrow> ce_age_ms e < ARP_CACHE_TTL_MS \<and> ni_pending ni ip = None) \<and>
     (\<forall>ip p. ni_pending ni ip = Some p \<longrightarrow> pending_ok p)"

lemma ni_invI:
  assumes "\<And>ip e. ni_arp_cache ni ip = Some e \<Longrightarrow> ce_age_ms e < ARP_CACHE_TTL_MS \<and> ni_pending ni ip = None"
    and "\<And>ip p. ni_pending ni ip = Some p \<Longrightarrow> pending_ok p"
  shows "ni_inv ni"
  unfolding ni_inv_def using assms by blast

lemma ni_invD:
  assumes "ni_inv ni"
  shows "ni_arp_cache ni ip = Some e \<Longrightarrow> ce_age_ms e < ARP_CACHE_TTL_MS"
    and "ni_arp_cache ni ip = Some e \<Longrightarrow> ni_pending ni ip = None"
    and "ni_pending ni ip = Some p \<Longrightarrow> pending_ok p"
  using assms unfolding ni_inv_def by blast+

definition ip_frame :: "NetworkInterface \<Rightarrow> EthernetAddress \<Rightarrow> Ipv4Datagram \<Rightarrow> EthernetFrame" where
  "ip_frame ni dst d = EthernetFrame_ipv4 dst (ni_ethernet_address ni) (the (Ipv4Datagram_serialize d))"

definition arp_frame :: "NetworkInterface \<Rightarrow> EthernetAddress \<Rightarrow> ArpMessage \<Rightarrow> EthernetFrame" where
  "arp_frame ni dst m = EthernetFrame_arp dst (ni_ethernet_address ni) (the (ArpMessage_serialize m))"

lemma emit_ipv4_eq:
  "ip_fits d \<Longrightarrow> NetworkInterface_emit_ipv4_frame ni d dst =
     Some (ni\<lparr>ni_frames_out := ni_frames_out ni @ [ip_frame ni dst d]\<rparr>)"
  using ip_serialize_eq [of d] by (simp add: NetworkInterface_emit_ipv4_frame_def ip_frame_def)

lemma emit_all_eq:
  "\<forall>d \<in> set ds. ip_fits d \<Longrightarrow> emit_all ni ds dst =
     Some (ni\<lparr>ni_frames_out := ni_frames_out ni @ map (ip_frame ni dst) ds\<rparr>)"
proof (induction ds arbitrary: ni)
  case Nil
  then show ?case by simp
next
  case (Cons d ds)
  have "ip_frame (ni\<lparr>ni_frames_out := x\<rparr>) = ip_frame ni" for x by (simp add: ip_frame_def fun_eq_iff)
  then show ?case using Cons by (simp add: emit_ipv4_eq)
qed

lemma emit_arp_request_eq:
  "NetworkInterface_emit_arp_request ni ip = Some (ni\<lparr>ni_frames_out := ni_frames_out ni @
     [arp_frame ni EthernetAddress_BROADCAST (ArpMessage_request (ni_ethernet_address ni) (ni_ip_address ni) ip)]\<rparr>)"
  using arp_serialize_total [of "ArpMessage_request (ni_ethernet_address ni) (ni_ip_address ni) ip"]
  by (auto simp: NetworkInterface_emit_arp_request_def arp_frame_def)

lemma emit_arp_reply_eq:
  "NetworkInterface_emit_arp_reply ni dst ip = Some (ni\<lparr>ni_frames_out := ni_frames_out ni @
     [arp_frame ni dst (ArpMessage_reply (ni_ethernet_address ni) (ni_ip_address ni) dst ip)]\<rparr>)"
  using arp_serialize_total [of "ArpMessage_reply (ni_ethernet_address ni) (ni_ip_address ni) dst ip"]
  by (auto simp: NetworkInterface_emit_arp_reply_def arp_frame_def)

text \<open>The effect of learning an address.\<close>

definition waiting :: "NetworkInterface \<Rightarrow> Ipv4AddrBytes \<Rightarrow> Ipv4Datagram list" where
  "waiting ni ip = (case ni_pending ni ip of None \<Rightarrow> [] | Some p \<Rightarrow> pr_datagrams p)"

lemma learn_eq:
  assumes "ni_inv ni"
  shows "NetworkInterface_learn_arp_mapping ni ip eth = Some (ni\<lparr>
      ni_arp_cache := (ni_arp_cache ni)(ip \<mapsto> \<lparr>ce_ethernet_address = eth, ce_age_ms = 0\<rparr>),
      ni_pending := (ni_pending ni)(ip := None),
      ni_frames_out := ni_frames_out ni @ map (ip_frame ni eth) (waiting ni ip)\<rparr>)"
proof (cases "ni_pending ni ip")
  case None
  then have "(ni_pending ni)(ip := None) = ni_pending ni" by auto
  then show ?thesis using None by (simp add: NetworkInterface_learn_arp_mapping_def waiting_def)
next
  case (Some p)
  have "ip_frame (ni\<lparr>ni_arp_cache := c, ni_pending := q\<rparr>) = ip_frame ni" for c q
    by (simp add: ip_frame_def fun_eq_iff)
  moreover have "\<forall>d \<in> set (pr_datagrams p). ip_fits d" using ni_invD(3) [OF assms Some] by (simp add: pending_ok_def)
  ultimately show ?thesis using Some
    by (simp add: NetworkInterface_learn_arp_mapping_def waiting_def emit_all_eq Let_def)
qed

lemma send_cases:
  assumes "ni_inv ni" and "ip_fits d"
  shows "NetworkInterface_send_datagram ni d ip = Some
    (case ni_arp_cache ni ip of
       Some e \<Rightarrow> ni\<lparr>ni_frames_out := ni_frames_out ni @ [ip_frame ni (ce_ethernet_address e) d]\<rparr>
     | None \<Rightarrow> (case ni_pending ni ip of
         Some p \<Rightarrow> ni\<lparr>ni_pending := (ni_pending ni)(ip \<mapsto> p\<lparr>pr_datagrams := pr_datagrams p @ [d]\<rparr>)\<rparr>
       | None \<Rightarrow> ni\<lparr>ni_pending := (ni_pending ni)(ip \<mapsto> \<lparr>pr_datagrams = [d], pr_age_ms = 0, pr_request_age_ms = 0\<rparr>),
           ni_frames_out := ni_frames_out ni @ [arp_frame ni EthernetAddress_BROADCAST
             (ArpMessage_request (ni_ethernet_address ni) (ni_ip_address ni) ip)]\<rparr>))"
proof -
  have "pr_request_age_ms p < 5000" if "ni_pending ni ip = Some p" for p
    using ni_invD(3) [OF assms(1) that] by (simp add: pending_ok_def)
  then show ?thesis using assms(2)
    by (auto simp: NetworkInterface_send_datagram_def NetworkInterface_lookup_ethernet_address_def emit_ipv4_eq
        PendingResolution_new_def PendingResolution_should_send_arp_request_def emit_arp_request_eq arp_frame_def
        PendingResolution_mark_request_sent_def Let_def not_le split: option.splits)
qed


lemma ni_inv_frames: "ni_inv (ni\<lparr>ni_frames_out := x\<rparr>) = ni_inv ni"
  and ni_inv_datagrams: "ni_inv (ni\<lparr>ni_datagrams_in := y\<rparr>) = ni_inv ni"
  by (simp_all add: ni_inv_def)

lemma learn_inv:
  assumes "ni_inv ni" and "NetworkInterface_learn_arp_mapping ni ip eth = Some ni'"
  shows "ni_inv ni'"
proof -
  have ni': "ni' = ni\<lparr>ni_arp_cache := (ni_arp_cache ni)(ip \<mapsto> \<lparr>ce_ethernet_address = eth, ce_age_ms = 0\<rparr>),
      ni_pending := (ni_pending ni)(ip := None),
      ni_frames_out := ni_frames_out ni @ map (ip_frame ni eth) (waiting ni ip)\<rparr>"
    using assms(2) unfolding learn_eq [OF assms(1)] by simp
  show ?thesis unfolding ni'
    by (rule ni_invI) (auto split: if_splits dest: ni_invD [OF assms(1)])
qed

lemma send_inv:
  assumes "ni_inv ni" and "ip_fits d" and "NetworkInterface_send_datagram ni d ip = Some ni'"
  shows "ni_inv ni'"
proof (cases "ni_arp_cache ni ip")
  case (Some e)
  then have "ni' = ni\<lparr>ni_frames_out := ni_frames_out ni @ [ip_frame ni (ce_ethernet_address e) d]\<rparr>"
    using assms(3) unfolding send_cases [OF assms(1,2)] by simp
  then show ?thesis using assms(1) by (simp add: ni_inv_frames)
next
  case None
  have "pending_ok p'" if "ni_pending ni' k = Some p'" for k p'
    using that assms(2,3) ni_invD(3) [OF assms(1), of k] ni_invD(3) [OF assms(1), of ip] None
    unfolding send_cases [OF assms(1,2)]
    by (auto simp: pending_ok_def split: if_splits option.splits)
  moreover have "ni_arp_cache ni' = ni_arp_cache ni" "k \<noteq> ip \<Longrightarrow> ni_pending ni' k = ni_pending ni k" for k
    using assms(3) None unfolding send_cases [OF assms(1,2)] by (auto split: option.splits)
  ultimately show ?thesis using None ni_invD(1,2) [OF assms(1)]
    by (intro ni_invI) (metis option.distinct(1))+
qed

lemma tick_inv:
  assumes "ni_inv ni"
  shows "ni_inv (NetworkInterface_tick ni ms)"
proof (rule ni_invI)
  fix ip e
  assume "ni_arp_cache (NetworkInterface_tick ni ms) ip = Some e"
  then show "ce_age_ms e < ARP_CACHE_TTL_MS \<and> ni_pending (NetworkInterface_tick ni ms) ip = None"
    using ni_invD(2) [OF assms, of ip] by (auto simp: NetworkInterface_tick_def Let_def split: option.splits if_splits)
next
  fix ip p
  assume "ni_pending (NetworkInterface_tick ni ms) ip = Some p"
  then show "pending_ok p" using ni_invD(3) [OF assms, of ip]
    by (auto simp: NetworkInterface_tick_def Let_def PendingResolution_tick_def PendingResolution_is_expired_def
        pending_ok_def split: option.splits if_splits)
qed

lemma recv_total:
  assumes "ni_inv ni" and "layout_ok view"
  shows "\<exists>ni'. NetworkInterface_recv_frame view ni f = Some ni' \<and> ni_inv ni' \<and>
    ni_ethernet_address ni' = ni_ethernet_address ni \<and> ni_ip_address ni' = ni_ip_address ni"
proof -
  obtain r where r: "Ipv4Datagram_parse_bytes view (ef_payload f) = Some r"
    using ip_parse_total [OF assms(2)] by blast
  obtain a where a: "ArpMessage_parse_bytes (ef_payload f) = Some a" by (simp add: ArpMessage_parse_bytes_def)
  have learn: "\<exists>ni'. NetworkInterface_learn_arp_mapping ni ip eth = Some ni' \<and> ni_inv ni' \<and>
      ni_ethernet_address ni' = ni_ethernet_address ni \<and> ni_ip_address ni' = ni_ip_address ni" for ip eth
    using learn_eq [OF assms(1), of ip eth] learn_inv [OF assms(1)] by auto
  consider "\<not> EthernetFrame_is_for f (ni_ethernet_address ni)"
    | "EthernetFrame_is_for f (ni_ethernet_address ni)" "eh_ethertype (ef_header f) = ETHERTYPE_IPV4"
    | "EthernetFrame_is_for f (ni_ethernet_address ni)" "eh_ethertype (ef_header f) \<noteq> ETHERTYPE_IPV4"
    by blast
  then show ?thesis
  proof cases
    case 1
    then show ?thesis using assms(1) by (simp add: NetworkInterface_recv_frame_def)
  next
    case 2
    then show ?thesis using assms(1) r by (cases r) (simp_all add: NetworkInterface_recv_frame_def ni_inv_datagrams)
  next
    case 3
    show ?thesis
    proof (cases a)
      case (Inl e)
      then show ?thesis using 3 a assms(1) by (simp add: NetworkInterface_recv_frame_def)
    next
      case (Inr m)
      obtain ni1 where "NetworkInterface_learn_arp_mapping ni (am_sender_ip_address m) (am_sender_ethernet_address m) = Some ni1"
        "ni_inv ni1" "ni_ethernet_address ni1 = ni_ethernet_address ni" "ni_ip_address ni1 = ni_ip_address ni"
        using learn by blast
      then show ?thesis using 3 a Inr assms(1)
        by (simp add: NetworkInterface_recv_frame_def emit_arp_reply_eq ni_inv_frames)
    qed
  qed
qed

text \<open>The datagrams an interface hands upwards fit an IPv4 packet, and sending does not touch them.\<close>

lemma recv_fits:
  assumes "ni_inv ni" and "NetworkInterface_recv_frame view ni f = Some ni'"
    and "\<forall>d \<in> set (ni_datagrams_in ni). ip_fits d"
  shows "\<forall>d \<in> set (ni_datagrams_in ni'). ip_fits d"
proof (cases "eh_ethertype (ef_header f) = ETHERTYPE_IPV4")
  case True
  then show ?thesis using assms(2,3) ip_parse_fits [of view "ef_payload f"]
    by (cases "Ipv4Datagram_parse_bytes view (ef_payload f)")
      (auto simp: NetworkInterface_recv_frame_def split: if_splits sum.splits)
next
  case False
  have "ni_datagrams_in ni' = ni_datagrams_in ni"
    using False assms(2)
    by (simp add: NetworkInterface_recv_frame_def ArpMessage_parse_bytes_def learn_eq [OF assms(1)] emit_arp_reply_eq
        split: if_splits sum.splits) auto
  then show ?thesis using assms(3) by simp
qed

lemma send_keeps_in:
  "ni_inv ni \<Longrightarrow> ip_fits d \<Longrightarrow> NetworkInterface_send_datagram ni d ip = Some ni' \<Longrightarrow> ni_datagrams_in ni' = ni_datagrams_in ni"
  using send_cases by (auto split: option.splits)

lemma send_ignores_in:
  "ni_inv ni \<Longrightarrow> ip_fits d \<Longrightarrow> NetworkInterface_send_datagram (ni\<lparr>ni_datagrams_in := x\<rparr>) d ip =
     map_option (\<lambda>ni'. ni'\<lparr>ni_datagrams_in := x\<rparr>) (NetworkInterface_send_datagram ni d ip)"
  by (auto simp: send_cases ni_inv_datagrams ip_frame_def arp_frame_def split: option.splits)

section \<open>Executions\<close>

text \<open>
  The calls of an interface in any order, with a clock and a log of the ARP requests it has sent.
\<close>

datatype ni_op = NSend Ipv4Datagram Ipv4AddrBytes | NRecv EthernetFrame | NTick nat | NPopFrame | NPopDatagram

definition is_request_for :: "NetworkInterface \<Rightarrow> Ipv4AddrBytes \<Rightarrow> EthernetFrame \<Rightarrow> bool" where
  "is_request_for ni ip f \<longleftrightarrow> f = arp_frame ni EthernetAddress_BROADCAST
     (ArpMessage_request (ni_ethernet_address ni) (ni_ip_address ni) ip)"

fun ni_step :: "(bytes \<Rightarrow> Ipv4FixedHeader option) \<Rightarrow>
    NetworkInterface \<times> nat \<times> (nat \<times> Ipv4AddrBytes) list \<Rightarrow> ni_op \<Rightarrow>
    (NetworkInterface \<times> nat \<times> (nat \<times> Ipv4AddrBytes) list) run" where
  "ni_step view (ni, now, log) (NSend d ip) = do {
     ni' \<leftarrow> NetworkInterface_send_datagram ni d ip;
     Some (ni', now, if ni_frames_out ni' \<noteq> ni_frames_out ni \<and> is_request_for ni ip (last (ni_frames_out ni'))
                     then log @ [(now, ip)] else log) }"
| "ni_step view (ni, now, log) (NRecv f) = do {
     ni' \<leftarrow> NetworkInterface_recv_frame view ni f; Some (ni', now, log) }"
| "ni_step view (ni, now, log) (NTick ms) = Some (NetworkInterface_tick ni ms, now + ms, log)"
| "ni_step view (ni, now, log) NPopFrame = Some (fst (NetworkInterface_pop_frame ni), now, log)"
| "ni_step view (ni, now, log) NPopDatagram = Some (fst (NetworkInterface_pop_datagram ni), now, log)"

text \<open>Every request of the last 5 seconds is still waited for, or has been answered.\<close>

definition fresh :: "NetworkInterface \<Rightarrow> nat \<Rightarrow> Ipv4AddrBytes \<Rightarrow> bool" where
  "fresh ni n ip \<longleftrightarrow> (\<exists>e. ni_arp_cache ni ip = Some e \<and> ce_age_ms e \<le> n) \<or>
     (\<exists>p. ni_pending ni ip = Some p \<and> pr_age_ms p \<le> n)"

definition spaced :: "(nat \<times> Ipv4AddrBytes) list \<Rightarrow> bool" where
  "spaced log \<longleftrightarrow> (\<forall>i j. i < j \<longrightarrow> j < length log \<longrightarrow> snd (log ! i) = snd (log ! j) \<longrightarrow>
     fst (log ! i) + ARP_REQUEST_COOLDOWN_MS \<le> fst (log ! j))"

definition ni_run_inv :: "NetworkInterface \<times> nat \<times> (nat \<times> Ipv4AddrBytes) list \<Rightarrow> bool" where
  "ni_run_inv = (\<lambda>(ni, now, log). ni_inv ni \<and> spaced log \<and>
     (\<forall>r \<in> set log. fst r \<le> now \<and> (now < fst r + ARP_REQUEST_COOLDOWN_MS \<longrightarrow> fresh ni (now - fst r) (snd r))))"

fun ni_pre :: "NetworkInterface \<times> nat \<times> (nat \<times> Ipv4AddrBytes) list \<Rightarrow> ni_op \<Rightarrow> bool" where
  "ni_pre t (NSend d ip) = ip_fits d"
| "ni_pre t _ = True"

lemma spaced_snoc:
  assumes "spaced log" and "\<And>r. r \<in> set log \<Longrightarrow> snd r = ip \<Longrightarrow> fst r + ARP_REQUEST_COOLDOWN_MS \<le> now"
  shows "spaced (log @ [(now, ip)])"
  using assms unfolding spaced_def by (auto simp: nth_append less_Suc_eq)

lemma fresh_tick:
  assumes "ni_inv ni" and "fresh ni n ip" and "n + ms < 5000"
  shows "fresh (NetworkInterface_tick ni ms) (n + ms) ip"
  using assms(2) unfolding fresh_def
proof
  assume "\<exists>e. ni_arp_cache ni ip = Some e \<and> ce_age_ms e \<le> n"
  then show "(\<exists>e. ni_arp_cache (NetworkInterface_tick ni ms) ip = Some e \<and> ce_age_ms e \<le> n + ms) \<or>
      (\<exists>p. ni_pending (NetworkInterface_tick ni ms) ip = Some p \<and> pr_age_ms p \<le> n + ms)"
    using assms(3) by (auto simp: NetworkInterface_tick_def saturating_add_def)
next
  assume "\<exists>p. ni_pending ni ip = Some p \<and> pr_age_ms p \<le> n"
  then show "(\<exists>e. ni_arp_cache (NetworkInterface_tick ni ms) ip = Some e \<and> ce_age_ms e \<le> n + ms) \<or>
      (\<exists>p. ni_pending (NetworkInterface_tick ni ms) ip = Some p \<and> pr_age_ms p \<le> n + ms)"
    using assms(3) by (auto simp: NetworkInterface_tick_def PendingResolution_tick_def
        PendingResolution_is_expired_def saturating_add_def)
qed

lemma fresh_learn:
  assumes "ni_inv ni" and "NetworkInterface_learn_arp_mapping ni ip0 eth = Some ni'" and "fresh ni n ip"
  shows "fresh ni' n ip"
  using assms(2,3) unfolding learn_eq [OF assms(1)] fresh_def by auto

lemma fresh_queues [simp]:
  "fresh (ni\<lparr>ni_frames_out := x\<rparr>) n ip = fresh ni n ip" "fresh (ni\<lparr>ni_datagrams_in := y\<rparr>) n ip = fresh ni n ip"
  by (simp_all add: fresh_def)

lemma fresh_recv:
  assumes "ni_inv ni" and "NetworkInterface_recv_frame view ni f = Some ni'" and "fresh ni n ip"
  shows "fresh ni' n ip"
proof (cases "\<exists>m. EthernetFrame_is_for f (ni_ethernet_address ni) \<and> eh_ethertype (ef_header f) = ETHERTYPE_ARP \<and>
    ArpMessage_parse_bytes (ef_payload f) = Some (Inr m)")
  case True
  then obtain m where m: "EthernetFrame_is_for f (ni_ethernet_address ni)"
    "eh_ethertype (ef_header f) = ETHERTYPE_ARP" "ArpMessage_parse_bytes (ef_payload f) = Some (Inr m)" by blast
  obtain ni1 where ni1: "NetworkInterface_learn_arp_mapping ni (am_sender_ip_address m) (am_sender_ethernet_address m) = Some ni1"
    using learn_eq [OF assms(1)] by blast
  have "ETHERTYPE_ARP \<noteq> ETHERTYPE_IPV4" by (simp add: ETHERTYPE_IPV4_def ETHERTYPE_ARP_def)
  then show ?thesis using assms(2) m ni1 fresh_learn [OF assms(1) ni1 assms(3)]
    by (auto simp: NetworkInterface_recv_frame_def emit_arp_reply_eq split: if_splits)
next
  case False
  obtain a where a: "ArpMessage_parse_bytes (ef_payload f) = Some a" by (simp add: ArpMessage_parse_bytes_def)
  show ?thesis
  proof (cases "eh_ethertype (ef_header f) = ETHERTYPE_IPV4")
    case True
    then show ?thesis using assms(2,3)
      by (cases "Ipv4Datagram_parse_bytes view (ef_payload f)")
        (auto simp: NetworkInterface_recv_frame_def split: if_splits sum.splits)
  next
    case False
    then show ?thesis using \<open>\<nexists>m. _ m\<close> a assms(2,3)
      by (cases a) (simp_all add: NetworkInterface_recv_frame_def split: if_splits)
  qed
qed

lemma send_request:
  assumes "ni_inv ni" and "ip_fits d" and "NetworkInterface_send_datagram ni d ip = Some ni'"
  shows "ni_frames_out ni' \<noteq> ni_frames_out ni \<and> is_request_for ni ip (last (ni_frames_out ni')) \<longleftrightarrow>
      ni_arp_cache ni ip = None \<and> ni_pending ni ip = None"
    and "fresh ni n k \<Longrightarrow> fresh ni' n k"
    and "ni_arp_cache ni ip = None \<Longrightarrow> ni_pending ni ip = None \<Longrightarrow> fresh ni' n ip"
proof -
  have diff: "ip_frame ni eth d \<noteq> arp_frame ni eth' m" for eth eth' m
    by (simp add: ip_frame_def arp_frame_def EthernetFrame_ipv4_def EthernetFrame_arp_def EthernetFrame_new_def
        ETHERTYPE_IPV4_def ETHERTYPE_ARP_def)
  have req: "is_request_for ni ip (arp_frame ni EthernetAddress_BROADCAST
      (ArpMessage_request (ni_ethernet_address ni) (ni_ip_address ni) ip))"
    "\<not> is_request_for ni ip (ip_frame ni eth d)" for eth
    using diff by (simp_all add: is_request_for_def)
  show "ni_frames_out ni' \<noteq> ni_frames_out ni \<and> is_request_for ni ip (last (ni_frames_out ni')) \<longleftrightarrow>
      ni_arp_cache ni ip = None \<and> ni_pending ni ip = None"
    using assms(3) unfolding send_cases [OF assms(1,2)]
    by (cases "ni_arp_cache ni ip"; cases "ni_pending ni ip") (auto simp: req)
  show "fresh ni n k \<Longrightarrow> fresh ni' n k"
    using assms(3) unfolding send_cases [OF assms(1,2)] fresh_def
    by (cases "ni_arp_cache ni ip"; cases "ni_pending ni ip"; cases "k = ip") auto
  show "ni_arp_cache ni ip = None \<Longrightarrow> ni_pending ni ip = None \<Longrightarrow> fresh ni' n ip"
    using assms(3) unfolding send_cases [OF assms(1,2)] fresh_def by auto
qed

lemma pops_keep:
  "ni_inv ni \<Longrightarrow> ni_inv (fst (NetworkInterface_pop_frame ni))" "ni_inv ni \<Longrightarrow> ni_inv (fst (NetworkInterface_pop_datagram ni))"
  "fresh (fst (NetworkInterface_pop_frame ni)) = fresh ni" "fresh (fst (NetworkInterface_pop_datagram ni)) = fresh ni"
  by (auto simp: NetworkInterface_pop_frame_def NetworkInterface_pop_datagram_def ni_inv_frames ni_inv_datagrams
      fresh_def fun_eq_iff split: list.splits)

lemma ni_step_safe:
  assumes "layout_ok view" and "ni_run_inv t" and "ni_pre t x"
  shows "\<exists>t'. ni_step view t x = Some t' \<and> ni_run_inv t'"
proof -
  obtain ni now log where t: "t = (ni, now, log)" by (cases t)
  have inv: "ni_inv ni" "spaced log" and reqs: "\<And>r. r \<in> set log \<Longrightarrow> fst r \<le> now"
    "\<And>r. r \<in> set log \<Longrightarrow> now < fst r + 5000 \<Longrightarrow> fresh ni (now - fst r) (snd r)"
    using assms(2) t unfolding ni_run_inv_def by auto
  show ?thesis
  proof (cases x)
    case (NSend d ip)
    then have fits: "ip_fits d" using assms(3) by simp
    obtain ni' where ni': "NetworkInterface_send_datagram ni d ip = Some ni'"
      using send_cases [OF inv(1) fits] by blast
    note req = send_request [OF inv(1) fits ni']
    have "spaced (log @ [(now, ip)])" if "ni_arp_cache ni ip = None" "ni_pending ni ip = None"
      using that inv(2) reqs(2) by (intro spaced_snoc) (force simp: fresh_def not_less [symmetric])+
    then show ?thesis using t NSend ni' req reqs inv send_inv [OF inv(1) fits ni']
      unfolding ni_run_inv_def by auto
  next
    case (NRecv f)
    obtain ni' where "NetworkInterface_recv_frame view ni f = Some ni'" "ni_inv ni'"
      using recv_total [OF inv(1) assms(1)] by blast
    then show ?thesis using t NRecv reqs inv(2) fresh_recv [OF inv(1)] unfolding ni_run_inv_def by auto
  next
    case (NTick ms)
    have "fresh (NetworkInterface_tick ni ms) (now + ms - fst r) (snd r)"
      if "r \<in> set log" "now + ms < fst r + 5000" for r
      using that reqs [OF that(1)] fresh_tick [OF inv(1), of "now - fst r" "snd r" ms] by simp
    moreover have "fst r \<le> now + ms" if "r \<in> set log" for r using reqs(1) [OF that] by simp
    ultimately show ?thesis using t NTick inv tick_inv unfolding ni_run_inv_def by simp
  next
    case NPopFrame
    then show ?thesis using t reqs inv pops_keep by (auto simp: ni_run_inv_def)
  next
    case NPopDatagram
    then show ?thesis using t reqs inv pops_keep by (auto simp: ni_run_inv_def)
  qed
qed

interpretation ni: safe_machine "ni_step repr_c" ni_run_inv ni_pre
  by unfold_locales (use ni_step_safe [OF layout_ok_repr_c] in fastforce)+

lemma ni_safe_machine: "layout_ok view \<Longrightarrow> safe_machine (ni_step view) ni_run_inv ni_pre"
  by unfold_locales (use ni_step_safe in fastforce)+

lemma ni_run_inv_new: "ni_run_inv (NetworkInterface_new eth ip, 0, [])"
  by (simp add: ni_run_inv_def spaced_def NetworkInterface_new_def ni_inv_def)

text \<open>What an ARP message addressed to the interface does.\<close>

lemma recv_arp_eq:
  assumes "ni_inv ni" and "EthernetFrame_is_for f (ni_ethernet_address ni)"
    and "eh_ethertype (ef_header f) = ETHERTYPE_ARP" and "ArpMessage_parse_bytes (ef_payload f) = Some (Inr m)"
  shows "NetworkInterface_recv_frame view ni f = Some (ni\<lparr>
      ni_arp_cache := (ni_arp_cache ni)(am_sender_ip_address m \<mapsto>
        \<lparr>ce_ethernet_address = am_sender_ethernet_address m, ce_age_ms = 0\<rparr>),
      ni_pending := (ni_pending ni)(am_sender_ip_address m := None),
      ni_frames_out := ni_frames_out ni @
        map (ip_frame ni (am_sender_ethernet_address m)) (waiting ni (am_sender_ip_address m)) @
        (if am_operation m = Request \<and> am_target_ip_address m = ni_ip_address ni
         then [arp_frame ni (am_sender_ethernet_address m) (ArpMessage_reply (ni_ethernet_address ni)
                 (ni_ip_address ni) (am_sender_ethernet_address m) (am_sender_ip_address m))] else [])\<rparr>)"
proof -
  have "ETHERTYPE_ARP \<noteq> ETHERTYPE_IPV4" by (simp add: ETHERTYPE_IPV4_def ETHERTYPE_ARP_def)
  then show ?thesis using assms(2-4)
    by (simp add: NetworkInterface_recv_frame_def learn_eq [OF assms(1)] emit_arp_reply_eq arp_frame_def)
qed

lemma recv_ip_eq:
  assumes "EthernetFrame_is_for f (ni_ethernet_address ni)" and "eh_ethertype (ef_header f) = ETHERTYPE_IPV4"
    and "Ipv4Datagram_parse_bytes view (ef_payload f) = Some (Inr d)"
  shows "NetworkInterface_recv_frame view ni f = Some (ni\<lparr>ni_datagrams_in := ni_datagrams_in ni @ [d]\<rparr>)"
  using assms by (simp add: NetworkInterface_recv_frame_def)

lemma arp_frame_fields:
  "ef_header (arp_frame ni dst m) = \<lparr>eh_dst = dst, eh_src = ni_ethernet_address ni, eh_ethertype = ETHERTYPE_ARP\<rparr>"
  "ArpMessage_parse_bytes (ef_payload (arp_frame ni dst m)) = Some (Inr m)"
proof -
  obtain bs where "ArpMessage_serialize m = Some bs" using arp_serialize_total by blast
  then show "ArpMessage_parse_bytes (ef_payload (arp_frame ni dst m)) = Some (Inr m)"
    using arp_wire.decodes by (simp add: arp_frame_def EthernetFrame_arp_def EthernetFrame_new_def)
qed (simp add: arp_frame_def EthernetFrame_arp_def EthernetFrame_new_def)

lemma ip_frame_fields:
  "ef_header (ip_frame ni dst d) = \<lparr>eh_dst = dst, eh_src = ni_ethernet_address ni, eh_ethertype = ETHERTYPE_IPV4\<rparr>"
  "layout_ok view \<Longrightarrow> ip_fits d \<Longrightarrow> Ipv4Datagram_parse_bytes view (ef_payload (ip_frame ni dst d)) = Some (Inr d)"
proof -
  assume "layout_ok view" "ip_fits d"
  then show "Ipv4Datagram_parse_bytes view (ef_payload (ip_frame ni dst d)) = Some (Inr d)"
    using ip_serialize_eq ip_parse_serialized by (simp add: ip_frame_def EthernetFrame_ipv4_def EthernetFrame_new_def)
qed (simp add: ip_frame_def EthernetFrame_ipv4_def EthernetFrame_new_def)

lemma recv_ip_frame:
  assumes "layout_ok view" and "ip_fits d"
  shows "NetworkInterface_recv_frame view ni (ip_frame ni' (ni_ethernet_address ni) d) =
    Some (ni\<lparr>ni_datagrams_in := ni_datagrams_in ni @ [d]\<rparr>)"
  using assms by (intro recv_ip_eq) (simp_all add: ip_frame_fields EthernetFrame_is_for_def)

section \<open>Properties\<close>

text \<open>
  C24. Whatever datagrams it is given to send (of at most 65535 bytes), whatever frames arrive and
  however time passes, an interface does not panic, it keeps its invariant, and two ARP requests for
  the same next hop are at least 5 seconds apart.
\<close>

theorem interface_safe_and_quiet:
  assumes "layout_ok ref_from_bytes" and "\<forall>d ip. NSend d ip \<in> set ops \<longrightarrow> ip_fits d"
  shows "\<exists>ni now log. run_all (ni_step ref_from_bytes) (NetworkInterface_new eth ip, 0, []) ops = Some (ni, now, log) \<and>
    ni_inv ni \<and>
    (\<forall>i j. i < j \<longrightarrow> j < length log \<longrightarrow> snd (log ! i) = snd (log ! j) \<longrightarrow> fst (log ! i) + 5000 \<le> fst (log ! j))"
proof -
  have "ni_pre t x" if "x \<in> set ops" for t x
  proof (cases x rule: ni_op.exhaust)
    case (NSend d k)
    then have "ip_fits d" using that assms(2) by blast
    then show ?thesis using NSend by simp
  qed simp_all
  from safe_machine.run_safe_each [OF ni_safe_machine [OF assms(1)], of ops, OF this ni_run_inv_new [of eth ip]]
  show ?thesis unfolding ni_run_inv_def spaced_def by auto
qed

definition example_ops :: "ni_op list" where
  "example_ops = [NSend example_datagram (10, 0, 0, 2), NTick 4999, NSend example_datagram (10, 0, 0, 2),
     NTick 1, NSend example_datagram (10, 0, 0, 2), NRecv example_frame]"

theorem interface_safe_and_quiet_witness:
  "\<exists>ni now log. run_all (ni_step repr_c) (NetworkInterface_new (2, 0, 0, 0, 0, 1) (10, 0, 0, 1), 0, []) example_ops =
     Some (ni, now, log) \<and> ni_inv ni"
proof -
  have "\<forall>d ip. NSend d ip \<in> set example_ops \<longrightarrow> ip_fits d"
    by (auto simp: example_ops_def ip_fits_def example_datagram_def Ipv4Datagram_new_tcp_def Ipv4Datagram_new_def)
  from interface_safe_and_quiet [OF layout_ok_repr_c this] show ?thesis by blast
qed

text \<open>
  C22. An ARP message that reaches the interface, request or reply, is learnt: the sender's address is
  cached, the datagrams that waited for it leave at once, in the order in which they were queued,
  addressed to the sender, and nothing waits for it any more. After them comes the reply, exactly if the
  message is a request for this interface's address. No other address is affected.
\<close>

theorem arp_message_releases_waiting:
  assumes "ni_inv ni" and "EthernetFrame_is_for f (ni_ethernet_address ni)"
    and "eh_ethertype (ef_header f) = ETHERTYPE_ARP" and "ArpMessage_parse_bytes (ef_payload f) = Some (Inr m)"
  shows "\<exists>ni'. NetworkInterface_recv_frame ref_from_bytes ni f = Some ni' \<and> ni_inv ni' \<and>
    NetworkInterface_lookup_ethernet_address ni' (am_sender_ip_address m) = Some (am_sender_ethernet_address m) \<and>
    ni_pending ni' (am_sender_ip_address m) = None \<and>
    ni_frames_out ni' = ni_frames_out ni @
      map (ip_frame ni (am_sender_ethernet_address m)) (waiting ni (am_sender_ip_address m)) @
      (if ArpMessage_is_request m \<and> am_target_ip_address m = ni_ip_address ni
       then [arp_frame ni (am_sender_ethernet_address m) (ArpMessage_reply (ni_ethernet_address ni)
               (ni_ip_address ni) (am_sender_ethernet_address m) (am_sender_ip_address m))] else []) \<and>
    (\<forall>k. k \<noteq> am_sender_ip_address m \<longrightarrow>
       ni_arp_cache ni' k = ni_arp_cache ni k \<and> ni_pending ni' k = ni_pending ni k) \<and>
    ni_datagrams_in ni' = ni_datagrams_in ni"
proof -
  obtain ni1 where ni1: "NetworkInterface_learn_arp_mapping ni (am_sender_ip_address m) (am_sender_ethernet_address m) = Some ni1"
    using learn_eq [OF assms(1)] by blast
  have "ni_inv (ni1\<lparr>ni_frames_out := x\<rparr>)" for x using learn_inv [OF assms(1) ni1] by (simp add: ni_inv_frames)
  then show ?thesis using ni1
    unfolding recv_arp_eq [OF assms] learn_eq [OF assms(1)] ArpMessage_is_request_def
    by (auto simp: NetworkInterface_lookup_ethernet_address_def)
qed

definition example_interface :: NetworkInterface where
  "example_interface = the (NetworkInterface_send_datagram
     (NetworkInterface_new (2, 0, 0, 0, 0, 1) (10, 0, 0, 1)) example_datagram (10, 0, 0, 2))"

definition example_reply :: EthernetFrame where
  "example_reply = EthernetFrame_arp (2, 0, 0, 0, 0, 1) (2, 0, 0, 0, 0, 2)
     (the (ArpMessage_serialize (ArpMessage_reply (2, 0, 0, 0, 0, 2) (10, 0, 0, 2) (2, 0, 0, 0, 0, 1) (10, 0, 0, 1))))"

lemma example_fits: "ip_fits example_datagram"
  by (simp add: ip_fits_def example_datagram_def Ipv4Datagram_new_tcp_def Ipv4Datagram_new_def)

lemma new_fields:
  "ni_ip_address (NetworkInterface_new eth ip) = ip" "ni_ethernet_address (NetworkInterface_new eth ip) = eth"
  "ni_arp_cache (NetworkInterface_new eth ip) = Map.empty" "ni_pending (NetworkInterface_new eth ip) = Map.empty"
  "ni_frames_out (NetworkInterface_new eth ip) = []" "ni_datagrams_in (NetworkInterface_new eth ip) = []"
  by (simp_all add: NetworkInterface_new_def)

lemma ni_inv_new: "ni_inv (NetworkInterface_new eth ip)"
  by (simp add: ni_inv_def NetworkInterface_new_def)

lemma example_interface_eq:
  "NetworkInterface_send_datagram (NetworkInterface_new (2, 0, 0, 0, 0, 1) (10, 0, 0, 1)) example_datagram (10, 0, 0, 2) =
     Some example_interface" "ni_inv example_interface" "ni_ethernet_address example_interface = (2, 0, 0, 0, 0, 1)"
  "waiting example_interface (10, 0, 0, 2) = [example_datagram]"
proof -
  note sc = send_cases [OF ni_inv_new example_fits, of "(2, 0, 0, 0, 0, 1)" "(10, 0, 0, 1)" "(10, 0, 0, 2)"]
  show eq: "NetworkInterface_send_datagram (NetworkInterface_new (2, 0, 0, 0, 0, 1) (10, 0, 0, 1)) example_datagram (10, 0, 0, 2) =
     Some example_interface"
    unfolding example_interface_def sc by simp
  show "ni_inv example_interface" by (rule send_inv [OF ni_inv_new example_fits eq])
  show "ni_ethernet_address example_interface = (2, 0, 0, 0, 0, 1)" "waiting example_interface (10, 0, 0, 2) = [example_datagram]"
    unfolding example_interface_def sc by (simp_all add: NetworkInterface_new_def waiting_def)
qed

theorem arp_message_releases_waiting_witness:
  "\<exists>ni'. NetworkInterface_recv_frame repr_c example_interface example_reply = Some ni' \<and>
    ni_frames_out ni' = ni_frames_out example_interface @ [ip_frame example_interface (2, 0, 0, 0, 0, 2) example_datagram]"
proof -
  let ?m = "ArpMessage_reply (2, 0, 0, 0, 0, 2) (10, 0, 0, 2) (2, 0, 0, 0, 0, 1) (10, 0, 0, 1)"
  obtain bs where bs: "ArpMessage_serialize ?m = Some bs" using arp_serialize_total by blast
  have "EthernetFrame_is_for example_reply (ni_ethernet_address example_interface)"
    "eh_ethertype (ef_header example_reply) = ETHERTYPE_ARP"
    "ArpMessage_parse_bytes (ef_payload example_reply) = Some (Inr ?m)"
    using example_interface_eq arp_wire.decodes [OF _ bs]
    by (simp_all add: example_reply_def EthernetFrame_is_for_def EthernetFrame_arp_def EthernetFrame_new_def bs)
  from arp_message_releases_waiting [OF example_interface_eq(2) this, of repr_c]
  show ?thesis using example_interface_eq(4) by (auto simp: ArpMessage_reply_def ArpMessage_is_request_def)
qed

text \<open>
  C19. Address resolution works end to end: when an interface has to send a datagram to the address of
  another interface on the link that it does not know, the request it broadcasts, the reply of the other
  one and the data frame that follows bring the datagram to the other interface, and both have learnt
  each other's address.
\<close>

theorem address_resolution_delivers:
  assumes "layout_ok ref_from_bytes" and "ni_inv a" and "ni_inv b" and "ip_fits d"
    and "ni_arp_cache a (ni_ip_address b) = None" and "ni_pending a (ni_ip_address b) = None"
    and "ni_pending b (ni_ip_address a) = None"
  shows "\<exists>a1 b1 a2 b2 request reply data.
    NetworkInterface_send_datagram a d (ni_ip_address b) = Some a1 \<and> ni_frames_out a1 = ni_frames_out a @ [request] \<and>
    NetworkInterface_recv_frame ref_from_bytes b request = Some b1 \<and> ni_frames_out b1 = ni_frames_out b @ [reply] \<and>
    NetworkInterface_recv_frame ref_from_bytes a1 reply = Some a2 \<and> ni_frames_out a2 = ni_frames_out a1 @ [data] \<and>
    NetworkInterface_recv_frame ref_from_bytes b1 data = Some b2 \<and> ni_datagrams_in b2 = ni_datagrams_in b @ [d] \<and>
    NetworkInterface_lookup_ethernet_address a2 (ni_ip_address b) = Some (ni_ethernet_address b) \<and>
    NetworkInterface_lookup_ethernet_address b2 (ni_ip_address a) = Some (ni_ethernet_address a)"
proof -
  let ?req = "ArpMessage_request (ni_ethernet_address a) (ni_ip_address a) (ni_ip_address b)"
  let ?rep = "ArpMessage_reply (ni_ethernet_address b) (ni_ip_address b) (ni_ethernet_address a) (ni_ip_address a)"
  let ?request = "arp_frame a EthernetAddress_BROADCAST ?req"
  let ?reply = "arp_frame b (ni_ethernet_address a) ?rep"
  obtain a1 where a1: "NetworkInterface_send_datagram a d (ni_ip_address b) = Some a1"
    using send_cases [OF assms(2,4)] by blast
  have inv1: "ni_inv a1" by (rule send_inv [OF assms(2,4) a1])
  have a1': "ni_frames_out a1 = ni_frames_out a @ [?request]" "waiting a1 (ni_ip_address b) = [d]"
    "ni_ethernet_address a1 = ni_ethernet_address a"
    using a1 assms(5,6) unfolding send_cases [OF assms(2,4)] by (auto simp: waiting_def)
  obtain b1 where b1: "NetworkInterface_recv_frame ref_from_bytes b ?request = Some b1"
    "ni_frames_out b1 = ni_frames_out b @ [?reply]"
    "ni_ethernet_address b1 = ni_ethernet_address b" "ni_datagrams_in b1 = ni_datagrams_in b"
    "NetworkInterface_lookup_ethernet_address b1 (ni_ip_address a) = Some (ni_ethernet_address a)"
    using recv_arp_eq [OF assms(3), of ?request ?req ref_from_bytes] assms(7)
    by (simp add: arp_frame_fields EthernetFrame_is_for_def EthernetAddress_is_broadcast_def ArpMessage_request_def
        waiting_def NetworkInterface_lookup_ethernet_address_def)
  obtain a2 where a2: "NetworkInterface_recv_frame ref_from_bytes a1 ?reply = Some a2"
    "ni_frames_out a2 = ni_frames_out a1 @ [ip_frame a1 (ni_ethernet_address b) d]"
    "NetworkInterface_lookup_ethernet_address a2 (ni_ip_address b) = Some (ni_ethernet_address b)"
    using recv_arp_eq [OF inv1, of ?reply ?rep ref_from_bytes] a1'
    by (simp add: arp_frame_fields EthernetFrame_is_for_def ArpMessage_reply_def NetworkInterface_lookup_ethernet_address_def)
  obtain b2 where b2: "NetworkInterface_recv_frame ref_from_bytes b1 (ip_frame a1 (ni_ethernet_address b) d) = Some b2"
    "ni_datagrams_in b2 = ni_datagrams_in b @ [d]"
    "NetworkInterface_lookup_ethernet_address b2 (ni_ip_address a) = Some (ni_ethernet_address a)"
    using recv_ip_frame [OF assms(1,4), of b1 a1] b1(3-5) by (simp add: NetworkInterface_lookup_ethernet_address_def)
  show ?thesis by (intro exI conjI) (fact a1 a1'(1) b1(1,2) a2 b2)+
qed

definition example_peer :: NetworkInterface where
  "example_peer = NetworkInterface_new (2, 0, 0, 0, 0, 2) (10, 0, 0, 2)"

theorem address_resolution_delivers_witness:
  "\<exists>a1 b1 a2 b2 request reply data.
    NetworkInterface_send_datagram (NetworkInterface_new (2, 0, 0, 0, 0, 1) (10, 0, 0, 1)) example_datagram (10, 0, 0, 2) = Some a1 \<and>
    ni_frames_out a1 = [request] \<and>
    NetworkInterface_recv_frame repr_c example_peer request = Some b1 \<and> ni_frames_out b1 = [reply] \<and>
    NetworkInterface_recv_frame repr_c a1 reply = Some a2 \<and> ni_frames_out a2 = [request, data] \<and>
    NetworkInterface_recv_frame repr_c b1 data = Some b2 \<and> ni_datagrams_in b2 = [example_datagram]"
  using address_resolution_delivers [OF layout_ok_repr_c ni_inv_new ni_inv_new example_fits,
      of "(2, 0, 0, 0, 0, 1)" "(10, 0, 0, 1)" "(2, 0, 0, 0, 0, 2)" "(10, 0, 0, 2)",
      unfolded new_fields append_Nil append_Cons, OF refl refl refl]
  unfolding example_peer_def by (elim ex_forward conjE) simp

lemma tick_cache:
  "ni_arp_cache (NetworkInterface_tick ni ms) ip = (case ni_arp_cache ni ip of None \<Rightarrow> None
     | Some e \<Rightarrow> if ce_age_ms e + ms < 30000 then Some (e\<lparr>ce_age_ms := ce_age_ms e + ms\<rparr>) else None)"
  by (auto simp: NetworkInterface_tick_def saturating_add_def Let_def split: option.splits)

lemma tick_pending:
  assumes "ni_inv ni"
  shows "ni_pending (NetworkInterface_tick ni ms) ip = (case ni_pending ni ip of None \<Rightarrow> None
     | Some p \<Rightarrow> if pr_age_ms p + ms < 5000
         then Some (p\<lparr>pr_age_ms := pr_age_ms p + ms, pr_request_age_ms := pr_request_age_ms p + ms\<rparr>) else None)"
  using ni_invD(3) [OF assms, of ip]
  by (auto simp: NetworkInterface_tick_def PendingResolution_tick_def PendingResolution_is_expired_def saturating_add_def
      pending_ok_def Let_def split: option.splits)

lemma ticks_cache:
  assumes "ni_inv ni"
  shows "ni_arp_cache (foldl NetworkInterface_tick ni ts) ip = (case ni_arp_cache ni ip of None \<Rightarrow> None
     | Some e \<Rightarrow> if ce_age_ms e + sum_list ts < 30000 then Some (e\<lparr>ce_age_ms := ce_age_ms e + sum_list ts\<rparr>) else None)"
  using assms
proof (induction ts arbitrary: ni)
  case Nil
  then show ?case using ni_invD(1) [OF Nil, of ip] by (auto split: option.splits)
next
  case (Cons t ts)
  then show ?case using Cons.IH [OF tick_inv [OF Cons.prems, of t]]
    by (auto simp: tick_cache add.assoc split: option.splits)
qed

lemma ticks_waiting:
  assumes "ni_inv ni"
  shows "waiting (foldl NetworkInterface_tick ni ts) ip = (case ni_pending ni ip of None \<Rightarrow> []
     | Some p \<Rightarrow> if pr_age_ms p + sum_list ts < 5000 then pr_datagrams p else [])"
  using assms
proof (induction ts arbitrary: ni)
  case Nil
  then show ?case using ni_invD(3) [OF Nil, of ip] by (auto simp: waiting_def pending_ok_def split: option.splits)
next
  case (Cons t ts)
  then show ?case using Cons.IH [OF tick_inv [OF Cons.prems, of t]]
    by (auto simp: tick_pending add.assoc split: option.splits)
qed



end
