(* ===== verification/Host_Programs.thy ===== *)
theory Host_Programs
  imports Host_Io Network_Interface
begin

text \<open>
  \<open>src/bin/tap_host.rs\<close> and \<open>src/bin/tun_host.rs\<close>: the programs that run a host on a device, from their command
  lines on. The times that pass between the ticks are a list, one for each iteration of the endless
  main loop; the sleep between iterations is left out.
\<close>

section \<open>States and texts\<close>

record ('p, 'o, 'q, 'f) TapState = "('p, 'o, 'q) HostState" +
  st_tap :: "'f TapDevice"
  st_interface :: NetworkInterface

record ('p, 'o, 'q, 'f) TunState = "('p, 'o, 'q) HostState" +
  st_tun :: "'f TunDevice"

definition address_line :: "string \<Rightarrow> octets4 \<Rightarrow> u16 \<Rightarrow> string" where
  "address_line label ip port = label @ fmt_ip ip @ '':'' @ show16 port"

fun capture_line :: "string \<Rightarrow> string option \<Rightarrow> string list" where
  "capture_line kind (Some path) = [''pcap       : '' @ path @ kind]"
| "capture_line kind None = []"

definition tap_banner :: "TapConfig \<Rightarrow> string list" where
  "tap_banner config =
     [''=== minnow-rs tap_host ==='', ''TAP        : '' @ cfg_tap_name config,
      ''local MAC  : '' @ EthernetAddress_fmt (cfg_local_mac config),
      address_line ''local      : '' (cfg_local_ip config) (cfg_local_port config),
      address_line ''peer       : '' (cfg_peer_ip config) (cfg_peer_port config),
      ''ISN        : '' @ show_seqno (cfg_isn config)] @
     capture_line '' (Ethernet)'' (cfg_pcap_path config) @ [[]]"

definition tun_banner :: "TunConfig \<Rightarrow> string list" where
  "tun_banner config =
     [''=== minnow-rs tun_host ==='', ''TUN        : '' @ cfg_tun_name config,
      address_line ''local      : '' (cfg_local_ip config) (cfg_local_port config),
      address_line ''peer       : '' (cfg_peer_ip config) (cfg_peer_port config),
      ''ISN        : '' @ show_seqno (cfg_isn config)] @
     capture_line '' (RAW IPv4)'' (cfg_pcap_path config) @ [[]]"

definition instructions :: "string list" where
  "instructions =
     [''type text and press Enter to send it over your Rust TCP stack.'', ''press Ctrl-D to close outbound stream.'', []]"

definition as_text :: "string list \<Rightarrow> bytes" where
  "as_text ls = concat (map (\<lambda>l. map of_char l @ [10]) ls)"

definition CONTINUED :: string where "CONTINUED = '' '' @ [CHR 0x5C]"

definition tap_help :: "string list" where
  "tap_help =
     [''Usage:'',
      ''  tap_host [OPTIONS]'',
      [],
      ''Options:'',
      ''  --tap NAME             TAP device name. Default: tap144'',
      ''  --local-mac MAC        Rust Ethernet address. Default: 02:00:00:00:00:02'',
      ''  --local-ip IP          Rust TCP stack IP. Default: 169.254.144.2'',
      ''  --peer-ip IP           Linux/native TCP peer IP. Default: 169.254.144.1'',
      ''  --local-port PORT      Rust local TCP port. Default: 50000'',
      ''  --peer-port PORT       Native peer TCP port. Default: 9090'',
      ''  --isn N                Initial sequence number. Default: 1000000'',
      ''  --pcap PATH            Dump RX/TX Ethernet frames to classic pcap (LINKTYPE_ETHERNET)'',
      ''  -h, --help             Show this help'',
      [],
      ''Example:'',
      ''  cargo run --bin tap_host --'' @ CONTINUED,
      ''    --tap tap144'' @ CONTINUED,
      ''    --local-mac 02:00:00:00:00:02'' @ CONTINUED,
      ''    --local-ip 169.254.144.2'' @ CONTINUED,
      ''    --peer-ip 169.254.144.1'' @ CONTINUED,
      ''    --local-port 50000'' @ CONTINUED,
      ''    --peer-port 9090'' @ CONTINUED,
      ''    --pcap tap-host.pcap'', []]"

definition tun_help :: "string list" where
  "tun_help =
     [''Usage:'',
      ''  tun_host [OPTIONS]'',
      [],
      ''Options:'',
      ''  --tun NAME             TUN device name. Default: tun144'',
      ''  --local-ip IP          Rust TCP stack IP. Default: 169.254.144.2'',
      ''  --peer-ip IP           Linux/native TCP peer IP. Default: 169.254.144.1'',
      ''  --local-port PORT      Rust local TCP port. Default: 50000'',
      ''  --peer-port PORT       Native peer TCP port. Default: 9090'',
      ''  --isn N                Initial sequence number. Default: 1000000'',
      ''  --pcap PATH            Dump RX/TX IPv4 packets to classic pcap (LINKTYPE_RAW)'',
      ''  -h, --help             Show this help'',
      [],
      ''Example:'',
      ''  cargo run --bin tun_host --'' @ CONTINUED,
      ''    --tun tun144'' @ CONTINUED,
      ''    --local-ip 169.254.144.2'' @ CONTINUED,
      ''    --peer-ip 169.254.144.1'' @ CONTINUED,
      ''    --local-port 50000'' @ CONTINUED,
      ''    --peer-port 9090'' @ CONTINUED,
      ''    --pcap tun-host.pcap'', []]"

section \<open>The program on a TAP device\<close>

definition tap_open ::
  "('f, 'p) os_open \<Rightarrow> 'p write_all \<Rightarrow> TapConfig \<Rightarrow> ('f TapDevice \<times> 'p option) io_result" where
  "tap_open oso record config =
     (case TapDevice_create (os_opened oso) (os_ioctl oso) (map of_char (cfg_tap_name config)) of
        Inl e \<Rightarrow> Inl e
      | Inr tap \<Rightarrow>
          (case TapDevice_set_nonblocking (os_getfl oso) (os_setfl oso) tap True of
             (tap, Inl e) \<Rightarrow> Inl e
           | (tap, Inr _) \<Rightarrow>
               (case open_capture oso record (cfg_pcap_path config) PcapLinkType.Ethernet of
                  Inl e \<Rightarrow> Inl e
                | Inr pcap \<Rightarrow> Inr (tap, pcap))))"

fun send_each :: "NetworkInterface \<Rightarrow> Ipv4Datagram list \<Rightarrow> NetworkInterface run" where
  "send_each interface [] = Some interface"
| "send_each interface (datagram # datagrams) = do {
     let next_hop = ih_dst (dg_header datagram);
     interface \<leftarrow> NetworkInterface_send_datagram interface datagram next_hop;
     send_each interface datagrams
   }"

definition send_host_output_to_interface ::
  "('f, 'p, 'o, 'q) os \<Rightarrow> ('p, 'o, 'q, 'f) TapState \<Rightarrow> IpHostOutput \<Rightarrow> (('p, 'o, 'q, 'f) TapState \<times> unit io_result) run" where
  "send_host_output_to_interface os s output =
     and_then (print_events os s (ho_events output)) (\<lambda>s. do {
       interface \<leftarrow> send_each (st_interface s) (ho_datagrams output);
       Some (s\<lparr> st_interface := interface \<rparr>, Inr ())
     })"

partial_function (option) drain_interface_datagrams ::
  "('f, 'p, 'o, 'q) os \<Rightarrow> ('p, 'o, 'q, 'f) TapState \<Rightarrow> (('p, 'o, 'q, 'f) TapState \<times> unit io_result) run" where
  "drain_interface_datagrams os s =
     (case NetworkInterface_pop_datagram (st_interface s) of
        (interface, popped) \<Rightarrow>
          (case popped of
             None \<Rightarrow> Some (s\<lparr> st_interface := interface \<rparr>, Inr ())
           | Some datagram \<Rightarrow>
               Option.bind (IpHost_receive_datagram (st_host s) datagram) (\<lambda>(host, output).
                 and_then (send_host_output_to_interface os (s\<lparr> st_interface := interface, st_host := host \<rparr>) output)
                   (\<lambda>s. drain_interface_datagrams os s))))"

declare drain_interface_datagrams.simps [code]

partial_function (option) drain_tap_frames ::
  "(bytes \<Rightarrow> Ipv4FixedHeader option) \<Rightarrow> ('f, 'p, 'o, 'q) os \<Rightarrow> ('p, 'o, 'q, 'f) TapState \<Rightarrow>
     (('p, 'o, 'q, 'f) TapState \<times> unit io_result) run" where
  "drain_tap_frames ref_from_bytes os s =
     (case TapDevice_read_frame (os_read os) (st_tap s) of
        (tap, r) \<Rightarrow>
          (let s = s\<lparr> st_tap := tap \<rparr> in
           case r of
             Inr frame_bytes \<Rightarrow>
               and_then (Some (dump_packet os s frame_bytes))
                 (\<lambda>s. Option.bind (EthernetFrame_parse_bytes frame_bytes) (\<lambda>parsed.
                   case parsed of
                     Inr frame \<Rightarrow>
                       Option.bind (NetworkInterface_recv_frame ref_from_bytes (st_interface s) frame) (\<lambda>interface.
                         and_then (drain_interface_datagrams os (s\<lparr> st_interface := interface \<rparr>))
                           (\<lambda>s. drain_tap_frames ref_from_bytes os s))
                   | Inl err \<Rightarrow>
                       and_then (eprintln os s (''ignored malformed Ethernet frame: '' @ EthernetParseError_debug err))
                         (\<lambda>s. drain_tap_frames ref_from_bytes os s)))
           | Inl err \<Rightarrow>
               if err = WouldBlock then Some (s, Inr ())
               else if err = Interrupted then drain_tap_frames ref_from_bytes os s
               else Some (s, Inl err)))"

declare drain_tap_frames.simps [code]

partial_function (option) tap_drain_app_events ::
  "('f, 'p, 'o, 'q) os \<Rightarrow> ('p, 'o, 'q, 'f) TapState \<Rightarrow> (('p, 'o, 'q, 'f) TapState \<times> unit io_result) run" where
  "tap_drain_app_events os s =
     (case os_recv os (st_app s) of
        (app, received) \<Rightarrow>
          (let s = s\<lparr> st_app := app \<rparr> in
           case received of
             None \<Rightarrow> Some (s, Inr ())
           | Some event \<Rightarrow>
               (case event of
                  Data data \<Rightarrow>
                    Option.bind (IpHost_write (st_host s) data) (\<lambda>(host, count, output).
                      and_then (warn_short_write os (s\<lparr> st_host := host \<rparr>) count (length data)) (\<lambda>s.
                      and_then (send_host_output_to_interface os s output)
                        (\<lambda>s. tap_drain_app_events os s)))
                | Close \<Rightarrow>
                    and_then (eprintln os s ''stdin closed; sending FIN when possible...'') (\<lambda>s.
                    Option.bind (IpHost_close (st_host s)) (\<lambda>(host, output).
                      and_then (send_host_output_to_interface os (s\<lparr> st_host := host \<rparr>) output)
                        (\<lambda>s. tap_drain_app_events os s))))))"

declare tap_drain_app_events.simps [code]

partial_function (option) flush_interface_frames ::
  "('f, 'p, 'o, 'q) os \<Rightarrow> ('p, 'o, 'q, 'f) TapState \<Rightarrow> (('p, 'o, 'q, 'f) TapState \<times> unit io_result) run" where
  "flush_interface_frames os s =
     (case NetworkInterface_pop_frame (st_interface s) of
        (interface, popped) \<Rightarrow>
          (let s = s\<lparr> st_interface := interface \<rparr> in
           case popped of
             None \<Rightarrow> Some (s, Inr ())
           | Some frame \<Rightarrow>
               (let frame_bytes = EthernetFrame_serialize frame in
                and_then (Some (dump_packet os s frame_bytes))
                  (\<lambda>s. case TapDevice_write_frame (os_write os) (st_tap s) frame_bytes of
                     (tap, r) \<Rightarrow> and_then (Some (s\<lparr> st_tap := tap \<rparr>, r)) (\<lambda>s. flush_interface_frames os s)))))"

declare flush_interface_frames.simps [code]

text \<open>The body of the endless loop in \<open>main\<close>; \<open>elapsed_ms\<close> is the time since the last tick.\<close>

definition tap_iteration ::
  "(bytes \<Rightarrow> Ipv4FixedHeader option) \<Rightarrow> ('f, 'p, 'o, 'q) os \<Rightarrow> nat \<Rightarrow> ('p, 'o, 'q, 'f) TapState \<Rightarrow>
     (('p, 'o, 'q, 'f) TapState \<times> unit io_result) run" where
  "tap_iteration ref_from_bytes os elapsed_ms s =
     and_then (drain_tap_frames ref_from_bytes os s) (\<lambda>s.
     and_then (tap_drain_app_events os s) (\<lambda>s.
     and_then
       (if elapsed_ms > 0 then
          Option.bind (IpHost_tick (st_host s) elapsed_ms) (\<lambda>(host, output).
            send_host_output_to_interface os
              (s\<lparr> st_interface := NetworkInterface_tick (st_interface s) elapsed_ms, st_host := host \<rparr>) output)
        else Some (s, Inr ())) (\<lambda>s.
     and_then (flush_interface_frames os s) (\<lambda>s. report_progress os s))))"

fun tap_loop ::
  "(bytes \<Rightarrow> Ipv4FixedHeader option) \<Rightarrow> ('f, 'p, 'o, 'q) os \<Rightarrow> nat list \<Rightarrow> ('p, 'o, 'q, 'f) TapState \<Rightarrow>
     (('p, 'o, 'q, 'f) TapState \<times> unit io_result) run" where
  "tap_loop ref_from_bytes os [] s = Some (s, Inr ())"
| "tap_loop ref_from_bytes os (elapsed_ms # elapsed) s =
     and_then (tap_iteration ref_from_bytes os elapsed_ms s) (\<lambda>s. tap_loop ref_from_bytes os elapsed s)"

text \<open>
  \<open>main\<close> between the opened device and the loop, and as a whole, up to so many iterations. The frames that
  arrive, the clock and the channel are part of \<open>os\<close> and of what it acts on.
\<close>

definition tap_start ::
  "('f, 'p, 'o, 'q) os \<Rightarrow> TapConfig \<Rightarrow> 'f TapDevice \<Rightarrow> 'p option \<Rightarrow> 'o \<Rightarrow> 'q \<Rightarrow> (('p, 'o, 'q, 'f) TapState \<times> unit io_result) run" where
  "tap_start os config tap pcap out app = do {
     out \<leftarrow> print_line (os_eprint os) out (''opened TAP device: '' @ string_of_bytes (tap_name tap));
     let interface = NetworkInterface_new (cfg_local_mac config) (cfg_local_ip config);
     host \<leftarrow> IpHost_new (IpHostConfig_tcp_demo (cfg_local_ip config) (cfg_peer_ip config)
       (cfg_local_port config) (cfg_peer_port config) (cfg_isn config));
     out \<leftarrow> print_line (os_eprint os) out ''sending SYN...'';
     (host, output) \<leftarrow> IpHost_connect host;
     and_then
       (and_then
         (send_host_output_to_interface os
           \<lparr> st_pcap = pcap, st_host = host, st_out = out, st_app = app, st_was_established = False, st_tap = tap,
             st_interface = interface \<rparr> output)
         (\<lambda>s. flush_interface_frames os s))
       (\<lambda>s. do {
         out \<leftarrow> print_lines (os_eprint os) (st_out s) instructions;
         Some (s\<lparr> st_out := out \<rparr>, Inr ()) })
   }"

definition tap_main ::
  "(bytes \<Rightarrow> Ipv4FixedHeader option) \<Rightarrow> ('f, 'p) os_open \<Rightarrow> ('f, 'p, 'o, 'q) os \<Rightarrow> string list \<Rightarrow> 'o \<Rightarrow> 'q \<Rightarrow> nat list \<Rightarrow>
     (('p, 'o, 'q, 'f) TapState, 'o) outcome run" where
  "tap_main ref_from_bytes oso os args out app elapsed =
     (case tap_parse_args args of
        None \<Rightarrow> do {
          out \<leftarrow> print_text (os_print os) out (as_text tap_help);
          Some (Exited out) }
      | Some (Inl e) \<Rightarrow> Some (Failed out e)
      | Some (Inr config) \<Rightarrow> do {
          out \<leftarrow> print_lines (os_eprint os) out (tap_banner config);
          (case tap_open oso (os_record os) config of
             Inl e \<Rightarrow> Some (Failed out e)
           | Inr (tap, pcap) \<Rightarrow> do {
               (s, r) \<leftarrow> and_then (tap_start os config tap pcap out app) (\<lambda>s. tap_loop ref_from_bytes os elapsed s);
               Some (Ran s r) }) })"

section \<open>The program on a TUN device\<close>

definition tun_open ::
  "('f, 'p) os_open \<Rightarrow> 'p write_all \<Rightarrow> TunConfig \<Rightarrow> ('f TunDevice \<times> 'p option) io_result" where
  "tun_open oso record config =
     (case TunDevice_create (os_opened oso) (os_ioctl oso) (map of_char (cfg_tun_name config)) of
        Inl e \<Rightarrow> Inl e
      | Inr tun \<Rightarrow>
          (case TunDevice_set_nonblocking (os_getfl oso) (os_setfl oso) tun True of
             (tun, Inl e) \<Rightarrow> Inl e
           | (tun, Inr _) \<Rightarrow>
               (case open_capture oso record (cfg_pcap_path config) RawIpv4 of
                  Inl e \<Rightarrow> Inl e
                | Inr pcap \<Rightarrow> Inr (tun, pcap))))"

fun emit_each ::
  "('f, 'p, 'o, 'q) os \<Rightarrow> ('p, 'o, 'q, 'f) TunState \<Rightarrow> Ipv4Datagram list \<Rightarrow> (('p, 'o, 'q, 'f) TunState \<times> unit io_result) run" where
  "emit_each os s [] = Some (s, Inr ())"
| "emit_each os s (datagram # datagrams) = do {
     packet \<leftarrow> Ipv4Datagram_serialize datagram;
     and_then (Some (dump_packet os s packet))
       (\<lambda>s. case TunDevice_write_packet (os_write os) (st_tun s) packet of
          (tun, r) \<Rightarrow> and_then (Some (s\<lparr> st_tun := tun \<rparr>, r)) (\<lambda>s. emit_each os s datagrams))
   }"

definition emit_output ::
  "('f, 'p, 'o, 'q) os \<Rightarrow> ('p, 'o, 'q, 'f) TunState \<Rightarrow> IpHostOutput \<Rightarrow> (('p, 'o, 'q, 'f) TunState \<times> unit io_result) run" where
  "emit_output os s output = and_then (print_events os s (ho_events output)) (\<lambda>s. emit_each os s (ho_datagrams output))"

partial_function (option) drain_tun_packets ::
  "(bytes \<Rightarrow> Ipv4FixedHeader option) \<Rightarrow> ('f, 'p, 'o, 'q) os \<Rightarrow> ('p, 'o, 'q, 'f) TunState \<Rightarrow>
     (('p, 'o, 'q, 'f) TunState \<times> unit io_result) run" where
  "drain_tun_packets ref_from_bytes os s =
     (case TunDevice_read_packet (os_read os) (st_tun s) of
        (tun, r) \<Rightarrow>
          (let s = s\<lparr> st_tun := tun \<rparr> in
           case r of
             Inr packet \<Rightarrow>
               and_then (Some (dump_packet os s packet))
                 (\<lambda>s. Option.bind (IpHost_receive_ipv4_bytes ref_from_bytes (st_host s) packet) (\<lambda>(host, output).
                   and_then (emit_output os (s\<lparr> st_host := host \<rparr>) output)
                     (\<lambda>s. drain_tun_packets ref_from_bytes os s)))
           | Inl err \<Rightarrow>
               if err = WouldBlock then Some (s, Inr ())
               else if err = Interrupted then drain_tun_packets ref_from_bytes os s
               else Some (s, Inl err)))"

declare drain_tun_packets.simps [code]

partial_function (option) tun_drain_app_events ::
  "('f, 'p, 'o, 'q) os \<Rightarrow> ('p, 'o, 'q, 'f) TunState \<Rightarrow> (('p, 'o, 'q, 'f) TunState \<times> unit io_result) run" where
  "tun_drain_app_events os s =
     (case os_recv os (st_app s) of
        (app, received) \<Rightarrow>
          (let s = s\<lparr> st_app := app \<rparr> in
           case received of
             None \<Rightarrow> Some (s, Inr ())
           | Some event \<Rightarrow>
               (case event of
                  Data data \<Rightarrow>
                    Option.bind (IpHost_write (st_host s) data) (\<lambda>(host, count, output).
                      and_then (warn_short_write os (s\<lparr> st_host := host \<rparr>) count (length data)) (\<lambda>s.
                      and_then (emit_output os s output)
                        (\<lambda>s. tun_drain_app_events os s)))
                | Close \<Rightarrow>
                    and_then (eprintln os s ''stdin closed; sending FIN when possible...'') (\<lambda>s.
                    Option.bind (IpHost_close (st_host s)) (\<lambda>(host, output).
                      and_then (emit_output os (s\<lparr> st_host := host \<rparr>) output)
                        (\<lambda>s. tun_drain_app_events os s))))))"

declare tun_drain_app_events.simps [code]

definition tun_iteration ::
  "(bytes \<Rightarrow> Ipv4FixedHeader option) \<Rightarrow> ('f, 'p, 'o, 'q) os \<Rightarrow> nat \<Rightarrow> ('p, 'o, 'q, 'f) TunState \<Rightarrow>
     (('p, 'o, 'q, 'f) TunState \<times> unit io_result) run" where
  "tun_iteration ref_from_bytes os elapsed_ms s =
     and_then (drain_tun_packets ref_from_bytes os s) (\<lambda>s.
     and_then (tun_drain_app_events os s) (\<lambda>s.
     and_then
       (if elapsed_ms > 0 then
          Option.bind (IpHost_tick (st_host s) elapsed_ms) (\<lambda>(host, output).
            emit_output os (s\<lparr> st_host := host \<rparr>) output)
        else Some (s, Inr ())) (\<lambda>s. report_progress os s)))"

fun tun_loop ::
  "(bytes \<Rightarrow> Ipv4FixedHeader option) \<Rightarrow> ('f, 'p, 'o, 'q) os \<Rightarrow> nat list \<Rightarrow> ('p, 'o, 'q, 'f) TunState \<Rightarrow>
     (('p, 'o, 'q, 'f) TunState \<times> unit io_result) run" where
  "tun_loop ref_from_bytes os [] s = Some (s, Inr ())"
| "tun_loop ref_from_bytes os (elapsed_ms # elapsed) s =
     and_then (tun_iteration ref_from_bytes os elapsed_ms s) (\<lambda>s. tun_loop ref_from_bytes os elapsed s)"

definition tun_start ::
  "('f, 'p, 'o, 'q) os \<Rightarrow> TunConfig \<Rightarrow> 'f TunDevice \<Rightarrow> 'p option \<Rightarrow> 'o \<Rightarrow> 'q \<Rightarrow> (('p, 'o, 'q, 'f) TunState \<times> unit io_result) run" where
  "tun_start os config tun pcap out app = do {
     out \<leftarrow> print_line (os_eprint os) out (''opened TUN device: '' @ string_of_bytes (tun_name tun));
     host \<leftarrow> IpHost_new (IpHostConfig_tcp_demo (cfg_local_ip config) (cfg_peer_ip config)
       (cfg_local_port config) (cfg_peer_port config) (cfg_isn config));
     out \<leftarrow> print_line (os_eprint os) out ''sending SYN...'';
     (host, output) \<leftarrow> IpHost_connect host;
     and_then
       (emit_output os
         \<lparr> st_pcap = pcap, st_host = host, st_out = out, st_app = app, st_was_established = False, st_tun = tun \<rparr> output)
       (\<lambda>s. do {
         out \<leftarrow> print_lines (os_eprint os) (st_out s) instructions;
         Some (s\<lparr> st_out := out \<rparr>, Inr ()) })
   }"

definition tun_main ::
  "(bytes \<Rightarrow> Ipv4FixedHeader option) \<Rightarrow> ('f, 'p) os_open \<Rightarrow> ('f, 'p, 'o, 'q) os \<Rightarrow> string list \<Rightarrow> 'o \<Rightarrow> 'q \<Rightarrow> nat list \<Rightarrow>
     (('p, 'o, 'q, 'f) TunState, 'o) outcome run" where
  "tun_main ref_from_bytes oso os args out app elapsed =
     (case tun_parse_args args of
        None \<Rightarrow> do {
          out \<leftarrow> print_text (os_print os) out (as_text tun_help);
          Some (Exited out) }
      | Some (Inl e) \<Rightarrow> Some (Failed out e)
      | Some (Inr config) \<Rightarrow> do {
          out \<leftarrow> print_lines (os_eprint os) out (tun_banner config);
          (case tun_open oso (os_record os) config of
             Inl e \<Rightarrow> Some (Failed out e)
           | Inr (tun, pcap) \<Rightarrow> do {
               (s, r) \<leftarrow> and_then (tun_start os config tun pcap out app) (\<lambda>s. tun_loop ref_from_bytes os elapsed s);
               Some (Ran s r) }) })"

section \<open>The program on a TAP device is safe\<close>

definition tap_inv :: "('q \<Rightarrow> nat) \<Rightarrow> ('p, 'o, 'q, 'f) TapState \<Rightarrow> bool" where
  "tap_inv volume s \<longleftrightarrow> ni_inv (st_interface s) \<and> (\<forall>d \<in> set (ni_datagrams_in (st_interface s)). ip_fits d) \<and>
     host_ok (volume (st_app s)) (st_host s)"

lemma send_each_total:
  "ni_inv ni \<Longrightarrow> \<forall>d \<in> set ds. ip_fits d \<Longrightarrow>
     \<exists>ni'. send_each ni ds = Some ni' \<and> ni_inv ni' \<and> ni_datagrams_in ni' = ni_datagrams_in ni"
proof (induction ds arbitrary: ni)
  case (Cons d ds)
  obtain ni1 where ni1: "NetworkInterface_send_datagram ni d (ih_dst (dg_header d)) = Some ni1"
    using send_cases [OF Cons.prems(1), of d] Cons.prems(2) by auto
  have fits: "ip_fits d" using Cons.prems(2) by simp
  from Cons.IH [OF send_inv [OF Cons.prems(1) fits ni1]] show ?case
    using ni1 Cons.prems(2) send_keeps_in [OF Cons.prems(1) fits ni1] by (auto simp: Let_def)
qed simp

lemma send_output_ends:
  assumes "os_ok os arrived events volume"
    and "ni_inv (st_interface s)" and "\<forall>d \<in> set (ho_datagrams out). ip_fits d"
  shows "ends (\<lambda>s'. ni_inv (st_interface s') \<and> ni_datagrams_in (st_interface s') = ni_datagrams_in (st_interface s) \<and>
      st_tap s' = st_tap s \<and> st_app s' = st_app s \<and> st_host s' = st_host s)
    (send_host_output_to_interface os s out)"
  unfolding send_host_output_to_interface_def
  by (rule ends_and_then [OF print_events_ends [OF assms(1)]]) (use send_each_total [OF assms(2,3)] in \<open>auto simp: printed_def\<close>)

text \<open>The common step of the loops: a call of the host and the sending of its output.\<close>

lemma send_answers_ends:
  assumes "os_ok os arrived events volume" and "answers (volume (st_app s)) (st_host s) out" and "ni_inv (st_interface s)"
    and "\<forall>d \<in> set (ni_datagrams_in (st_interface s)). ip_fits d"
  shows "ends (\<lambda>s'. tap_inv volume s' \<and> st_tap s' = st_tap s \<and> st_app s' = st_app s \<and>
      ni_datagrams_in (st_interface s') = ni_datagrams_in (st_interface s)) (send_host_output_to_interface os s out)"
  using assms by (intro ends_mono [OF send_output_ends [OF assms(1)]]) (auto simp: answers_def tap_inv_def)

lemma tap_inv_printed: "printed s s' \<Longrightarrow> tap_inv volume s' = tap_inv volume s"
  by (auto simp: printed_def tap_inv_def)

lemma drain_interface_ends:
  assumes "os_ok os arrived events volume" and "tap_inv volume s"
  shows "ends (\<lambda>s'. tap_inv volume s' \<and> st_tap s' = st_tap s \<and> st_app s' = st_app s) (drain_interface_datagrams os s)"
  using assms(2)
proof (induction "ni_datagrams_in (st_interface s)" arbitrary: s)
  case Nil
  then show ?case
    by (subst drain_interface_datagrams.simps) (simp add: NetworkInterface_pop_datagram_def)
next
  case (Cons d ds)
  let ?ni = "(st_interface s)\<lparr>ni_datagrams_in := ds\<rparr>"
  have pop: "NetworkInterface_pop_datagram (st_interface s) = (?ni, Some d)"
    by (simp add: NetworkInterface_pop_datagram_def flip: Cons.hyps(2))
  have "ni_datagrams_in (st_interface s) = d # ds" using Cons.hyps(2) by simp
  then have ok: "host_ok (volume (st_app s)) (st_host s)" and fits: "ip_fits d" "\<forall>d \<in> set ds. ip_fits d" and ni: "ni_inv ?ni"
    using Cons.prems by (auto simp: tap_inv_def ni_inv_datagrams)
  obtain h' out where r: "IpHost_receive_datagram (st_host s) d = Some (h', out)" "answers (volume (st_app s)) h' out"
    using host_calls(4) [OF ok fits(1)] by blast
  let ?s = "s\<lparr>st_interface := ?ni, st_host := h'\<rparr>"
  have sent: "ends (\<lambda>s'. tap_inv volume s' \<and> st_tap s' = st_tap s \<and> st_app s' = st_app s \<and>
      ni_datagrams_in (st_interface s') = ds) (send_host_output_to_interface os ?s out)"
    using send_answers_ends [OF assms(1), of ?s out] r(2) ni fits(2) by simp
  show ?case
    unfolding drain_interface_datagrams.simps [of os s] pop
    by (simp add: r(1)) (rule ends_and_then [OF sent], rule ends_mono [OF Cons.hyps(1)], auto)
qed

lemma eth_parse_total: "\<exists>r. EthernetFrame_parse_bytes bs = Some r"
  by (simp add: EthernetFrame_parse_bytes_def slice_from_def Let_def)

lemma drain_tap_ends:
  assumes "os_ok os arrived events volume" and "layout_ok view" and "tap_inv volume s"
  shows "ends (\<lambda>s'. tap_inv volume s' \<and> st_app s' = st_app s) (drain_tap_frames view os s)"
  using assms(3)
proof (induction "arrived (tap_file (st_tap s))" arbitrary: s rule: less_induct)
  case less
  obtain f r where rd: "os_read os (tap_file (st_tap s)) MAX_ETHERNET_FRAME_SIZE = (f, r)" by fastforce
  let ?s = "s\<lparr>st_tap := (st_tap s)\<lparr>tap_file := f\<rparr>\<rparr>"
  have read: "TapDevice_read_frame (os_read os) (st_tap s) = ((st_tap s)\<lparr>tap_file := f\<rparr>, r)"
    by (simp add: TapDevice_read_frame_def rd)
  have again: "ends (\<lambda>s'. tap_inv volume s' \<and> st_app s' = st_app s) (drain_tap_frames view os s')"
    if "arrived f < arrived (tap_file (st_tap s))" "tap_inv volume s'" "tap_file (st_tap s') = f" "st_app s' = st_app s" for s'
    using less.hyps [of s'] that by (auto intro: ends_mono)
  show ?case
  proof (cases r)
    case (Inl e)
    then show ?thesis using os_okD(2) [OF assms(1)] rd less.prems again [of ?s]
      unfolding drain_tap_frames.simps [of view os s] read by (auto simp: tap_inv_def Let_def)
  next
    case (Inr b)
    have dec: "arrived f < arrived (tap_file (st_tap s))" using os_okD(1) [OF assms(1)] rd Inr by simp
    obtain parsed where parsed: "EthernetFrame_parse_bytes b = Some parsed" using eth_parse_total by blast
    show ?thesis
      unfolding drain_tap_frames.simps [of view os s] read prod.case Let_def Inr sum.case parsed bind.simps
    proof (rule ends_and_then [OF dump_packet_ends])
      fix s1
      assume "\<exists>w. s1 = ?s\<lparr>st_pcap := w\<rparr>"
      then have s1: "tap_inv volume s1" "tap_file (st_tap s1) = f" "st_app s1 = st_app s"
        using less.prems by (auto simp: tap_inv_def)
      show "ends (\<lambda>s'. tap_inv volume s' \<and> st_app s' = st_app s)
        (case parsed of
           Inl err \<Rightarrow> and_then (eprintln os s1 (''ignored malformed Ethernet frame: '' @ EthernetParseError_debug err))
             (drain_tap_frames view os)
         | Inr frame \<Rightarrow> Option.bind (NetworkInterface_recv_frame view (st_interface s1) frame)
             (\<lambda>interface. and_then (drain_interface_datagrams os (s1\<lparr>st_interface := interface\<rparr>)) (drain_tap_frames view os)))"
      proof (cases parsed)
        case (Inl err)
        show ?thesis unfolding Inl sum.case
          by (rule ends_and_then [OF eprintln_ends [OF assms(1)]]) (use again [OF dec] s1 in \<open>auto simp: printed_def tap_inv_def\<close>)
      next
        case (Inr frame)
        obtain ni where ni: "NetworkInterface_recv_frame view (st_interface s1) frame = Some ni" "ni_inv ni"
          using recv_total [OF _ assms(2)] s1(1) unfolding tap_inv_def by blast
        then have "tap_inv volume (s1\<lparr>st_interface := ni\<rparr>)"
          using s1(1) recv_fits [OF _ ni(1)] by (auto simp: tap_inv_def)
        from drain_interface_ends [OF assms(1) this] show ?thesis
          using again [OF dec] s1 ni(1) Inr by simp (auto elim!: ends_and_then)
      qed
    qed
  qed
qed

text \<open>What the host does with an event from the channel.\<close>

lemma recv_event:
  assumes "os_ok os arrived events volume" and "host_ok (volume q) h"
  shows "os_recv os q = (q', Some (Data d)) \<Longrightarrow>
      \<exists>h' n out. IpHost_write h d = Some (h', n, out) \<and> answers (volume q') h' out"
    and "os_recv os q = (q', Some Close) \<Longrightarrow> \<exists>h' out. IpHost_close h = Some (h', out) \<and> answers (volume q') h' out"
    and "os_recv os q = (q', None) \<Longrightarrow> host_ok (volume q') h"
  using os_okD(4,5) [OF assms(1), of q q'] by (fastforce intro!: host_write host_calls(2) host_ok_mono [OF assms(2)])+

lemma tap_app_ends:
  assumes "os_ok os arrived events volume" and "tap_inv volume s"
  shows "ends (tap_inv volume) (tap_drain_app_events os s)"
  using assms(2)
proof (induction "events (st_app s)" arbitrary: s rule: less_induct)
  case less
  obtain q x where q: "os_recv os (st_app s) = (q, x)" by fastforce
  have ok: "host_ok (volume (st_app s)) (st_host s)" and ni: "ni_inv (st_interface s)"
    "\<forall>d \<in> set (ni_datagrams_in (st_interface s)). ip_fits d"
    using less.prems by (auto simp: tap_inv_def)
  have again: "ends (tap_inv volume) (and_then (send_host_output_to_interface os s' out) (tap_drain_app_events os))"
    if "answers (volume q) h out" "x = Some ev" "printed (s\<lparr>st_app := q, st_host := h\<rparr>) s'" for h out ev s'
  proof -
    have dec: "events q < events (st_app s)" using os_okD(3) [OF assms(1)] q that(2) by simp
    show ?thesis
      by (rule ends_and_then [OF send_answers_ends [OF assms(1)]]) (use that(1,3) ni dec less.hyps in \<open>auto simp: printed_def\<close>)
  qed
  show ?case
  proof (cases x)
    case None
    then have "host_ok (volume q) (st_host s)" using recv_event(3) [OF assms(1) ok] q by simp
    then show ?thesis using ni unfolding tap_drain_app_events.simps [of os s] q None by (simp add: tap_inv_def Let_def)
  next
    case (Some ev)
    show ?thesis
    proof (cases ev)
      case (Data d)
      then obtain h' n out where w: "IpHost_write (st_host s) d = Some (h', n, out)" "answers (volume q) h' out"
        using recv_event(1) [OF assms(1) ok] q Some by blast
      show ?thesis unfolding tap_drain_app_events.simps [of os s] q Some Data
        by (simp add: Let_def w(1)) (rule ends_and_then [OF warn_ends [OF assms(1)]], rule again [OF w(2) Some], simp)
    next
      case Close
      then obtain h' out where w: "IpHost_close (st_host s) = Some (h', out)" "answers (volume q) h' out"
        using recv_event(2) [OF assms(1) ok] q Some by blast
      note closed = printed_host [of "s\<lparr>st_app := q\<rparr>" _ h', simplified]
      show ?thesis unfolding tap_drain_app_events.simps [of os s] q Some Close
        by (simp add: Let_def) (rule ends_and_then [OF eprintln_ends [OF assms(1)]], simp add: closed w(1) again [OF w(2) Some])
    qed
  qed
qed

definition flushed :: "('q \<Rightarrow> nat) \<Rightarrow> ('p, 'o, 'q, 'f) TapState \<Rightarrow> bool" where
  "flushed volume s \<longleftrightarrow> tap_inv volume s \<and> ni_frames_out (st_interface s) = []"

lemma flush_ends:
  assumes "tap_inv volume s"
  shows "ends (flushed volume) (flush_interface_frames os s)"
  using assms
proof (induction "ni_frames_out (st_interface s)" arbitrary: s)
  case Nil
  then show ?case
    by (subst flush_interface_frames.simps) (simp add: NetworkInterface_pop_frame_def flushed_def Let_def)
next
  case (Cons f fs)
  let ?ni = "(st_interface s)\<lparr>ni_frames_out := fs\<rparr>" and ?bs = "EthernetFrame_serialize f"
  have pop: "NetworkInterface_pop_frame (st_interface s) = (?ni, Some f)"
    by (simp add: NetworkInterface_pop_frame_def flip: Cons.hyps(2))
  have inv: "tap_inv volume (s\<lparr>st_interface := ?ni, st_pcap := w, st_tap := t\<rparr>)" for w t
    using Cons.prems by (simp add: tap_inv_def ni_inv_frames)
  show ?case
    unfolding flush_interface_frames.simps [of os s] pop
  proof (simp add: Let_def, rule ends_and_then [OF dump_packet_ends])
    fix s1
    assume "\<exists>w. s1 = s\<lparr>st_interface := ?ni\<rparr>\<lparr>st_pcap := w\<rparr>"
    then obtain w where s1: "s1 = s\<lparr>st_interface := ?ni, st_pcap := w\<rparr>" by auto
    obtain t r where t: "TapDevice_write_frame (os_write os) (st_tap s1) ?bs = (t, r)" by fastforce
    have e: "ends (\<lambda>s'. s' = s1\<lparr>st_tap := t\<rparr>) (Some (s1\<lparr>st_tap := t\<rparr>, r))" by simp
    show "ends (flushed volume) (case TapDevice_write_frame (os_write os) (st_tap s1) ?bs of
        (tap, r) \<Rightarrow> and_then (Some (s1\<lparr>st_tap := tap\<rparr>, r)) (flush_interface_frames os))"
      unfolding t prod.case by (rule ends_and_then [OF e]) (use Cons.hyps(1) inv s1 in simp)
  qed
qed

lemma tap_tick_ends:
  assumes "os_ok os arrived events volume" and "tap_inv volume s"
  shows "ends (tap_inv volume)
    (if ms > 0 then Option.bind (IpHost_tick (st_host s) ms) (\<lambda>(host, output). send_host_output_to_interface os
        (s\<lparr>st_interface := NetworkInterface_tick (st_interface s) ms, st_host := host\<rparr>) output)
     else Some (s, Inr ()))"
proof -
  let ?ni = "NetworkInterface_tick (st_interface s) ms"
  obtain h' out where t: "IpHost_tick (st_host s) ms = Some (h', out)" "answers (volume (st_app s)) h' out"
    using host_calls(3) assms(2) unfolding tap_inv_def by blast
  have ni: "ni_inv ?ni" "\<forall>d \<in> set (ni_datagrams_in ?ni). ip_fits d"
    using assms(2) tick_inv by (auto simp: tap_inv_def NetworkInterface_tick_def Let_def)
  have "ends (tap_inv volume) (send_host_output_to_interface os (s\<lparr>st_interface := ?ni, st_host := h'\<rparr>) out)"
    using t(2) ni by (intro ends_mono [OF send_answers_ends [OF assms(1)]]) auto
  then show ?thesis using assms(2) t(1) by simp
qed

lemma tap_iteration_ends:
  assumes "os_ok os arrived events volume" and "layout_ok view" and "tap_inv volume s"
  shows "ends (flushed volume) (tap_iteration view os ms s)"
  unfolding tap_iteration_def
  apply (rule ends_and_then [OF drain_tap_ends [OF assms]])
  apply (rule ends_and_then [OF tap_app_ends [OF assms(1)]], simp)
  apply (rule ends_and_then [OF tap_tick_ends [OF assms(1)]], assumption)
  apply (rule ends_and_then [OF flush_ends], assumption)
  apply (rule ends_mono [OF report_progress_ends [OF assms(1)]], auto simp: flushed_def tap_inv_def reported_def)
  done

lemma tap_loop_ends:
  assumes "os_ok os arrived events volume" and "layout_ok view"
  shows "flushed volume s \<Longrightarrow> ends (flushed volume) (tap_loop view os elapsed s)"
proof (induction elapsed arbitrary: s)
  case (Cons ms elapsed)
  have "tap_inv volume s" using Cons.prems by (simp add: flushed_def)
  from ends_and_then [OF tap_iteration_ends [OF assms this] Cons.IH] show ?case by simp
qed simp

lemma instructions_end:
  assumes "os_ok os arrived events volume"
  shows "ends (printed s) (Option.bind (print_lines (os_eprint os) (st_out s) ls) (\<lambda>out. Some (s\<lparr>st_out := out\<rparr>, Inr ())))"
  using print_total(3) [OF os_okD(8) [OF assms], of "st_out s" ls] by (auto simp: printed_def)

lemma tap_start_ends:
  assumes "os_ok os arrived events volume" and "valid_config config" and "volume app + 2 \<le> U64_MAX"
  shows "ends (flushed volume) (tap_start os config tap pcap out app)"
proof -
  let ?ni = "NetworkInterface_new (cfg_local_mac config) (cfg_local_ip config)"
  obtain h h' out' where h: "IpHost_new (IpHostConfig_tcp_demo (cfg_local_ip config) (cfg_peer_ip config)
      (cfg_local_port config) (cfg_peer_port config) (cfg_isn config)) = Some h"
    "IpHost_connect h = Some (h', out')" "answers (volume app) h' out'"
    using host_ok_new [OF assms(2,3)] host_calls(1) by blast
  note console = print_total(2) [OF os_okD(8) [OF assms(1)]]
  obtain o1 where o1: "print_line (os_eprint os) out (''opened TAP device: '' @ string_of_bytes (tap_name tap)) = Some o1"
    using console by blast
  obtain o2 where o2: "print_line (os_eprint os) o1 ''sending SYN...'' = Some o2" using console by blast
  let ?s = "\<lparr>st_pcap = pcap, st_host = h', st_out = o2, st_app = app, st_was_established = False, st_tap = tap, st_interface = ?ni\<rparr>"
  have "ends (tap_inv volume) (send_host_output_to_interface os ?s out')"
    using h(3) ni_inv_new by (intro ends_mono [OF send_answers_ends [OF assms(1)]]) (auto simp: NetworkInterface_new_def)
  from ends_and_then [OF this flush_ends] have flushed: "ends (flushed volume)
      (and_then (send_host_output_to_interface os ?s out') (flush_interface_frames os))" by simp
  show ?thesis unfolding tap_start_def o1 o2 h(1,2) bind.simps Let_def prod.case
    by (rule ends_and_then [OF flushed], rule ends_mono [OF instructions_end [OF assms(1)]])
      (auto simp: flushed_def printed_def tap_inv_def)
qed

section \<open>The program on a TUN device is safe\<close>

definition tun_inv :: "('q \<Rightarrow> nat) \<Rightarrow> ('p, 'o, 'q, 'f) TunState \<Rightarrow> bool" where
  "tun_inv volume s \<longleftrightarrow> host_ok (volume (st_app s)) (st_host s)"

definition quieter :: "('f \<Rightarrow> nat) \<Rightarrow> ('p, 'o, 'q, 'f) TunState \<Rightarrow> ('p, 'o, 'q, 'f) TunState \<Rightarrow> bool" where
  "quieter arrived s s' \<longleftrightarrow> st_app s' = st_app s \<and> arrived (tun_file (st_tun s')) \<le> arrived (tun_file (st_tun s))"

lemma write_packet_quiet:
  "os_ok os arrived events volume \<Longrightarrow> TunDevice_write_packet (os_write os) tun bs = (tun', r) \<Longrightarrow>
     arrived (tun_file tun') \<le> arrived (tun_file tun)"
  by (auto simp: TunDevice_write_packet_def dest: os_okD(6) split: if_splits prod.splits)

lemma emit_each_ends:
  assumes "os_ok os arrived events volume"
  shows "\<forall>d \<in> set ds. ip_fits d \<Longrightarrow> ends (\<lambda>s'. st_host s' = st_host s \<and> quieter arrived s s') (emit_each os s ds)"
proof (induction ds arbitrary: s)
  case (Cons d ds)
  obtain bs where bs: "Ipv4Datagram_serialize d = Some bs" using ip_serialize_eq [of d] Cons.prems by auto
  show ?case
  proof (simp add: bs, rule ends_and_then [OF dump_packet_ends])
    fix s1
    assume "\<exists>w. s1 = s\<lparr>st_pcap := w\<rparr>"
    then obtain w where s1: "s1 = s\<lparr>st_pcap := w\<rparr>" by blast
    obtain t r where t: "TunDevice_write_packet (os_write os) (st_tun s1) bs = (t, r)" by fastforce
    have quiet: "arrived (tun_file t) \<le> arrived (tun_file (st_tun s))" using write_packet_quiet [OF assms t] s1 by simp
    have e: "ends (\<lambda>s'. s' = s1\<lparr>st_tun := t\<rparr>) (Some (s1\<lparr>st_tun := t\<rparr>, r))" by simp
    have rest: "ends (\<lambda>s'. st_host s' = st_host s \<and> quieter arrived s s') (emit_each os (s1\<lparr>st_tun := t\<rparr>) ds)"
      using Cons.prems quiet s1 by (intro ends_mono [OF Cons.IH]) (auto simp: quieter_def)
    show "ends (\<lambda>s'. st_host s' = st_host s \<and> quieter arrived s s')
      (case TunDevice_write_packet (os_write os) (st_tun s1) bs of
        (tun, r) \<Rightarrow> and_then (Some (s1\<lparr>st_tun := tun\<rparr>, r)) (\<lambda>s. emit_each os s ds))"
      unfolding t prod.case by (rule ends_and_then [OF e]) (simp only: rest)
  qed
qed (simp add: quieter_def)

lemma emit_ends:
  assumes "os_ok os arrived events volume" and "answers (volume (st_app s)) (st_host s) out"
  shows "ends (\<lambda>s'. tun_inv volume s' \<and> quieter arrived s s') (emit_output os s out)"
  unfolding emit_output_def
  by (rule ends_and_then [OF print_events_ends [OF assms(1)]], rule ends_mono [OF emit_each_ends [OF assms(1)]])
    (use assms(2) in \<open>auto simp: answers_def tun_inv_def quieter_def printed_def\<close>)

lemma tun_packets_ends:
  assumes "os_ok os arrived events volume" and "layout_ok view" and "tun_inv volume s"
  shows "ends (tun_inv volume) (drain_tun_packets view os s)"
  using assms(3)
proof (induction "arrived (tun_file (st_tun s))" arbitrary: s rule: less_induct)
  case less
  obtain f r where rd: "os_read os (tun_file (st_tun s)) MAX_IPV4_PACKET_SIZE = (f, r)" by fastforce
  let ?s = "s\<lparr>st_tun := (st_tun s)\<lparr>tun_file := f\<rparr>\<rparr>"
  have read: "TunDevice_read_packet (os_read os) (st_tun s) = ((st_tun s)\<lparr>tun_file := f\<rparr>, r)"
    by (simp add: TunDevice_read_packet_def rd)
  show ?case
  proof (cases r)
    case (Inl e)
    then show ?thesis using os_okD(2) [OF assms(1)] rd less
      unfolding drain_tun_packets.simps [of view os s] read by (auto simp: tun_inv_def Let_def)
  next
    case (Inr p)
    have dec: "arrived f < arrived (tun_file (st_tun s))" using os_okD(1) [OF assms(1)] rd Inr by simp
    show ?thesis
      unfolding drain_tun_packets.simps [of view os s] read
    proof (simp add: Inr Let_def, rule ends_and_then [OF dump_packet_ends])
      fix s1
      assume "\<exists>w. s1 = ?s\<lparr>st_pcap := w\<rparr>"
      then obtain w where s1: "s1 = ?s\<lparr>st_pcap := w\<rparr>" by blast
      then have "host_ok (volume (st_app s1)) (st_host s1)" using less.prems by (simp add: tun_inv_def)
      from host_calls(5) [OF this assms(2)] obtain h' out where
        h: "IpHost_receive_ipv4_bytes view (st_host s1) p = Some (h', out)" "answers (volume (st_app s1)) h' out" by blast
      show "ends (tun_inv volume) (Option.bind (IpHost_receive_ipv4_bytes view (st_host s1) p)
          (\<lambda>(host, output). and_then (emit_output os (s1\<lparr>st_host := host\<rparr>) output) (drain_tun_packets view os)))"
        unfolding h(1) bind.simps prod.case
        by (rule ends_and_then [OF emit_ends [OF assms(1)]]) (use h(2) dec s1 less.hyps in \<open>auto simp: quieter_def\<close>)
    qed
  qed
qed

lemma tun_app_ends:
  assumes "os_ok os arrived events volume" and "tun_inv volume s"
  shows "ends (tun_inv volume) (tun_drain_app_events os s)"
  using assms(2)
proof (induction "events (st_app s)" arbitrary: s rule: less_induct)
  case less
  obtain q x where q: "os_recv os (st_app s) = (q, x)" by fastforce
  have ok: "host_ok (volume (st_app s)) (st_host s)" using less.prems by (simp add: tun_inv_def)
  have again: "ends (tun_inv volume) (and_then (emit_output os s' out) (tun_drain_app_events os))"
    if "answers (volume q) h out" "x = Some ev" "printed (s\<lparr>st_app := q, st_host := h\<rparr>) s'" for h out ev s'
  proof -
    have dec: "events q < events (st_app s)" using os_okD(3) [OF assms(1)] q that(2) by simp
    show ?thesis
      by (rule ends_and_then [OF emit_ends [OF assms(1)]]) (use that(1,3) dec less.hyps in \<open>auto simp: quieter_def printed_def\<close>)
  qed
  show ?case
  proof (cases x)
    case None
    then have "host_ok (volume q) (st_host s)" using recv_event(3) [OF assms(1) ok] q by simp
    then show ?thesis unfolding tun_drain_app_events.simps [of os s] q None by (simp add: tun_inv_def Let_def)
  next
    case (Some ev)
    show ?thesis
    proof (cases ev)
      case (Data d)
      then obtain h' n out where w: "IpHost_write (st_host s) d = Some (h', n, out)" "answers (volume q) h' out"
        using recv_event(1) [OF assms(1) ok] q Some by blast
      show ?thesis unfolding tun_drain_app_events.simps [of os s] q Some Data
        by (simp add: Let_def w(1)) (rule ends_and_then [OF warn_ends [OF assms(1)]], rule again [OF w(2) Some], simp)
    next
      case Close
      then obtain h' out where w: "IpHost_close (st_host s) = Some (h', out)" "answers (volume q) h' out"
        using recv_event(2) [OF assms(1) ok] q Some by blast
      note closed = printed_host [of "s\<lparr>st_app := q\<rparr>" _ h', simplified]
      show ?thesis unfolding tun_drain_app_events.simps [of os s] q Some Close
        by (simp add: Let_def) (rule ends_and_then [OF eprintln_ends [OF assms(1)]], simp add: closed w(1) again [OF w(2) Some])
    qed
  qed
qed

lemma tun_tick_ends:
  assumes "os_ok os arrived events volume" and "tun_inv volume s"
  shows "ends (tun_inv volume)
    (if ms > 0 then Option.bind (IpHost_tick (st_host s) ms) (\<lambda>(host, output). emit_output os (s\<lparr>st_host := host\<rparr>) output)
     else Some (s, Inr ()))"
proof -
  obtain h' out where t: "IpHost_tick (st_host s) ms = Some (h', out)" "answers (volume (st_app s)) h' out"
    using host_calls(3) assms(2) unfolding tun_inv_def by blast
  have "ends (tun_inv volume) (emit_output os (s\<lparr>st_host := h'\<rparr>) out)"
    using t(2) by (intro ends_mono [OF emit_ends [OF assms(1)]]) auto
  then show ?thesis using assms(2) t(1) by simp
qed

lemma tun_iteration_ends:
  assumes "os_ok os arrived events volume" and "layout_ok view" and "tun_inv volume s"
  shows "ends (tun_inv volume) (tun_iteration view os ms s)"
  unfolding tun_iteration_def
  apply (rule ends_and_then [OF tun_packets_ends [OF assms]])
  apply (rule ends_and_then [OF tun_app_ends [OF assms(1)]], assumption)
  apply (rule ends_and_then [OF tun_tick_ends [OF assms(1)]], assumption)
  apply (rule ends_mono [OF report_progress_ends [OF assms(1)]], auto simp: tun_inv_def reported_def)
  done

lemma tun_loop_ends:
  assumes "os_ok os arrived events volume" and "layout_ok view"
  shows "tun_inv volume s \<Longrightarrow> ends (tun_inv volume) (tun_loop view os elapsed s)"
proof (induction elapsed arbitrary: s)
  case (Cons ms elapsed)
  from ends_and_then [OF tun_iteration_ends [OF assms Cons.prems] Cons.IH] show ?case by simp
qed simp

lemma tun_start_ends:
  assumes "os_ok os arrived events volume" and "valid_config config" and "volume app + 2 \<le> U64_MAX"
  shows "ends (tun_inv volume) (tun_start os config tun pcap out app)"
proof -
  obtain h h' out' where h: "IpHost_new (IpHostConfig_tcp_demo (cfg_local_ip config) (cfg_peer_ip config)
      (cfg_local_port config) (cfg_peer_port config) (cfg_isn config)) = Some h"
    "IpHost_connect h = Some (h', out')" "answers (volume app) h' out'"
    using host_ok_new [OF assms(2,3)] host_calls(1) by blast
  note console = print_total(2) [OF os_okD(8) [OF assms(1)]]
  obtain o1 where o1: "print_line (os_eprint os) out (''opened TUN device: '' @ string_of_bytes (tun_name tun)) = Some o1"
    using console by blast
  obtain o2 where o2: "print_line (os_eprint os) o1 ''sending SYN...'' = Some o2" using console by blast
  let ?s = "\<lparr>st_pcap = pcap, st_host = h', st_out = o2, st_app = app, st_was_established = False, st_tun = tun\<rparr>"
  have emitted: "ends (tun_inv volume) (emit_output os ?s out')"
    using h(3) by (intro ends_mono [OF emit_ends [OF assms(1)]]) auto
  show ?thesis unfolding tun_start_def o1 o2 h(1,2) bind.simps prod.case
    by (rule ends_and_then [OF emitted], rule ends_mono [OF instructions_end [OF assms(1)]])
      (auto simp: printed_def tun_inv_def)
qed

text \<open>The programs as a whole: what is left is the command line and the opening of the device.\<close>

definition concludes :: "('s \<Rightarrow> bool) \<Rightarrow> ('s, 'o) outcome run \<Rightarrow> bool" where
  "concludes P m \<longleftrightarrow> (\<exists>x. m = Some x \<and> (\<forall>s. x = Ran s (Inr ()) \<longrightarrow> P s))"

lemma concludes_Ran:
  assumes "ends P m"
  shows "concludes P (Option.bind m (\<lambda>(s, r). Some (Ran s r)))"
  using assms by (auto simp: ends_def concludes_def)

lemma concludes_simps [simp]: "concludes P (Some (Exited o1))" "concludes P (Some (Failed o1 e))"
  by (simp_all add: concludes_def)

lemma concludes_print:
  assumes "writable w"
  shows "(\<And>out. concludes P (k out)) \<Longrightarrow> concludes P (Option.bind (print_text w o1 b) k)"
    "(\<And>out. concludes P (k out)) \<Longrightarrow> concludes P (Option.bind (print_lines w o1 ls) k)"
  using print_total(1) [OF assms, of o1 b] print_total(3) [OF assms, of o1 ls] by auto

lemma tap_main_concludes:
  assumes "layout_ok ref_from_bytes" and "os_ok os arrived events volume" and "volume app + 2 \<le> U64_MAX"
  shows "concludes (flushed volume) (tap_main ref_from_bytes oso os args out app elapsed)"
proof -
  note print = concludes_print [OF os_okD(7) [OF assms(2)]] concludes_print [OF os_okD(8) [OF assms(2)]]
  have run: "ends (flushed volume) (and_then (tap_start os config tap pcap out app) (tap_loop ref_from_bytes os elapsed))"
    if "tap_parse_args args = Some (Inr config)" for config tap pcap out
    using ends_and_then [OF tap_start_ends [OF assms(2) tap_parse_valid [OF that] assms(3)] tap_loop_ends [OF assms(2,1)]] by simp
  show ?thesis unfolding tap_main_def
    by (auto split: option.splits sum.splits intro!: print concludes_Ran run)
qed

lemma tun_main_concludes:
  assumes "layout_ok ref_from_bytes" and "os_ok os arrived events volume" and "volume app + 2 \<le> U64_MAX"
  shows "concludes (tun_inv volume) (tun_main ref_from_bytes oso os args out app elapsed)"
proof -
  note print = concludes_print [OF os_okD(7) [OF assms(2)]] concludes_print [OF os_okD(8) [OF assms(2)]]
  have run: "ends (tun_inv volume) (and_then (tun_start os config tun pcap out app) (tun_loop ref_from_bytes os elapsed))"
    if "tun_parse_args args = Some (Inr config)" for config tun pcap out
    using ends_and_then [OF tun_start_ends [OF assms(2) tun_parse_valid [OF that] assms(3)] tun_loop_ends [OF assms(2,1)]] by simp
  show ?thesis unfolding tun_main_def
    by (auto split: option.splits sum.splits intro!: print concludes_Ran run)
qed

section \<open>Properties\<close>


text \<open>A device that gives its frames one by one and keeps what is written, and a channel that is a list.\<close>

definition example_os :: "(bytes list \<times> bytes list, bytes, bytes, AppEvent list) os" where
  "example_os =
     \<lparr> os_read = (\<lambda>(inbox, outbox) n. case inbox of
         [] \<Rightarrow> (([], outbox), Inl WouldBlock)
       | b # bs \<Rightarrow> ((bs, outbox), Inr (take n b))),
       os_write = (\<lambda>(inbox, outbox) b. ((inbox, outbox @ [b]), Inr ())),
       os_record = (\<lambda>f b. (f @ b, Inr ())),
       os_now = (\<lambda>f. (f, Inr (1000, 0))),
       os_print = (\<lambda>f b. (f @ b, Inr ())),
       os_flush = (\<lambda>f. (f, Inr ())),
       os_eprint = (\<lambda>f b. (f @ b, Inr ())),
       os_recv = (\<lambda>q. case q of [] \<Rightarrow> ([], None) | x # xs \<Rightarrow> (xs, Some x)) \<rparr>"

lemma example_os_ok: "os_ok example_os (\<lambda>f. length (fst f)) length (\<lambda>q. sum_list (map event_bytes q))"
  by (auto simp: os_ok_def example_os_def writable_def split: list.splits)

definition example_open :: "(bytes list \<times> bytes list, bytes) os_open" where
  "example_open =
     \<lparr> os_opened = Inr ([[1, 2, 3], []], []), os_ioctl = (\<lambda>f n r. (r, 0, Other)), os_getfl = (\<lambda>f. (2, Other)),
       os_setfl = (\<lambda>f n. (f, 0, Other)), os_create = (\<lambda>path. Inr []) \<rparr>"


end
