(* ===== verification/Router.thy ===== *)
theory Router
  imports Network_Interface
begin

text \<open>
  \<open>src/router.rs\<close>: forwarding between interfaces by longest prefix match. The loop that drains the
  datagrams of an interface calls the forwarding that may in turn change every interface; it is a
  partial function whose value would be \<^const>\<open>None\<close> if it did not end.
\<close>

unbundle bit_operations_syntax

section \<open>Model\<close>

record Route =
  rt_route_prefix :: Ipv4AddrBytes
  rt_prefix_length :: byte
  rt_next_hop :: "Ipv4AddrBytes option"
  rt_interface_num :: nat

record Router =
  ro_interfaces :: "NetworkInterface list"
  ro_routes :: "Route list"

definition Router_new :: Router where
  "Router_new = \<lparr> ro_interfaces = [], ro_routes = [] \<rparr>"

definition Router_add_interface :: "Router \<Rightarrow> NetworkInterface \<Rightarrow> Router \<times> nat" where
  "Router_add_interface self interface =
     (let interface_num = length (ro_interfaces self)
      in (self\<lparr> ro_interfaces := ro_interfaces self @ [interface] \<rparr>, interface_num))"

definition Router_interface :: "Router \<Rightarrow> nat \<Rightarrow> NetworkInterface option" where
  "Router_interface self interface_num =
     (if interface_num < length (ro_interfaces self) then Some (ro_interfaces self ! interface_num) else None)"

definition Router_add_route ::
  "Router \<Rightarrow> Ipv4AddrBytes \<Rightarrow> byte \<Rightarrow> Ipv4AddrBytes option \<Rightarrow> nat \<Rightarrow> Router run" where
  "Router_add_route self route_prefix prefix_length next_hop interface_num = do {
     _ \<leftarrow> ensure (prefix_length \<le> 32);
     Some (self\<lparr> ro_routes := ro_routes self @
       [\<lparr> rt_route_prefix = route_prefix, rt_prefix_length = prefix_length, rt_next_hop = next_hop,
          rt_interface_num = interface_num \<rparr>] \<rparr>)
   }"

text \<open>The shift panics when the difference underflows or reaches the width.\<close>

definition prefix_mask :: "byte \<Rightarrow> u32 run" where
  "prefix_mask prefix_length =
     (if prefix_length = 0 then Some 0
      else do {
        n \<leftarrow> sub64 32 (unat prefix_length);
        _ \<leftarrow> ensure (n < 32);
        Some (push_bit n (- 1))
      })"

definition addr32 :: "Ipv4AddrBytes \<Rightarrow> u32" where
  "addr32 = (\<lambda>(a, b, c, d). from_be32 a b c d)"

definition Route_matches :: "Route \<Rightarrow> Ipv4AddrBytes \<Rightarrow> bool run" where
  "Route_matches self destination = do {
     mask \<leftarrow> prefix_mask (rt_prefix_length self);
     let prefix = addr32 (rt_route_prefix self);
     let destination = addr32 destination;
     Some (prefix AND mask = destination AND mask)
   }"

fun find_best :: "Route list \<Rightarrow> Ipv4AddrBytes \<Rightarrow> Route option \<Rightarrow> Route option run" where
  "find_best [] destination best = Some best"
| "find_best (route # routes) destination best = do {
     m \<leftarrow> Route_matches route destination;
     let best = (if m \<and> (case best of None \<Rightarrow> True
                          | Some b \<Rightarrow> rt_prefix_length route > rt_prefix_length b)
                 then Some route else best);
     find_best routes destination best
   }"

definition Router_find_route :: "Router \<Rightarrow> Ipv4AddrBytes \<Rightarrow> Route option run" where
  "Router_find_route self destination = find_best (ro_routes self) destination None"

definition Router_route_one_datagram :: "Router \<Rightarrow> Ipv4Datagram \<Rightarrow> Router run" where
  "Router_route_one_datagram self datagram =
     (if ih_ttl (dg_header datagram) \<le> 1 then Some self
      else do {
        let destination = ih_dst (dg_header datagram);
        found \<leftarrow> Router_find_route self destination;
        (case found of
           None \<Rightarrow> Some self
         | Some route \<Rightarrow> do {
             let interface_num = rt_interface_num route;
             let next_hop = (case rt_next_hop route of None \<Rightarrow> destination | Some hop \<Rightarrow> hop);
             (case Router_interface self interface_num of
                None \<Rightarrow> Some self
              | Some interface \<Rightarrow> do {
                  let header = dg_header datagram;
                  let datagram = datagram\<lparr> dg_header := header\<lparr> ih_ttl := ih_ttl header - 1 \<rparr> \<rparr>;
                  interface \<leftarrow> NetworkInterface_send_datagram interface datagram next_hop;
                  Some (self\<lparr> ro_interfaces := (ro_interfaces self)[interface_num := interface] \<rparr>)
                })
           })
      })"

partial_function (option) Router_drain :: "Router \<Rightarrow> nat \<Rightarrow> Router run" where
  "Router_drain self interface_num =
     (case Router_interface self interface_num of
        None \<Rightarrow> None
      | Some interface \<Rightarrow>
          (case NetworkInterface_pop_datagram interface of
             (interface, popped) \<Rightarrow>
               (let self = self\<lparr> ro_interfaces := (ro_interfaces self)[interface_num := interface] \<rparr>
                in case popped of
                     None \<Rightarrow> Some self
                   | Some datagram \<Rightarrow>
                       Option.bind (Router_route_one_datagram self datagram)
                         (\<lambda>self. Router_drain self interface_num))))"

declare Router_drain.simps [code]

definition Router_route :: "Router \<Rightarrow> Router run" where
  "Router_route self = run_all Router_drain self [0..<length (ro_interfaces self)]"

section \<open>Longest prefix match\<close>

text \<open>A route covers a destination if the two agree on the leading \<open>prefix_length\<close> bits.\<close>

definition covers :: "Route \<Rightarrow> Ipv4AddrBytes \<Rightarrow> bool" where
  "covers r dst \<longleftrightarrow> drop_bit (32 - unat (rt_prefix_length r)) (addr32 (rt_route_prefix r)) =
     drop_bit (32 - unat (rt_prefix_length r)) (addr32 dst)"

text \<open>The first among the covering routes of maximal prefix length.\<close>

definition is_best :: "Route list \<Rightarrow> Ipv4AddrBytes \<Rightarrow> Route option \<Rightarrow> bool" where
  "is_best rs dst best \<longleftrightarrow>
     (case best of
        None \<Rightarrow> \<forall>r \<in> set rs. \<not> covers r dst
      | Some b \<Rightarrow> \<exists>i < length rs. rs ! i = b \<and> covers b dst \<and>
          (\<forall>j < length rs. covers (rs ! j) dst \<longrightarrow>
             rt_prefix_length (rs ! j) \<le> rt_prefix_length b \<and>
             (j < i \<longrightarrow> rt_prefix_length (rs ! j) < rt_prefix_length b)))"

lemma mask_eq_iff:
  fixes p d :: u32
  assumes "n \<le> 32"
  shows "p AND push_bit n (- 1) = d AND push_bit n (- 1) \<longleftrightarrow> drop_bit n p = drop_bit n d"
proof -
  have "p AND push_bit n (- 1) = d AND push_bit n (- 1) \<longleftrightarrow> (\<forall>k<32. n \<le> k \<longrightarrow> bit p k = bit d k)"
    by (auto simp: bit_eq_iff bit_simps)
  also have "\<dots> \<longleftrightarrow> drop_bit n p = drop_bit n d"
  proof
    assume "\<forall>k<32. n \<le> k \<longrightarrow> bit p k = bit d k"
    moreover have "\<not> bit p k" "\<not> bit d k" if "\<not> k < 32" for k
      using that bit_imp_le_length [of p k] bit_imp_le_length [of d k] by auto
    ultimately have "bit p (n + k) = bit d (n + k)" for k by (cases "n + k < 32") auto
    then show "drop_bit n p = drop_bit n d" by (simp add: bit_eq_iff bit_drop_bit_eq)
  next
    assume eq: "drop_bit n p = drop_bit n d"
    show "\<forall>k<32. n \<le> k \<longrightarrow> bit p k = bit d k"
    proof (intro allI impI)
      fix k :: nat
      assume "k < 32" "n \<le> k"
      have "bit (drop_bit n p) (k - n) = bit (drop_bit n d) (k - n)" using eq by simp
      then show "bit p k = bit d k" using \<open>n \<le> k\<close> by (simp add: bit_simps)
    qed
  qed
  finally show ?thesis .
qed

lemma matches_eq:
  assumes "rt_prefix_length r \<le> 32"
  shows "Route_matches r dst = Some (covers r dst)"
proof -
  have le: "unat (rt_prefix_length r) \<le> 32" using assms by (simp add: word_le_nat_alt)
  show ?thesis
  proof (cases "rt_prefix_length r = 0")
    case True
    have "drop_bit 32 (x :: u32) = 0" for x by (auto simp: bit_eq_iff bit_simps dest: bit_imp_le_length)
    then show ?thesis using True by (simp add: Route_matches_def prefix_mask_def covers_def)
  next
    case False
    then have "unat (rt_prefix_length r) > 0" by (simp add: unat_gt_0)
    then have "prefix_mask (rt_prefix_length r) = Some (push_bit (32 - unat (rt_prefix_length r)) (- 1))"
      using le False by (simp add: prefix_mask_def sub64_def ensure_def)
    then show ?thesis
      by (simp add: Route_matches_def covers_def mask_eq_iff del: push_bit_minus_one_eq_not_mask)
  qed
qed

lemma is_best_snoc:
  assumes "is_best rs dst best"
  shows "is_best (rs @ [r]) dst
    (if covers r dst \<and> (case best of None \<Rightarrow> True | Some b \<Rightarrow> rt_prefix_length r > rt_prefix_length b)
     then Some r else best)"
proof (cases best)
  case None
  then show ?thesis using assms
    by (auto simp: is_best_def nth_append less_Suc_eq intro!: exI [of _ "length rs"])
next
  case (Some b)
  obtain i where i: "i < length rs" "rs ! i = b" "covers b dst"
    "\<And>j. j < length rs \<Longrightarrow> covers (rs ! j) dst \<Longrightarrow> rt_prefix_length (rs ! j) \<le> rt_prefix_length b"
    "\<And>j. j < length rs \<Longrightarrow> covers (rs ! j) dst \<Longrightarrow> j < i \<Longrightarrow> rt_prefix_length (rs ! j) < rt_prefix_length b"
    using assms Some unfolding is_best_def by auto
  show ?thesis
  proof (cases "covers r dst \<and> rt_prefix_length r > rt_prefix_length b")
    case True
    then have "rt_prefix_length (rs ! j) < rt_prefix_length r" if "j < length rs" "covers (rs ! j) dst" for j
      using i(4) [OF that] by (rule_tac le_less_trans) auto
    then show ?thesis using True Some
      by (auto simp: is_best_def nth_append less_Suc_eq less_imp_le intro!: exI [of _ "length rs"])
  next
    case False
    then show ?thesis using Some i
      by (auto simp: is_best_def nth_append less_Suc_eq not_less intro!: exI [of _ i])
  qed
qed

lemma find_best_eq:
  assumes "\<forall>r \<in> set rs. rt_prefix_length r \<le> 32" and "is_best seen dst best"
  shows "\<exists>best'. find_best rs dst best = Some best' \<and> is_best (seen @ rs) dst best'"
  using assms
proof (induction rs arbitrary: seen best)
  case Nil
  then show ?case by simp
next
  case (Cons r rs)
  have "Route_matches r dst = Some (covers r dst)" using Cons.prems(1) by (intro matches_eq) simp
  then show ?case using Cons.IH [OF _ is_best_snoc [OF Cons.prems(2), of r]] Cons.prems(1) by (simp add: Let_def)
qed

lemma find_route_best:
  assumes "\<forall>r \<in> set (ro_routes ro). rt_prefix_length r \<le> 32"
  shows "\<exists>best. Router_find_route ro dst = Some best \<and> is_best (ro_routes ro) dst best"
  using find_best_eq [OF assms, of "[]" dst None] by (simp add: Router_find_route_def is_best_def)

section \<open>Forwarding\<close>

definition ni_ok :: "NetworkInterface \<Rightarrow> bool" where
  "ni_ok ni \<longleftrightarrow> ni_inv ni \<and> (\<forall>d \<in> set (ni_datagrams_in ni). ip_fits d)"

definition router_ok :: "Router \<Rightarrow> bool" where
  "router_ok r \<longleftrightarrow> (\<forall>ni \<in> set (ro_interfaces r). ni_ok ni) \<and> (\<forall>rt \<in> set (ro_routes r). rt_prefix_length rt \<le> 32)"

text \<open>
  Where a datagram goes: the outgoing interface, the datagram with its TTL decremented, and the
  next hop.
\<close>

definition forwards :: "Router \<Rightarrow> Ipv4Datagram \<Rightarrow> (nat \<times> Ipv4Datagram \<times> Ipv4AddrBytes) option" where
  "forwards r d =
     (if ih_ttl (dg_header d) \<le> 1 then None
      else case the (Router_find_route r (ih_dst (dg_header d))) of
        None \<Rightarrow> None
      | Some rt \<Rightarrow>
          if rt_interface_num rt < length (ro_interfaces r)
          then Some (rt_interface_num rt,
                     d\<lparr> dg_header := (dg_header d)\<lparr> ih_ttl := ih_ttl (dg_header d) - 1 \<rparr> \<rparr>,
                     case rt_next_hop rt of None \<Rightarrow> ih_dst (dg_header d) | Some hop \<Rightarrow> hop)
          else None)"

definition outgoing :: "Router \<Rightarrow> nat \<Rightarrow> Ipv4Datagram list \<Rightarrow> (Ipv4Datagram \<times> Ipv4AddrBytes) list" where
  "outgoing r j ds = concat (map (\<lambda>d. case forwards r d of
     None \<Rightarrow> [] | Some (i, d', hop) \<Rightarrow> if i = j then [(d', hop)] else []) ds)"

definition send_all :: "NetworkInterface \<Rightarrow> (Ipv4Datagram \<times> Ipv4AddrBytes) list \<Rightarrow> NetworkInterface run" where
  "send_all ni out = run_all (\<lambda>ni (d, hop). NetworkInterface_send_datagram ni d hop) ni out"

abbreviation emptied :: "NetworkInterface \<Rightarrow> NetworkInterface" where
  "emptied ni \<equiv> ni\<lparr>ni_datagrams_in := []\<rparr>"

definition same_table :: "Router \<Rightarrow> Router \<Rightarrow> bool" where
  "same_table r r' \<longleftrightarrow> ro_routes r' = ro_routes r \<and> length (ro_interfaces r') = length (ro_interfaces r)"

lemma same_table_trans: "same_table a b \<Longrightarrow> same_table b c \<Longrightarrow> same_table a c"
  by (simp add: same_table_def)

lemma same_table_outgoing: "same_table r r' \<Longrightarrow> outgoing r' = outgoing r"
proof -
  assume st: "same_table r r'"
  then have eqs: "length (ro_interfaces r') = length (ro_interfaces r)" "Router_find_route r' = Router_find_route r"
    by (auto simp: same_table_def Router_find_route_def fun_eq_iff)
  have "forwards r' = forwards r" by (rule ext) (unfold forwards_def eqs, rule refl)
  then show ?thesis unfolding outgoing_def by simp
qed

lemma outgoing_append: "outgoing r j (xs @ ys) = outgoing r j xs @ outgoing r j ys"
  by (simp add: outgoing_def)

lemma outgoing_Nil [simp]: "outgoing r j [] = []"
  by (simp add: outgoing_def)

lemma send_all_append: "send_all ni (xs @ ys) = Option.bind (send_all ni xs) (\<lambda>ni. send_all ni ys)"
  by (simp add: send_all_def run_all_append)

lemma send_all_Nil [simp]: "send_all ni [] = Some ni"
  by (simp add: send_all_def)

text \<open>One datagram: every interface sends exactly what goes out through it.\<close>

definition forwarded :: "Router \<Rightarrow> Ipv4Datagram list \<Rightarrow> Router \<Rightarrow> bool" where
  "forwarded r ds r' \<longleftrightarrow> same_table r r' \<and> router_ok r' \<and>
     (\<forall>j < length (ro_interfaces r). send_all (emptied (ro_interfaces r ! j)) (outgoing r j ds) =
        Some (emptied (ro_interfaces r' ! j)))"

lemma forwarded_trans:
  assumes "forwarded r xs r'" and "forwarded r' ys r''"
  shows "forwarded r (xs @ ys) r''"
  using assms same_table_outgoing [of r r']
  by (auto simp: forwarded_def same_table_def outgoing_append send_all_append)

lemma route_one_forwards:
  assumes "router_ok r" and "ip_fits d"
  shows "\<exists>r'. Router_route_one_datagram r d = Some r' \<and> forwarded r [d] r' \<and>
    (\<forall>j < length (ro_interfaces r). ni_datagrams_in (ro_interfaces r' ! j) = ni_datagrams_in (ro_interfaces r ! j))"
proof (cases "forwards r d")
  case None
  obtain best where "Router_find_route r (ih_dst (dg_header d)) = Some best"
    using find_route_best assms(1) unfolding router_ok_def by blast
  then have "Router_route_one_datagram r d = Some r"
    using None by (auto simp: Router_route_one_datagram_def forwards_def Router_interface_def Let_def split: if_splits option.splits)
  then show ?thesis using None assms(1) by (simp add: forwarded_def same_table_def outgoing_def)
next
  case (Some t)
  obtain i d' hop where t: "t = (i, d', hop)" by (cases t)
  let ?ni = "ro_interfaces r ! i"
  have i: "i < length (ro_interfaces r)" and fits: "ip_fits d'"
    using Some t assms(2) by (auto simp: forwards_def ip_fits_def split: if_splits option.splits)
  have ok: "ni_ok ?ni" using assms(1) i by (simp add: router_ok_def)
  obtain ni' where ni': "NetworkInterface_send_datagram ?ni d' hop = Some ni'"
    using send_cases [of ?ni d' hop] ok fits by (auto simp: ni_ok_def)
  have in': "ni_datagrams_in ni' = ni_datagrams_in ?ni" and ok': "ni_ok ni'"
    using send_keeps_in [OF _ fits ni'] send_inv [OF _ fits ni'] ok by (auto simp: ni_ok_def)
  define r' where "r' = r\<lparr>ro_interfaces := (ro_interfaces r)[i := ni']\<rparr>"
  obtain best where best: "Router_find_route r (ih_dst (dg_header d)) = Some best"
    using find_route_best assms(1) unfolding router_ok_def by blast
  have "Router_route_one_datagram r d = Some r'"
    using Some t ni' best unfolding r'_def Router_route_one_datagram_def forwards_def Router_interface_def Let_def
    by (auto split: if_splits option.splits)
  moreover have "send_all (emptied (ro_interfaces r ! j)) (outgoing r j [d]) = Some (emptied (ro_interfaces r' ! j))"
    if "j < length (ro_interfaces r)" for j
    using Some t ni' send_ignores_in [OF _ fits, of ?ni "[]" hop] ok i
    by (cases "i = j") (auto simp: outgoing_def send_all_def r'_def ni_ok_def)
  moreover have "router_ok r'"
    using assms(1) ok' unfolding router_ok_def r'_def by (auto dest!: set_update_subset_insert [THEN subsetD])
  ultimately show ?thesis using in' i
    by (auto simp: forwarded_def same_table_def r'_def nth_list_update)
qed

lemma drain_unfold:
  assumes "i < length (ro_interfaces r)"
  shows "Router_drain r i = (case ni_datagrams_in (ro_interfaces r ! i) of
      [] \<Rightarrow> Some r
    | d # ds \<Rightarrow> Option.bind (Router_route_one_datagram
        (r\<lparr>ro_interfaces := (ro_interfaces r)[i := (ro_interfaces r ! i)\<lparr>ni_datagrams_in := ds\<rparr>]\<rparr>) d)
        (\<lambda>r. Router_drain r i))"
  using assms by (subst Router_drain.simps)
    (auto simp: Router_interface_def NetworkInterface_pop_datagram_def split: list.splits)

text \<open>Draining an interface ends, and forwards all that had arrived on it.\<close>

lemma drain_forwards:
  assumes "router_ok r" and "i < length (ro_interfaces r)" and "ni_datagrams_in (ro_interfaces r ! i) = ds"
  shows "\<exists>r'. Router_drain r i = Some r' \<and> forwarded r ds r' \<and> ni_datagrams_in (ro_interfaces r' ! i) = [] \<and>
    (\<forall>j < length (ro_interfaces r). j \<noteq> i \<longrightarrow> ni_datagrams_in (ro_interfaces r' ! j) = ni_datagrams_in (ro_interfaces r ! j))"
  using assms
proof (induction ds arbitrary: r)
  case Nil
  then show ?case by (simp add: drain_unfold forwarded_def same_table_def)
next
  case (Cons d ds)
  let ?ni = "ro_interfaces r ! i"
  define r0 where "r0 = r\<lparr>ro_interfaces := (ro_interfaces r)[i := ?ni\<lparr>ni_datagrams_in := ds\<rparr>]\<rparr>"
  have "ni_ok ?ni" using Cons.prems by (simp add: router_ok_def)
  then have ok0: "ni_ok (?ni\<lparr>ni_datagrams_in := ds\<rparr>)" and fits: "ip_fits d"
    using Cons.prems(3) by (simp_all add: ni_ok_def ni_inv_datagrams)
  then have r0: "router_ok r0" using Cons.prems(1)
    unfolding router_ok_def r0_def by (auto dest!: set_update_subset_insert [THEN subsetD])
  have fw0: "forwarded r [] r0"
    using r0 Cons.prems(2) by (auto simp: forwarded_def same_table_def r0_def nth_list_update)
  obtain r1 where r1: "Router_route_one_datagram r0 d = Some r1" "forwarded r0 [d] r1"
    "\<forall>j < length (ro_interfaces r0). ni_datagrams_in (ro_interfaces r1 ! j) = ni_datagrams_in (ro_interfaces r0 ! j)"
    using route_one_forwards [OF r0 fits] by blast
  have len: "length (ro_interfaces r1) = length (ro_interfaces r)" "length (ro_interfaces r0) = length (ro_interfaces r)"
    and ok1: "router_ok r1"
    using r1(2) by (auto simp: forwarded_def same_table_def r0_def)
  obtain r' where r': "Router_drain r1 i = Some r'" "forwarded r1 ds r'" "ni_datagrams_in (ro_interfaces r' ! i) = []"
    "\<forall>j < length (ro_interfaces r1). j \<noteq> i \<longrightarrow> ni_datagrams_in (ro_interfaces r' ! j) = ni_datagrams_in (ro_interfaces r1 ! j)"
    using Cons.IH [OF ok1] r1(3) len Cons.prems(2) by (auto simp: r0_def)
  have "forwarded r (d # ds) r'"
    using forwarded_trans [OF fw0 forwarded_trans [OF r1(2) r'(2)]] by simp
  moreover have "Router_drain r i = Some r'"
    using drain_unfold [OF Cons.prems(2)] Cons.prems(3) r1(1) r'(1) by (simp add: r0_def)
  ultimately show ?case using r'(3,4) r1(3) len by (auto simp: r0_def)
qed

lemma drain_all_forwards:
  assumes "router_ok r" and "distinct is" and "\<forall>i \<in> set is. i < length (ro_interfaces r)"
  shows "\<exists>r'. run_all Router_drain r is = Some r' \<and>
    forwarded r (concat (map (\<lambda>i. ni_datagrams_in (ro_interfaces r ! i)) is)) r' \<and>
    (\<forall>j < length (ro_interfaces r). ni_datagrams_in (ro_interfaces r' ! j) =
       (if j \<in> set is then [] else ni_datagrams_in (ro_interfaces r ! j)))"
  using assms
proof (induction "is" arbitrary: r)
  case Nil
  then show ?case by (simp add: forwarded_def same_table_def)
next
  case (Cons i ks)
  obtain r1 where r1: "Router_drain r i = Some r1" "forwarded r (ni_datagrams_in (ro_interfaces r ! i)) r1"
    "ni_datagrams_in (ro_interfaces r1 ! i) = []"
    "\<forall>j < length (ro_interfaces r). j \<noteq> i \<longrightarrow> ni_datagrams_in (ro_interfaces r1 ! j) = ni_datagrams_in (ro_interfaces r ! j)"
    using drain_forwards [OF Cons.prems(1), of i] Cons.prems(3) by auto
  have ok1: "router_ok r1" and len: "length (ro_interfaces r1) = length (ro_interfaces r)"
    using r1(2) by (auto simp: forwarded_def same_table_def)
  obtain r' where r': "run_all Router_drain r1 ks = Some r'"
    "forwarded r1 (concat (map (\<lambda>i. ni_datagrams_in (ro_interfaces r1 ! i)) ks)) r'"
    "\<forall>j < length (ro_interfaces r1). ni_datagrams_in (ro_interfaces r' ! j) =
       (if j \<in> set ks then [] else ni_datagrams_in (ro_interfaces r1 ! j))"
    using Cons.IH [OF ok1] Cons.prems len by auto
  have "map (\<lambda>i. ni_datagrams_in (ro_interfaces r1 ! i)) ks = map (\<lambda>i. ni_datagrams_in (ro_interfaces r ! i)) ks"
    using r1(4) Cons.prems by (intro map_cong) auto
  note eq = this
  have "forwarded r (concat (map (\<lambda>i. ni_datagrams_in (ro_interfaces r ! i)) (i # ks))) r'"
    using forwarded_trans [OF r1(2) r'(2)] unfolding eq by simp
  then show ?case using r1 r' len by auto
qed

lemma route_forwards:
  assumes "router_ok r"
  shows "\<exists>r'. Router_route r = Some r' \<and> forwarded r (concat (map ni_datagrams_in (ro_interfaces r))) r' \<and>
    (\<forall>j < length (ro_interfaces r). ni_datagrams_in (ro_interfaces r' ! j) = [])"
proof -
  have "map (\<lambda>i. ni_datagrams_in (ro_interfaces r ! i)) [0..<length (ro_interfaces r)] =
      map ni_datagrams_in (ro_interfaces r)"
    by (rule nth_equalityI) simp_all
  then show ?thesis
    using drain_all_forwards [OF assms, of "[0..<length (ro_interfaces r)]"] by (auto simp: Router_route_def)
qed

section \<open>Executions\<close>

text \<open>
  Setting up the router, calls on one of its interfaces (through \<open>interface_mut\<close>) and routing, in any
  order.
\<close>

datatype router_op =
    RAddInterface EthernetAddress Ipv4AddrBytes
  | RAddRoute Ipv4AddrBytes byte "Ipv4AddrBytes option" nat
  | RInterface nat ni_op
  | RRoute

fun router_step :: "(bytes \<Rightarrow> Ipv4FixedHeader option) \<Rightarrow> Router \<Rightarrow> router_op \<Rightarrow> Router run" where
  "router_step view r (RAddInterface eth ip) = Some (fst (Router_add_interface r (NetworkInterface_new eth ip)))"
| "router_step view r (RAddRoute prefix len hop n) = Router_add_route r prefix len hop n"
| "router_step view r (RInterface n call) =
     (case Router_interface r n of
        None \<Rightarrow> Some r
      | Some ni \<Rightarrow> do {
          t \<leftarrow> ni_step view (ni, 0, []) call;
          Some (r\<lparr> ro_interfaces := (ro_interfaces r)[n := fst t] \<rparr>)
        })"
| "router_step view r RRoute = Router_route r"

fun router_pre :: "Router \<Rightarrow> router_op \<Rightarrow> bool" where
  "router_pre r (RAddRoute prefix len hop n) = (len \<le> 32)"
| "router_pre r (RInterface n (NSend d ip)) = ip_fits d"
| "router_pre r _ = True"

lemma ni_step_ok:
  assumes "layout_ok view" and "ni_ok ni" and "\<And>d ip. call = NSend d ip \<Longrightarrow> ip_fits d"
  shows "\<exists>t. ni_step view (ni, 0, []) call = Some t \<and> ni_ok (fst t)"
proof -
  have pre: "ni_run_inv (ni, 0, [])" and ok: "ni_inv ni" "\<forall>d \<in> set (ni_datagrams_in ni). ip_fits d"
    using assms(2) by (simp_all add: ni_run_inv_def ni_ok_def spaced_def)
  have "ni_pre (ni, 0, []) call" using assms(3) by (cases call) simp_all
  note pre = pre this
  obtain ni' now log where t: "ni_step view (ni, 0, []) call = Some (ni', now, log)" "ni_inv ni'"
    using ni_step_safe [OF assms(1) pre] by (auto simp: ni_run_inv_def)
  have "\<forall>d \<in> set (ni_datagrams_in ni'). ip_fits d"
  proof (cases call)
    case (NSend d ip)
    then have "NetworkInterface_send_datagram ni d ip = Some ni'" using t(1) by (auto simp: bind_eq_Some_conv)
    then show ?thesis using send_keeps_in [OF ok(1) assms(3) [OF NSend]] ok(2) by simp
  next
    case (NRecv f)
    then show ?thesis using t(1) recv_fits [OF ok(1) _ ok(2)] by (auto simp: bind_eq_Some_conv)
  qed (use t(1) ok in \<open>auto simp: NetworkInterface_tick_def NetworkInterface_pop_frame_def
      NetworkInterface_pop_datagram_def split: list.splits\<close>)
  then show ?thesis using t by (simp add: ni_ok_def)
qed

lemma router_step_safe:
  assumes "layout_ok view" and "router_ok r" and "router_pre r x"
  shows "\<exists>r'. router_step view r x = Some r' \<and> router_ok r'"
proof (cases x)
  case (RAddInterface eth ip)
  have "ni_ok (NetworkInterface_new eth ip)" by (simp add: ni_ok_def ni_inv_new new_fields)
  then show ?thesis using RAddInterface assms(2) by (simp add: router_ok_def Router_add_interface_def Let_def)
next
  case (RAddRoute prefix len hop n)
  then show ?thesis using assms(2,3) by (auto simp: router_ok_def Router_add_route_def ensure_def)
next
  case (RInterface n call)
  show ?thesis
  proof (cases "n < length (ro_interfaces r)")
    case True
    have "ni_ok (ro_interfaces r ! n)" using assms(2) True by (simp add: router_ok_def)
    moreover have "ip_fits d" if "call = NSend d ip" for d ip using assms(3) RInterface that by simp
    ultimately obtain t where "ni_step view (ro_interfaces r ! n, 0, []) call = Some t" "ni_ok (fst t)"
      using ni_step_ok [OF assms(1)] by blast
    then show ?thesis using RInterface True assms(2) unfolding router_ok_def
      by (auto simp: Router_interface_def dest!: set_update_subset_insert [THEN subsetD])
  qed (use RInterface assms(2) in \<open>simp add: Router_interface_def\<close>)
next
  case RRoute
  then show ?thesis using route_forwards [OF assms(2)] by (auto simp: forwarded_def)
qed

interpretation router: safe_machine "router_step repr_c" router_ok router_pre
  by unfold_locales (use router_step_safe [OF layout_ok_repr_c] in fastforce)+

lemma router_safe_machine: "layout_ok view \<Longrightarrow> safe_machine (router_step view) router_ok router_pre"
  by unfold_locales (use router_step_safe in fastforce)+

section \<open>Properties\<close>

text \<open>
  C20. Longest prefix match: the lookup does not panic, finds nothing exactly when no route covers the
  destination, and otherwise returns a covering route of maximal prefix length, the first of them in the
  order in which they were added.
\<close>

theorem longest_prefix_match:
  assumes "\<forall>rt \<in> set (ro_routes r). rt_prefix_length rt \<le> 32"
  shows "\<exists>best. Router_find_route r dst = Some best \<and>
    (best = None \<longleftrightarrow> (\<forall>rt \<in> set (ro_routes r). \<not> covers rt dst)) \<and>
    (\<forall>b. best = Some b \<longrightarrow> (\<exists>i < length (ro_routes r). ro_routes r ! i = b \<and> covers b dst \<and>
       (\<forall>j < length (ro_routes r). covers (ro_routes r ! j) dst \<longrightarrow>
          rt_prefix_length (ro_routes r ! j) \<le> rt_prefix_length b \<and>
          (j < i \<longrightarrow> rt_prefix_length (ro_routes r ! j) < rt_prefix_length b))))"
proof -
  obtain best where best: "Router_find_route r dst = Some best" "is_best (ro_routes r) dst best"
    using find_route_best [OF assms] by blast
  have "best = None \<longleftrightarrow> (\<forall>rt \<in> set (ro_routes r). \<not> covers rt dst)"
    using best(2) by (cases best) (auto simp: is_best_def)
  moreover have "\<exists>i < length (ro_routes r). ro_routes r ! i = b \<and> covers b dst \<and>
       (\<forall>j < length (ro_routes r). covers (ro_routes r ! j) dst \<longrightarrow>
          rt_prefix_length (ro_routes r ! j) \<le> rt_prefix_length b \<and>
          (j < i \<longrightarrow> rt_prefix_length (ro_routes r ! j) < rt_prefix_length b))" if "best = Some b" for b
    using best(2) that by (simp add: is_best_def)
  ultimately show ?thesis using best(1) by blast
qed

definition example_router :: Router where
  "example_router = \<lparr> ro_interfaces = [NetworkInterface_new (2, 0, 0, 0, 0, 1) (10, 0, 0, 1)],
     ro_routes = [\<lparr> rt_route_prefix = (0, 0, 0, 0), rt_prefix_length = 0, rt_next_hop = Some (10, 0, 0, 254), rt_interface_num = 0 \<rparr>,
                  \<lparr> rt_route_prefix = (10, 0, 0, 0), rt_prefix_length = 8, rt_next_hop = None, rt_interface_num = 0 \<rparr>] \<rparr>"

theorem longest_prefix_match_witness:
  "\<exists>b. Router_find_route example_router (10, 0, 0, 9) = Some (Some b) \<and> rt_prefix_length b = 8"
proof -
  have "\<forall>rt \<in> set (ro_routes example_router). rt_prefix_length rt \<le> 32" by (simp add: example_router_def)
  from longest_prefix_match [OF this, of "(10, 0, 0, 9)"] obtain best where
    best: "Router_find_route example_router (10, 0, 0, 9) = Some best"
      "best = None \<longleftrightarrow> (\<forall>rt \<in> set (ro_routes example_router). \<not> covers rt (10, 0, 0, 9))"
      "\<And>b. best = Some b \<Longrightarrow> (\<exists>i < length (ro_routes example_router). ro_routes example_router ! i = b) \<and>
         (\<forall>j < length (ro_routes example_router). covers (ro_routes example_router ! j) (10, 0, 0, 9) \<longrightarrow>
            rt_prefix_length (ro_routes example_router ! j) \<le> rt_prefix_length b)"
    by blast
  have cov: "covers (ro_routes example_router ! 1) (10, 0, 0, 9)"
    by (simp add: covers_def example_router_def addr32_def from_be32_def drop_bit_eq_div)
  then have "best \<noteq> None" using best(2) by (auto simp: example_router_def)
  then obtain b where b: "best = Some b" by blast
  have "rt_prefix_length (ro_routes example_router ! 1) \<le> rt_prefix_length b"
    using best(3) [OF b] cov by (auto simp: example_router_def)
  then have "rt_prefix_length b = 8"
    using best(3) [OF b] by (auto simp: example_router_def less_Suc_eq)
  then show ?thesis using best(1) b by blast
qed

text \<open>
  C8. Routing forwards everything: one call of \<open>route\<close> terminates without a panic, leaves no datagram
  in any interface, and makes every interface send, in the order of arrival, exactly the datagrams whose
  best route leads to it, with the time to live decremented, to the gateway of the route or else to the
  destination itself. Datagrams whose time to live is used up or that have no route are dropped.
\<close>

theorem route_forwards_everything:
  assumes "router_ok r"
  shows "\<exists>r'. Router_route r = Some r' \<and> router_ok r' \<and> ro_routes r' = ro_routes r \<and>
    length (ro_interfaces r') = length (ro_interfaces r) \<and>
    (\<forall>j < length (ro_interfaces r). ni_datagrams_in (ro_interfaces r' ! j) = [] \<and>
       send_all ((ro_interfaces r ! j)\<lparr>ni_datagrams_in := []\<rparr>)
         (outgoing r j (concat (map ni_datagrams_in (ro_interfaces r)))) = Some (ro_interfaces r' ! j))"
proof -
  obtain r' where r': "Router_route r = Some r'" "forwarded r (concat (map ni_datagrams_in (ro_interfaces r))) r'"
    "\<forall>j < length (ro_interfaces r). ni_datagrams_in (ro_interfaces r' ! j) = []"
    using route_forwards [OF assms] by blast
  have "emptied ni = ni" if "ni_datagrams_in ni = []" for ni :: NetworkInterface using that by (cases ni) simp
  then show ?thesis using r' by (simp add: forwarded_def same_table_def)
qed

lemma example_router_ok: "router_ok example_router"
  by (simp add: router_ok_def example_router_def ni_ok_def ni_inv_new new_fields)

theorem route_forwards_everything_witness:
  "\<exists>r'. Router_route example_router = Some r' \<and> length (ro_interfaces r') = 1"
  using route_forwards_everything [OF example_router_ok] by (auto simp: example_router_def)

text \<open>
  C28. A router never panics, however it is configured (with prefix lengths up to 32), whatever frames
  its interfaces receive, and however receiving, sending, the passage of time and routing interleave.
\<close>

theorem router_never_panics:
  assumes "layout_ok ref_from_bytes" and "\<forall>x \<in> set ops. router_pre Router_new x"
  shows "\<exists>r. run_all (router_step ref_from_bytes) Router_new ops = Some r \<and> router_ok r"
proof -
  have "router_ok Router_new" by (simp add: router_ok_def Router_new_def)
  moreover have "router_pre s x = router_pre Router_new x" for s x by (cases "(Router_new, x)" rule: router_pre.cases) auto
  ultimately show ?thesis
    using safe_machine.run_safe_each [OF router_safe_machine [OF assms(1)], of ops Router_new] assms(2) by auto
qed

theorem router_never_panics_witness:
  "\<exists>r. run_all (router_step repr_c) Router_new [RAddInterface (2, 0, 0, 0, 0, 1) (10, 0, 0, 1),
     RAddRoute (10, 0, 0, 0) 8 None 0, RInterface 0 (NRecv example_frame), RRoute] = Some r \<and> router_ok r"
  using router_never_panics [OF layout_ok_repr_c, of "[RAddInterface (2, 0, 0, 0, 0, 1) (10, 0, 0, 1),
     RAddRoute (10, 0, 0, 0) 8 None 0, RInterface 0 (NRecv example_frame), RRoute]"] by simp

end
