(* ===== verification/Routed_Path.thy ===== *)
theory Routed_Path
  imports Router
begin

text \<open>
  Datagrams on their way through several routers: the network interface of the sender, the routers with
  their interfaces, and the network interface of the receiver, connected by links that carry frames.
\<close>

section \<open>Paths\<close>

text \<open>A router with the interfaces through which a path enters and leaves it.\<close>

type_synonym hop = "Router \<times> nat \<times> nat"

text \<open>
  Each router receives the frames that arrive and routes; what it adds to the frames of the outgoing
  interface arrives at the next router.
\<close>

fun carry :: "(bytes \<Rightarrow> Ipv4FixedHeader option) \<Rightarrow> hop list \<Rightarrow> EthernetFrame list \<Rightarrow> EthernetFrame list run" where
  "carry view [] fs = Some fs"
| "carry view ((r, i, j) # hops) fs = do {
     r' \<leftarrow> run_all (router_step view) r (map (\<lambda>f. RInterface i (NRecv f)) fs @ [RRoute]);
     carry view hops (drop (length (ni_frames_out (ro_interfaces r ! j))) (ni_frames_out (ro_interfaces r' ! j)))
   }"

text \<open>The Ethernet address to which the frames on the first link of a path are sent.\<close>

fun entry :: "hop list \<Rightarrow> NetworkInterface \<Rightarrow> EthernetAddress" where
  "entry [] b = ni_ethernet_address b"
| "entry ((r, i, j) # hops) b = ni_ethernet_address (ro_interfaces r ! i)"

text \<open>
  A router is ready for a destination if the longest matching prefix leads out through the interface of
  the path, to a next hop whose Ethernet address is known there.
\<close>

definition ready :: "Ipv4AddrBytes \<Rightarrow> hop \<Rightarrow> EthernetAddress \<Rightarrow> bool" where
  "ready dst = (\<lambda>(r, i, j) eth. router_ok r \<and> (\<forall>ni \<in> set (ro_interfaces r). ni_datagrams_in ni = []) \<and>
     i < length (ro_interfaces r) \<and> j < length (ro_interfaces r) \<and>
     (\<exists>rt. is_best (ro_routes r) dst (Some rt) \<and> rt_interface_num rt = j \<and>
        NetworkInterface_lookup_ethernet_address (ro_interfaces r ! j)
          (case rt_next_hop rt of None \<Rightarrow> dst | Some ip \<Rightarrow> ip) = Some eth))"

fun path_ok :: "Ipv4AddrBytes \<Rightarrow> hop list \<Rightarrow> NetworkInterface \<Rightarrow> bool" where
  "path_ok dst [] b = True"
| "path_ok dst (h # hops) b = (ready dst h (entry hops b) \<and> path_ok dst hops b)"

text \<open>What is left of datagrams after \<open>n\<close> routers: those with a higher TTL, which is lower by \<open>n\<close>.\<close>

definition aged :: "nat \<Rightarrow> Ipv4Datagram \<Rightarrow> Ipv4Datagram" where
  "aged n d = d\<lparr>dg_header := (dg_header d)\<lparr>ih_ttl := ih_ttl (dg_header d) - of_nat n\<rparr>\<rparr>"

definition survivors :: "nat \<Rightarrow> Ipv4Datagram list \<Rightarrow> Ipv4Datagram list" where
  "survivors n ds = (if n = 0 then ds else map (aged n) (filter (\<lambda>d. n < unat (ih_ttl (dg_header d))) ds))"

definition bound_for :: "Ipv4AddrBytes \<Rightarrow> Ipv4Datagram list \<Rightarrow> bool" where
  "bound_for dst ds \<longleftrightarrow> (\<forall>d \<in> set ds. ip_fits d \<and> ih_dst (dg_header d) = dst)"

lemma survivors_Suc: "survivors n (survivors 1 ds) = survivors (Suc n) ds"
proof -
  have "n < unat (ih_ttl (dg_header d) - 1) \<longleftrightarrow> Suc n < unat (ih_ttl (dg_header d))"
    if "1 < unat (ih_ttl (dg_header d))" for d
    using that by (subst unat_minus_one) auto
  then show ?thesis by (induction ds) (auto simp: survivors_def aged_def algebra_simps)
qed

lemma survivors_bound: "bound_for dst ds \<Longrightarrow> bound_for dst (survivors n ds)"
  by (auto simp: bound_for_def survivors_def aged_def ip_fits_def)

section \<open>One router\<close>

lemma is_best_unique:
  assumes "is_best rs dst x" and "is_best rs dst (Some b)"
  shows "x = Some b"
proof (cases x)
  case None
  then show ?thesis using assms by (auto simp: is_best_def)
next
  case (Some a)
  let ?len = "\<lambda>i. rt_prefix_length (rs ! i)"
  obtain i where i: "i < length rs" "rs ! i = a" "covers a dst"
    "\<forall>j < length rs. covers (rs ! j) dst \<longrightarrow> ?len j \<le> ?len i \<and> (j < i \<longrightarrow> ?len j < ?len i)"
    using assms(1) Some by (auto simp: is_best_def)
  obtain k where k: "k < length rs" "rs ! k = b" "covers b dst"
    "\<forall>j < length rs. covers (rs ! j) dst \<longrightarrow> ?len j \<le> ?len k \<and> (j < k \<longrightarrow> ?len j < ?len k)"
    using assms(2) by (auto simp: is_best_def)
  have "i = k" using i k by (meson leD linorder_neqE_nat)
  then show ?thesis using i k Some by simp
qed

lemma ready_forwards:
  assumes "ready (ih_dst (dg_header d)) (r, i, j) eth"
  shows "\<exists>ip. NetworkInterface_lookup_ethernet_address (ro_interfaces r ! j) ip = Some eth \<and>
    forwards r d = (if ih_ttl (dg_header d) \<le> 1 then None else Some (j, aged 1 d, ip))"
proof -
  from assms obtain rt where rt: "is_best (ro_routes r) (ih_dst (dg_header d)) (Some rt)" "rt_interface_num rt = j"
    "j < length (ro_interfaces r)" "\<forall>rt \<in> set (ro_routes r). rt_prefix_length rt \<le> 32"
    "NetworkInterface_lookup_ethernet_address (ro_interfaces r ! j)
       (case rt_next_hop rt of None \<Rightarrow> ih_dst (dg_header d) | Some ip \<Rightarrow> ip) = Some eth"
    by (auto simp: ready_def router_ok_def)
  then have "Router_find_route r (ih_dst (dg_header d)) = Some (Some rt)"
    using find_route_best [OF rt(4), of "ih_dst (dg_header d)"] is_best_unique by blast
  then show ?thesis using rt
    by (intro exI [of _ "case rt_next_hop rt of None \<Rightarrow> ih_dst (dg_header d) | Some ip \<Rightarrow> ip"]) (simp add: forwards_def aged_def)
qed

lemma ready_outgoing:
  assumes "bound_for dst ds" and "ready dst (r, i, j) eth"
  shows "\<exists>ips. length ips = length (survivors 1 ds) \<and> outgoing r j ds = zip (survivors 1 ds) ips \<and>
    (\<forall>ip \<in> set ips. NetworkInterface_lookup_ethernet_address (ro_interfaces r ! j) ip = Some eth)"
  using assms(1)
proof (induction ds)
  case Nil
  then show ?case by (simp add: survivors_def)
next
  case (Cons d ds)
  have d: "ready (ih_dst (dg_header d)) (r, i, j) eth" "bound_for dst ds" using Cons.prems assms(2) by (auto simp: bound_for_def)
  obtain ip where ip: "NetworkInterface_lookup_ethernet_address (ro_interfaces r ! j) ip = Some eth"
    "forwards r d = (if ih_ttl (dg_header d) \<le> 1 then None else Some (j, aged 1 d, ip))"
    using ready_forwards [OF d(1)] by blast
  obtain ips where ips: "length ips = length (survivors 1 ds)" "outgoing r j ds = zip (survivors 1 ds) ips"
    "\<forall>ip \<in> set ips. NetworkInterface_lookup_ethernet_address (ro_interfaces r ! j) ip = Some eth"
    using Cons.IH [OF d(2)] by blast
  show ?case
  proof (cases "ih_ttl (dg_header d) \<le> 1")
    case True
    then have "survivors 1 (d # ds) = survivors 1 ds" by (auto simp: survivors_def word_le_nat_alt)
    then show ?thesis using True ip ips by (intro exI [of _ ips]) (auto simp: outgoing_def)
  next
    case False
    then have "survivors 1 (d # ds) = aged 1 d # survivors 1 ds" by (auto simp: survivors_def word_le_nat_alt)
    then show ?thesis using False ip ips by (intro exI [of _ "ip # ips"]) (auto simp: outgoing_def)
  qed
qed

text \<open>An interface sends to known addresses at once.\<close>

lemma send_all_known:
  assumes "ni_inv ni" and "\<forall>d \<in> set ds. ip_fits d" and "length ips = length ds"
    and "\<forall>ip \<in> set ips. NetworkInterface_lookup_ethernet_address ni ip = Some eth"
  shows "send_all ni (zip ds ips) = Some (ni\<lparr>ni_frames_out := ni_frames_out ni @ map (ip_frame ni eth) ds\<rparr>)"
  using assms
proof (induction ds arbitrary: ni ips)
  case Nil
  then show ?case by (simp add: send_all_def)
next
  case (Cons d ds)
  then obtain ip ips' where ips: "ips = ip # ips'" by (cases ips) auto
  let ?ni = "ni\<lparr>ni_frames_out := ni_frames_out ni @ [ip_frame ni eth d]\<rparr>"
  have "NetworkInterface_send_datagram ni d ip = Some ?ni"
    using send_cases [OF Cons.prems(1), of d ip] Cons.prems(2) Cons.prems(4) ips
    by (auto simp: NetworkInterface_lookup_ethernet_address_def)
  moreover have "send_all ?ni (zip ds ips') = Some (?ni\<lparr>ni_frames_out := ni_frames_out ?ni @ map (ip_frame ?ni eth) ds\<rparr>)"
    using Cons.prems ips by (intro Cons.IH) (auto simp: ni_inv_frames NetworkInterface_lookup_ethernet_address_def)
  ultimately show ?case using ips by (simp add: send_all_def ip_frame_def [abs_def])
qed

lemma recv_all:
  assumes "layout_ok view" and "\<forall>d \<in> set ds. ip_fits d"
  shows "run_all (NetworkInterface_recv_frame view) b (map (ip_frame ni (ni_ethernet_address b)) ds) =
    Some (b\<lparr>ni_datagrams_in := ni_datagrams_in b @ ds\<rparr>)"
  using assms(2)
proof (induction ds arbitrary: b)
  case (Cons d ds)
  then show ?case
    using recv_ip_frame [OF assms(1), of d b ni] Cons.IH [of "b\<lparr>ni_datagrams_in := ni_datagrams_in b @ [d]\<rparr>"] by simp
qed simp

lemma router_recv_all:
  assumes "i < length (ro_interfaces r)" and "run_all (NetworkInterface_recv_frame view) (ro_interfaces r ! i) fs = Some ni"
  shows "run_all (router_step view) r (map (\<lambda>f. RInterface i (NRecv f)) fs) = Some (r\<lparr>ro_interfaces := (ro_interfaces r)[i := ni]\<rparr>)"
  using assms
proof (induction fs arbitrary: r)
  case (Cons f fs)
  obtain ni1 where "NetworkInterface_recv_frame view (ro_interfaces r ! i) f = Some ni1"
    "run_all (NetworkInterface_recv_frame view) ni1 fs = Some ni" using Cons.prems(2) by (auto simp: bind_eq_Some_conv)
  then show ?case using Cons.IH [of "r\<lparr>ro_interfaces := (ro_interfaces r)[i := ni1]\<rparr>"] Cons.prems(1)
    by (simp add: Router_interface_def)
next
  case Nil
  then show ?case by (cases r) (auto simp: list_update_same_conv)
qed

lemma concat_single:
  assumes "i < length xs" and "\<forall>x \<in> set xs. g x = []"
  shows "concat (map g (xs[i := y])) = g y"
  using assms by (induction xs arbitrary: i) (auto split: nat.splits)

text \<open>A router sends on exactly the datagrams whose TTL allows it, in order, and nothing else.\<close>

lemma crosses_router:
  assumes "layout_ok view" and "bound_for dst ds" and "ready dst (r, i, j) eth"
  shows "\<exists>r'. run_all (router_step view) r (map (\<lambda>f. RInterface i (NRecv f)) (map (ip_frame ni (entry [(r, i, j)] b)) ds) @ [RRoute]) = Some r' \<and>
    ni_frames_out (ro_interfaces r' ! j) =
      ni_frames_out (ro_interfaces r ! j) @ map (ip_frame (ro_interfaces r ! j) eth) (survivors 1 ds)"
proof -
  let ?ifs = "ro_interfaces r"
  have ok: "router_ok r" "i < length ?ifs" "j < length ?ifs" and none: "\<forall>ni \<in> set ?ifs. ni_datagrams_in ni = []"
    using assms(3) by (auto simp: ready_def)
  have fits: "\<forall>d \<in> set ds. ip_fits d" "\<forall>d \<in> set (survivors 1 ds). ip_fits d"
    using assms(2) survivors_bound [OF assms(2)] by (auto simp: bound_for_def)
  define ni1 where "ni1 = (?ifs ! i)\<lparr>ni_datagrams_in := ds\<rparr>"
  define r1 where "r1 = r\<lparr>ro_interfaces := ?ifs[i := ni1]\<rparr>"
  have recv: "run_all (NetworkInterface_recv_frame view) (?ifs ! i) (map (ip_frame ni (entry [(r, i, j)] b)) ds) = Some ni1"
    using recv_all [OF assms(1) fits(1), of "?ifs ! i" ni] none ok(2) by (simp add: ni1_def)
  have "ni_ok ni1" using ok fits(1) by (simp add: router_ok_def ni_ok_def ni1_def ni_inv_datagrams)
  then have "router_ok r1" using ok(1)
    unfolding router_ok_def r1_def by (auto dest!: set_update_subset_insert [THEN subsetD])
  moreover have "concat (map ni_datagrams_in (ro_interfaces r1)) = ds"
    using concat_single [OF ok(2) none] by (simp add: r1_def ni1_def)
  ultimately obtain r' where r': "Router_route r1 = Some r'" "forwarded r1 ds r'" using route_forwards [of r1] by auto
  have table: "same_table r r1" by (simp add: same_table_def r1_def)
  have "emptied (ro_interfaces r1 ! j) = ?ifs ! j"
    using none ok by (cases "i = j") (simp_all add: r1_def ni1_def)
  then have "send_all (?ifs ! j) (outgoing r j ds) = Some (emptied (ro_interfaces r' ! j))"
    using r'(2) ok(3) same_table_outgoing [OF table] by (auto simp: forwarded_def r1_def)
  moreover obtain ips where ips: "length ips = length (survivors 1 ds)" "outgoing r j ds = zip (survivors 1 ds) ips"
    "\<forall>ip \<in> set ips. NetworkInterface_lookup_ethernet_address (?ifs ! j) ip = Some eth"
    using ready_outgoing [OF assms(2,3)] by blast
  moreover have "ni_inv (?ifs ! j)" using ok by (simp add: router_ok_def ni_ok_def)
  ultimately have "ni_frames_out (emptied (ro_interfaces r' ! j)) = ni_frames_out (?ifs ! j) @ map (ip_frame (?ifs ! j) eth) (survivors 1 ds)"
    using send_all_known [OF _ fits(2) ips(1,3)] by simp
  then show ?thesis using router_recv_all [OF ok(2) recv] r'(1) by (simp add: run_all_append r1_def)
qed

section \<open>Whole paths\<close>

lemma carry_eq:
  assumes "layout_ok view" and "bound_for dst ds" and "path_ok dst hops b"
  shows "\<exists>ni'. carry view hops (map (ip_frame ni (entry hops b)) ds) =
    Some (map (ip_frame ni' (ni_ethernet_address b)) (survivors (length hops) ds))"
  using assms(2,3)
proof (induction hops arbitrary: ni ds)
  case Nil
  then show ?case by (auto simp: survivors_def)
next
  case (Cons h hops)
  obtain r i j where h: "h = (r, i, j)" by (cases h)
  have ready: "ready dst (r, i, j) (entry hops b)" "path_ok dst hops b" using Cons.prems(2) h by simp_all
  obtain r' where r': "run_all (router_step view) r (map (\<lambda>f. RInterface i (NRecv f)) (map (ip_frame ni (entry [(r, i, j)] b)) ds) @ [RRoute]) = Some r'"
    "ni_frames_out (ro_interfaces r' ! j) = ni_frames_out (ro_interfaces r ! j) @
       map (ip_frame (ro_interfaces r ! j) (entry hops b)) (survivors 1 ds)"
    using crosses_router [OF assms(1) Cons.prems(1) ready(1)] by blast
  then show ?case using Cons.IH [OF survivors_bound [OF Cons.prems(1)] ready(2), of "ro_interfaces r ! j" 1] survivors_Suc h
    by simp
qed

section \<open>Properties\<close>

text \<open>
  C7. Datagrams cross any number of routers. On a path on which the longest matching prefix of each router
  leads to the next, and the next hops are resolved, every datagram that is sent arrives at the other
  end, in order and once, with its TTL lowered by the number of routers, except exactly those whose TTL
  is not higher than that number, which are dropped.
\<close>

theorem datagrams_cross_routers:
  assumes "layout_ok ref_from_bytes" and "ni_inv a" and "bound_for dst ds" and "path_ok dst hops b"
    and "NetworkInterface_lookup_ethernet_address a gateway = Some (entry hops b)"
  shows "\<exists>a' fs gs b'.
    run_all (\<lambda>ni d. NetworkInterface_send_datagram ni d gateway) a ds = Some a' \<and> ni_frames_out a' = ni_frames_out a @ fs \<and>
    carry ref_from_bytes hops fs = Some gs \<and>
    run_all (NetworkInterface_recv_frame ref_from_bytes) b gs = Some b' \<and>
    ni_datagrams_in b' = ni_datagrams_in b @
      (if hops = [] then ds
       else map (\<lambda>d. d\<lparr>dg_header := (dg_header d)\<lparr>ih_ttl := ih_ttl (dg_header d) - of_nat (length hops)\<rparr>\<rparr>)
         (filter (\<lambda>d. length hops < unat (ih_ttl (dg_header d))) ds))"
proof -
  let ?n = "length hops"
  have fits: "\<forall>d \<in> set ds. ip_fits d" "\<forall>d \<in> set (survivors ?n ds). ip_fits d"
    using assms(3) survivors_bound [OF assms(3)] by (auto simp: bound_for_def)
  have "send_all a (zip ds (replicate (length ds) gateway)) =
      run_all (\<lambda>ni d. NetworkInterface_send_datagram ni d gateway) a ds" for a
    unfolding send_all_def by (induction ds arbitrary: a) (auto cong: Option.bind_cong)
  then have "run_all (\<lambda>ni d. NetworkInterface_send_datagram ni d gateway) a ds =
      Some (a\<lparr>ni_frames_out := ni_frames_out a @ map (ip_frame a (entry hops b)) ds\<rparr>)"
    using send_all_known [OF assms(2) fits(1), of "replicate (length ds) gateway"] assms(5) by auto
  moreover obtain ni' where "carry ref_from_bytes hops (map (ip_frame a (entry hops b)) ds) =
      Some (map (ip_frame ni' (ni_ethernet_address b)) (survivors ?n ds))"
    using carry_eq [OF assms(1,3,4)] by blast
  moreover note recv_all [OF assms(1) fits(2), of b ni']
  ultimately show ?thesis by (auto simp: survivors_def aged_def [abs_def])
qed

definition example_neighbour :: "EthernetAddress \<Rightarrow> Ipv4AddrBytes \<Rightarrow> EthernetAddress \<Rightarrow> Ipv4AddrBytes \<Rightarrow> NetworkInterface" where
  "example_neighbour eth ip eth' ip' = (NetworkInterface_new eth ip)
     \<lparr>ni_arp_cache := [ip' \<mapsto> \<lparr>ce_ethernet_address = eth', ce_age_ms = 0\<rparr>]\<rparr>"

definition example_path_router :: Router where
  "example_path_router = \<lparr> ro_interfaces =
       [NetworkInterface_new (2, 0, 0, 0, 1, 1) (10, 1, 0, 1),
        example_neighbour (2, 0, 0, 0, 1, 2) (10, 0, 0, 1) (2, 0, 0, 0, 0, 2) (10, 0, 0, 2)],
     ro_routes =
       [\<lparr> rt_route_prefix = (0, 0, 0, 0), rt_prefix_length = 0, rt_next_hop = Some (10, 1, 0, 9), rt_interface_num = 0 \<rparr>,
        \<lparr> rt_route_prefix = (10, 0, 0, 0), rt_prefix_length = 16, rt_next_hop = None, rt_interface_num = 1 \<rparr>] \<rparr>"

lemma example_neighbour_fields:
  "ni_inv (example_neighbour eth ip eth' ip')" "ni_datagrams_in (example_neighbour eth ip eth' ip') = []"
  "NetworkInterface_lookup_ethernet_address (example_neighbour eth ip eth' ip') ip' = Some eth'"
  by (auto simp: example_neighbour_def ni_inv_def NetworkInterface_new_def NetworkInterface_lookup_ethernet_address_def
      split: if_splits)

lemma example_path_ready: "ready (10, 0, 0, 2) (example_path_router, 0, 1) (2, 0, 0, 0, 0, 2)"
proof -
  have "covers (ro_routes example_path_router ! 1) (10, 0, 0, 2)"
    by (simp add: covers_def example_path_router_def addr32_def from_be32_def drop_bit_eq_div)
  then have "is_best (ro_routes example_path_router) (10, 0, 0, 2) (Some (ro_routes example_path_router ! 1))"
    by (auto simp: is_best_def example_path_router_def less_Suc_eq intro!: exI [of _ 1])
  then show ?thesis
    by (auto simp: ready_def router_ok_def ni_ok_def example_path_router_def example_neighbour_fields ni_inv_new new_fields
        intro!: exI [of _ "ro_routes example_path_router ! 1"])
qed

theorem datagrams_cross_routers_witness:
  "\<exists>a' fs gs b'. NetworkInterface_send_datagram (example_neighbour (2, 0, 0, 0, 0, 1) (10, 1, 0, 2) (2, 0, 0, 0, 1, 1) (10, 1, 0, 1))
      example_datagram (10, 1, 0, 1) = Some a' \<and> ni_frames_out a' = fs \<and>
    carry repr_c [(example_path_router, 0, 1)] fs = Some gs \<and>
    run_all (NetworkInterface_recv_frame repr_c) (NetworkInterface_new (2, 0, 0, 0, 0, 2) (10, 0, 0, 2)) gs = Some b' \<and>
    map (\<lambda>d. ih_ttl (dg_header d)) (ni_datagrams_in b') = [63]"
proof -
  let ?a = "example_neighbour (2, 0, 0, 0, 0, 1) (10, 1, 0, 2) (2, 0, 0, 0, 1, 1) (10, 1, 0, 1)"
  let ?b = "NetworkInterface_new (2, 0, 0, 0, 0, 2) (10, 0, 0, 2)"
  have d: "bound_for (10, 0, 0, 2) [example_datagram]" "ih_ttl (dg_header example_datagram) = 64"
    using example_fits by (simp_all add: bound_for_def example_datagram_def Ipv4Datagram_new_tcp_def Ipv4Datagram_new_def Ipv4Header_new_def)
  have "path_ok (10, 0, 0, 2) [(example_path_router, 0, 1)] ?b" using example_path_ready by (simp add: new_fields)
  moreover have "NetworkInterface_lookup_ethernet_address ?a (10, 1, 0, 1) = Some (entry [(example_path_router, 0, 1)] ?b)"
    by (simp add: example_neighbour_fields example_path_router_def new_fields)
  ultimately show ?thesis
    using datagrams_cross_routers [OF layout_ok_repr_c example_neighbour_fields(1) d(1)] d(2)
    by (fastforce simp: new_fields example_neighbour_def)
qed

end
