(* ===== verification/Webget.thy ===== *)
theory Webget
  imports Std_Io
begin

text \<open>
  \<open>src/bin/webget.rs\<close>: a client that fetches a page over the operating system's TCP. The network and
  standard output are parameters. The request is a multi-line string literal, whose line breaks and
  indentation are part of it.
\<close>

section \<open>Model\<close>

definition CRLF :: string where "CRLF = [CHR 0x0D, CHR 0x0A]"
definition indented_line :: "string \<Rightarrow> string" where
  "indented_line s = [CHR 0x0A] @ ''        '' @ s @ CRLF"

text \<open>The checks of the arguments behind the program's name: a host and a path that begins with a slash.\<close>

fun webget_args :: "string list \<Rightarrow> (string \<times> string) io_result" where
  "webget_args [hostname, path] = (if path \<noteq> [] \<and> hd path = CHR ''/'' then Inr (hostname, path) else Inl InvalidInput)"
| "webget_args _ = Inl InvalidInput"

definition webget_request :: "string \<Rightarrow> string \<Rightarrow> string" where
  "webget_request hostname path =
     ''GET '' @ path @ '' HTTP/1.1'' @ CRLF @ indented_line (''Host: '' @ hostname) @
     indented_line ''Connection: close'' @ indented_line []"

text \<open>The copying loop: a read of no bytes is the end of the stream.\<close>

partial_function (option) copy_loop :: "'f read \<Rightarrow> 'o write_all \<Rightarrow> 'f \<Rightarrow> 'o \<Rightarrow> (('f \<times> 'o) \<times> unit io_result) run" where
  "copy_loop read write_all stream out =
     (case read stream 8192 of
        (stream, r) \<Rightarrow>
          (case r of
             Inl e \<Rightarrow> Some ((stream, out), Inl e)
           | Inr b \<Rightarrow>
               if b = [] then Some ((stream, out), Inr ())
               else (case write_all out b of
                 (out, w) \<Rightarrow>
                   (case w of
                      Inl e \<Rightarrow> Some ((stream, out), Inl e)
                    | Inr _ \<Rightarrow> copy_loop read write_all stream out))))"

declare copy_loop.simps [code]

text \<open>What the program uses of the operating system: connections by address, and standard output.\<close>

record ('f, 'o) web_os =
  web_connect :: "string \<Rightarrow> 'f io_result"
  web_write :: "'f write_all"
  web_flush :: "'f \<Rightarrow> 'f \<times> unit io_result"
  web_read :: "'f read"
  web_out :: "'o write_all"
  web_out_flush :: "'o \<Rightarrow> 'o \<times> unit io_result"

text \<open>\<open>main\<close>: the connection, if there is one, standard output and the result.\<close>

definition webget_main :: "('f, 'o) web_os \<Rightarrow> string list \<Rightarrow> 'o \<Rightarrow> ('f option \<times> 'o \<times> unit io_result) run" where
  "webget_main os args out =
     (case webget_args (drop 1 args) of
        Inl e \<Rightarrow> Some (None, out, Inl e)
      | Inr (hostname, path) \<Rightarrow>
          (case web_connect os (hostname @ '':80'') of
             Inl e \<Rightarrow> Some (None, out, Inl e)
           | Inr stream \<Rightarrow>
               (case web_write os stream (map of_char (webget_request hostname path)) of
                  (stream, Inl e) \<Rightarrow> Some (Some stream, out, Inl e)
                | (stream, Inr _) \<Rightarrow>
                    (case web_flush os stream of
                       (stream, Inl e) \<Rightarrow> Some (Some stream, out, Inl e)
                     | (stream, Inr _) \<Rightarrow> do {
                         ((stream, out), r) \<leftarrow> copy_loop (web_read os) (web_out os) stream out;
                         (case r of
                            Inl e \<Rightarrow> Some (Some stream, out, Inl e)
                          | Inr _ \<Rightarrow> (case web_out_flush os out of (out, r) \<Rightarrow> Some (Some stream, out, r)))
                       }))))"

section \<open>Lemmas\<close>

text \<open>
  The request line is followed by an empty line (a line feed of its own), which ends the header for a
  server that accepts single line feeds, and no header line is terminated as HTTP requires: each begins
  with the line feed and the indentation of the literal.
\<close>

lemma request_line_then_empty_line:
  "\<exists>rest. webget_request hostname path = ''GET '' @ path @ '' HTTP/1.1'' @ CRLF @ [CHR 0x0A] @ ''        Host: '' @ rest"
  by (simp add: webget_request_def indented_line_def)

lemma webget_args_iff:
  "webget_args args = Inr (hostname, path) \<longleftrightarrow> args = [hostname, path] \<and> path \<noteq> [] \<and> hd path = CHR ''/''"
  by (cases args rule: webget_args.cases) auto

lemma webget_args_error: "webget_args args = Inl e \<Longrightarrow> e = InvalidInput"
  by (cases args rule: webget_args.cases) (auto split: if_splits)

text \<open>
  What a connection gives: \<open>rest\<close> is what the peer still sends before it closes, \<open>sent\<close> what it has been sent,
  and a read gives a non-empty beginning of \<open>rest\<close>, or nothing at its end. \<open>content\<close> is what has been printed.
\<close>

definition served :: "('f, 'o) web_os \<Rightarrow> ('f \<Rightarrow> bytes) \<Rightarrow> ('f \<Rightarrow> bytes) \<Rightarrow> ('o \<Rightarrow> bytes) \<Rightarrow> bool" where
  "served os rest sent content \<longleftrightarrow>
     (\<forall>f n. 0 < n \<longrightarrow> (\<exists>f' b. web_read os f n = (f', Inr b) \<and> (b = [] \<longleftrightarrow> rest f = []) \<and> rest f = b @ rest f' \<and> sent f' = sent f)) \<and>
     (\<forall>f b. \<exists>f'. web_write os f b = (f', Inr ()) \<and> sent f' = sent f @ b \<and> rest f' = rest f) \<and>
     (\<forall>f. \<exists>f'. web_flush os f = (f', Inr ()) \<and> sent f' = sent f \<and> rest f' = rest f) \<and>
     (\<forall>g b. \<exists>g'. web_out os g b = (g', Inr ()) \<and> content g' = content g @ b) \<and>
     (\<forall>g. \<exists>g'. web_out_flush os g = (g', Inr ()) \<and> content g' = content g)"

lemma servedD:
  assumes "served os rest sent content"
  shows "0 < n \<Longrightarrow> \<exists>f' b. web_read os f n = (f', Inr b) \<and> (b = [] \<longleftrightarrow> rest f = []) \<and> rest f = b @ rest f' \<and> sent f' = sent f"
    and "\<exists>f'. web_write os f b = (f', Inr ()) \<and> sent f' = sent f @ b \<and> rest f' = rest f"
    and "\<exists>f'. web_flush os f = (f', Inr ()) \<and> sent f' = sent f \<and> rest f' = rest f"
    and "\<exists>g'. web_out os g b = (g', Inr ()) \<and> content g' = content g @ b"
    and "\<exists>g'. web_out_flush os g = (g', Inr ()) \<and> content g' = content g"
  using assms by (simp_all add: served_def)

text \<open>All that the connection still holds is copied.\<close>

lemma copy_loop_copies:
  assumes "served os rest sent content"
  shows "\<exists>f' o'. copy_loop (web_read os) (web_out os) f out = Some ((f', o'), Inr ()) \<and>
    content o' = content out @ rest f \<and> sent f' = sent f"
proof (induction "length (rest f)" arbitrary: f out rule: less_induct)
  case less
  obtain f' b where rd: "web_read os f 8192 = (f', Inr b)" "b = [] \<longleftrightarrow> rest f = []" "rest f = b @ rest f'" "sent f' = sent f"
    using servedD(1) [OF assms, of 8192 f] by auto
  show ?case
  proof (cases "b = []")
    case True
    then have "rest f = []" using rd(2) by simp
    then show ?thesis using True rd(1,4) by (subst copy_loop.simps) simp
  next
    case False
    obtain o' where w: "web_out os out b = (o', Inr ())" "content o' = content out @ b" using servedD(4) [OF assms] by blast
    have "length (rest f') < length (rest f)" using rd(3) False by simp
    from less.hyps [OF this, of o'] show ?thesis using rd w False by (subst copy_loop.simps) simp
  qed
qed

text \<open>Other command lines are refused before a connection is made.\<close>

lemma webget_refuses:
  assumes "\<nexists>prog hostname path. args = [prog, hostname, path] \<and> path \<noteq> [] \<and> hd path = CHR ''/''"
  shows "webget_main os args out = Some (None, out, Inl InvalidInput)"
proof (cases "webget_args (drop 1 args)")
  case (Inl e)
  then show ?thesis using webget_args_error [OF Inl] by (simp add: webget_main_def)
next
  case (Inr hp)
  then obtain hostname path where "drop 1 args = [hostname, path]" "path \<noteq> []" "hd path = CHR ''/''"
    by (cases hp) (auto simp: webget_args_iff)
  then show ?thesis using assms by (cases args) auto
qed

section \<open>Property\<close>

text \<open>
  C31. The program as a whole, for a host that accepts the connection, whatever pieces the network
  delivers the answer in: exactly the request is sent, everything that the peer sends until it closes is
  printed in order, and the program returns successfully.
\<close>

theorem webget_fetches:
  assumes "served os rest sent content" and "webget_args (drop 1 args) = Inr (hostname, path)"
    and "web_connect os (hostname @ '':80'') = Inr f"
  shows "\<exists>f' out'. webget_main os args out = Some (Some f', out', Inr ()) \<and>
    sent f' = sent f @ map of_char (webget_request hostname path) \<and> content out' = content out @ rest f"
proof -
  obtain f1 where f1: "web_write os f (map of_char (webget_request hostname path)) = (f1, Inr ())"
    "sent f1 = sent f @ map of_char (webget_request hostname path)" "rest f1 = rest f" using servedD(2) [OF assms(1)] by blast
  obtain f2 where f2: "web_flush os f1 = (f2, Inr ())" "sent f2 = sent f1" "rest f2 = rest f1" using servedD(3) [OF assms(1)] by blast
  obtain f3 o3 where f3: "copy_loop (web_read os) (web_out os) f2 out = Some ((f3, o3), Inr ())"
    "content o3 = content out @ rest f2" "sent f3 = sent f2" using copy_loop_copies [OF assms(1)] by blast
  obtain o4 where o4: "web_out_flush os o3 = (o4, Inr ())" "content o4 = content o3" using servedD(5) [OF assms(1)] by blast
  show ?thesis using assms(2,3) f1 f2 f3 o4 by (simp add: webget_main_def)
qed

text \<open>A peer that answers with some bytes, of which at most three arrive at a time.\<close>

definition example_web :: "(bytes \<times> bytes, bytes) web_os" where
  "example_web = \<lparr> web_connect = (\<lambda>a. if a = ''h:80'' then Inr ([7, 8, 9, 10, 11], []) else Inl Other),
     web_write = (\<lambda>(rest, sent) b. ((rest, sent @ b), Inr ())), web_flush = (\<lambda>f. (f, Inr ())),
     web_read = (\<lambda>(rest, sent) n. ((drop (min 3 n) rest, sent), Inr (take (min 3 n) rest))),
     web_out = (\<lambda>g b. (g @ b, Inr ())), web_out_flush = (\<lambda>g. (g, Inr ())) \<rparr>"

lemma example_web_served: "served example_web fst snd id"
  by (auto simp: served_def example_web_def min_def)

theorem webget_fetches_witness:
  "\<exists>f out. webget_main example_web [''webget'', ''h'', ''/x''] [] = Some (Some f, out, Inr ()) \<and>
    snd f = map of_char (webget_request ''h'' ''/x'') \<and> out = [7, 8, 9, 10, 11]"
  using webget_fetches [OF example_web_served, of "[''webget'', ''h'', ''/x'']" "''h''" "''/x''" "([7, 8, 9, 10, 11], [])" "[]"]
  by (simp add: example_web_def)

end
