(* ===== verification/Tun_Probe.thy ===== *)
theory Tun_Probe
  imports Net_Device Host_Cli Ip_Host
begin

text \<open>
  \<open>src/bin/tun_probe.rs\<close>: a program that prints what arrives on a TUN device. The loop ends only with an
  error, that of the read that fails.
\<close>

section \<open>Model\<close>

definition protocol_name :: "byte \<Rightarrow> string" where
  "protocol_name protocol =
     (if protocol = IPV4_PROTOCOL_TCP then ''TCP''
      else if protocol = 1 then ''ICMP''
      else if protocol = 17 then ''UDP''
      else ''OTHER'')"

definition packet_line :: "Ipv4ParseError + Ipv4Datagram \<Rightarrow> string" where
  "packet_line parsed =
     (case parsed of
        Inr datagram \<Rightarrow>
          ''IPv4: '' @ fmt_ip (ih_src (dg_header datagram)) @ '' -> '' @ fmt_ip (ih_dst (dg_header datagram)) @
          '' proto='' @ protocol_name (ih_protocol (dg_header datagram)) @
          '' payload_len='' @ string_of_nat (length (dg_payload datagram))
      | Inl err \<Rightarrow> ''failed to parse IPv4 packet: '' @ Ipv4ParseError_debug err)"

text \<open>The lines for a packet.\<close>

definition packet_report :: "bytes \<Rightarrow> Ipv4ParseError + Ipv4Datagram \<Rightarrow> string list" where
  "packet_report packet parsed =
     [''raw packet: '' @ string_of_nat (length packet) @ '' bytes'', packet_line parsed, []]"

partial_function (option) probe_loop ::
  "(bytes \<Rightarrow> Ipv4FixedHeader option) \<Rightarrow> 'f read \<Rightarrow> 'o write_all \<Rightarrow> 'f TunDevice \<Rightarrow> 'o \<Rightarrow> ('f TunDevice \<times> 'o \<times> ErrorKind) run" where
  "probe_loop ref_from_bytes read print tun out =
     (case TunDevice_read_packet read tun of
        (tun, r) \<Rightarrow>
          (case r of
             Inl e \<Rightarrow> Some (tun, out, e)
           | Inr packet \<Rightarrow>
               Option.bind (Ipv4Datagram_parse ref_from_bytes packet) (\<lambda>parsed.
               Option.bind (print_lines print out (packet_report packet parsed)) (\<lambda>out.
                 probe_loop ref_from_bytes read print tun out))))"

declare probe_loop.simps [code]

definition probe_instructions :: "string \<Rightarrow> string list" where
  "probe_instructions name =
     [''opened TUN device: '' @ name, ''waiting for IPv4 packets...'', ''try in another terminal:'',
      ''  ping -c 3 169.254.144.2'', []]"

text \<open>\<open>main\<close>: standard output and standard error behind \<open>out\<close>, and the error it returns.\<close>

definition tun_probe ::
  "(bytes \<Rightarrow> Ipv4FixedHeader option) \<Rightarrow> 'f io_result \<Rightarrow> 'f ioctl \<Rightarrow> 'f read \<Rightarrow> 'o write_all \<Rightarrow> 'o write_all \<Rightarrow>
     string list \<Rightarrow> 'o \<Rightarrow> ('o \<times> ErrorKind) run" where
  "tun_probe ref_from_bytes opened ioctl read print eprint args out = do {
     let name = (if 1 < length args then args ! 1 else DEFAULT_TUN_NAME);
     out \<leftarrow> print_line eprint out (''opening TUN device: '' @ name);
     (case TunDevice_create opened ioctl (map of_char name) of
        Inl e \<Rightarrow> Some (out, e)
      | Inr tun \<Rightarrow> do {
          out \<leftarrow> print_lines eprint out (probe_instructions (string_of_bytes (tun_name tun)));
          (tun, out, e) \<leftarrow> probe_loop ref_from_bytes read print tun out;
          Some (out, e) })
   }"

section \<open>Lemmas\<close>

text \<open>A device that holds these packets and then fails, and what is printed for packets.\<close>

fun reads :: "'f read \<Rightarrow> 'f \<Rightarrow> bytes list \<Rightarrow> ErrorKind \<Rightarrow> bool" where
  "reads read f [] e \<longleftrightarrow> (\<exists>f'. read f MAX_IPV4_PACKET_SIZE = (f', Inl e))"
| "reads read f (p # ps) e \<longleftrightarrow> (\<exists>f'. read f MAX_IPV4_PACKET_SIZE = (f', Inr p) \<and> reads read f' ps e)"

fun reports :: "(bytes \<Rightarrow> Ipv4FixedHeader option) \<Rightarrow> bytes list \<Rightarrow> string list" where
  "reports ref_from_bytes [] = []"
| "reports ref_from_bytes (p # ps) =
     (case Ipv4Datagram_parse ref_from_bytes p of Some r \<Rightarrow> packet_report p r | None \<Rightarrow> []) @ reports ref_from_bytes ps"

lemma print_lines_append:
  "print_lines w out (xs @ ys) = Option.bind (print_lines w out xs) (\<lambda>out. print_lines w out ys)"
  by (induction xs arbitrary: out) simp_all

text \<open>Every packet is reported, in the order of arrival, until the read that fails.\<close>

lemma probe_reports:
  assumes "layout_ok ref_from_bytes" and "writable print"
  shows "reads read (tun_file tun) ps e \<Longrightarrow>
    \<exists>tun' out'. probe_loop ref_from_bytes read print tun out = Some (tun', out', e) \<and>
      print_lines print out (reports ref_from_bytes ps) = Some out'"
proof (induction ps arbitrary: tun out)
  case Nil
  then show ?case by (subst probe_loop.simps) (auto simp: TunDevice_read_packet_def)
next
  case (Cons p ps)
  then obtain f' where f': "read (tun_file tun) MAX_IPV4_PACKET_SIZE = (f', Inr p)" "reads read f' ps e" by auto
  obtain r where r: "Ipv4Datagram_parse ref_from_bytes p = Some r" using ip_parse_total [OF assms(1)] by (auto simp: Ipv4Datagram_parse_def)
  obtain o1 where o1: "print_lines print out (packet_report p r) = Some o1" using print_total(3) [OF assms(2)] by blast
  obtain tun' o2 where IH: "probe_loop ref_from_bytes read print (tun\<lparr>tun_file := f'\<rparr>) o1 = Some (tun', o2, e)"
    "print_lines print o1 (reports ref_from_bytes ps) = Some o2"
    using Cons.IH [of "tun\<lparr>tun_file := f'\<rparr>" o1] f'(2) by auto
  then show ?case using f'(1) r o1
    by (subst probe_loop.simps) (simp add: TunDevice_read_packet_def print_lines_append)
qed

end
