(* ===== verification/Spec2Isabelle.thy ===== *)
theory Spec2Isabelle
  imports Host_Delivery Host_Programs Routed_Path Webget Tun_Probe
begin

text \<open>
  A verification of \<open>minnow-rs\<close>, a user-space TCP/IP stack in Rust.

  \<^bold>\<open>The program.\<close> The crate is a stack of components, each a plain struct that its owner calls; nothing is
  shared and there are no callbacks. A \<open>ByteStream\<close> is a bounded queue of bytes. The \<open>Reassembler\<close> puts
  substrings that arrive in any order into a \<open>ByteStream\<close>. The \<open>TcpReceiver\<close> turns 32-bit sequence numbers into
  stream indices (\<open>Wrap32\<close>), feeds the reassembler and makes acknowledgments; the \<open>TcpSender\<close> cuts its outbound
  stream into messages, within the peer's window, and retransmits them on a timer. A \<open>TcpConnection\<close> owns one
  of each and exchanges \<open>TcpSegment\<close>s with its peer. An \<open>IpHost\<close> owns a connection, puts its segments into
  \<open>Ipv4Datagram\<close>s and answers ICMP echo requests. A \<open>NetworkInterface\<close> sends datagrams in \<open>EthernetFrame\<close>s to the
  addresses it resolves by ARP, and a \<open>Router\<close> forwards datagrams between interfaces. The programs
  \<open>tun_host\<close> and \<open>tap_host\<close> run a host on a TUN device or, through a network interface, on a TAP device, and can
  record the traffic in a capture file; \<open>tun_probe\<close> prints the packets of a TUN device, and \<open>webget\<close> is a client
  of the operating system's own TCP.

  \<^bold>\<open>The theories.\<close> Each models a source file under \<open>src/\<close>, with one definition for each type and
  method, named after it (\<open>TcpSender_push\<close> is \<open>TcpSender::push\<close>); the fields of a struct are the fields of a record
  with a prefix of their own.
  \<^item> \<open>Prelude\<close>: integers, slices, byte order; the locales \<open>safe_machine\<close> and \<open>budget_machine\<close>, which lift a contract
    of single calls to every sequence of calls, and are interpreted for every component with state.
  \<^item> \<open>Wrapping_Integers\<close> (\<open>wrapping_integers.rs\<close>), \<open>Byte_Stream\<close> (\<open>byte_stream.rs\<close>), \<open>Ordered_Map\<close> (the \<open>BTreeMap\<close> of the
    reassembler, with the locale of its laws), \<open>Stream_Reassembler\<close> (\<open>reassembler.rs\<close>).
  \<^item> \<open>Tcp_Message\<close>, \<open>Tcp_Receiver\<close>, \<open>Tcp_Sender\<close>, \<open>Tcp_Connection\<close> (the files of these names).
  \<^item> \<open>Checksum\<close> (\<open>checksum.rs\<close>); \<open>Wire_Format\<close>, the locale of a serializer with its parser, interpreted by
    \<open>Tcp_Segment\<close>, \<open>Ipv4_Datagram\<close>, \<open>Ethernet_Frame\<close>, \<open>Arp\<close> and \<open>Icmp\<close> (the files of these names).
  \<^item> \<open>Network_Interface\<close>, \<open>Router\<close>, \<open>Ip_Host\<close> (the files of these names).
  \<^item> \<open>Tcp_Network\<close>: two connections and an unreliable network, as a step relation. \<open>Tcp_Progress\<close>: the sender of
    each keeps in step with the receiver of the other. \<open>Tcp_Delivery\<close>: what a run can always still do.
    \<open>Ip_Network\<close>: two hosts and an IP network, and its simulation by \<open>Tcp_Network\<close>. \<open>Host_Delivery\<close>: the simulation
    in the other direction, and how much two hosts can transport. \<open>Routed_Path\<close>: interfaces and routers in a row.
  \<^item> \<open>Std_Io\<close> (results, printing, UTF-8 and numbers of the standard library), \<open>Pcap\<close> (\<open>pcap.rs\<close>), \<open>Net_Device\<close>
    (\<open>tun.rs\<close> and \<open>tap.rs\<close>, with their stand-ins for other systems), \<open>Host_Cli\<close> (command lines) and \<open>Host_Io\<close> (events
    and reports, \<open>bin/common/host_cli.rs\<close>), \<open>Host_Programs\<close> (\<open>bin/tap_host.rs\<close>, \<open>bin/tun_host.rs\<close>), \<open>Webget\<close>
    (\<open>bin/webget.rs\<close>), \<open>Tun_Probe\<close> (\<open>bin/tun_probe.rs\<close>).

  \<^bold>\<open>Conventions.\<close> A method that changes its object returns the new object with its result. What may panic
  has type \<open>'a run\<close>, an option whose \<^const>\<open>None\<close> is the panic; the model is of a build with overflow checks
  and debug assertions, so that freedom from panics includes that no arithmetic overflows and no debug
  assertion fails. A loop whose end is not evident from its text is a \<open>partial_function\<close>, and
  \<^const>\<open>None\<close> is then also the value of a loop that does not end: every theorem that such a call returns
  shows that it ends. No fuel is used. \<open>Result\<close> is a sum. 8-, 16- and 32-bit integers are words; \<open>u64\<close> and \<open>usize\<close>
  are natural numbers with explicit bounds, and the counters of a connection are shown to stay within them.

  \<^bold>\<open>What is shown.\<close>
  \<^item> The reassembler implements a set of indices: an insertion adds the indices of the substring within
    the window, and the output is what lies below the least missing index. From this, with the exact
    translation of sequence numbers, a receiver outputs a prefix of any stream whose pieces it is given,
    and all of it when the pieces cover the stream.
  \<^item> The sender's outstanding messages tile the sequence space between what is acknowledged and what is
    sent; a push extends the tiling up to the window, an acknowledgment cuts it off, a tick repeats its
    first message with exponential back-off.
  \<^item> Two connections implement a reliable byte stream in both directions over a network that loses,
    repeats, reorders and delays segments, and two hosts implement it over an IP network that may deliver
    anything but forged segments. The streams are shorter than 2 GiB (the bound is \<open>2 ^ 31\<close>): beyond it a
    delayed segment's 32-bit sequence number does not determine its place.
  \<^item> Two connections never get stuck: from every state they can reach, reading, waiting for the timer and
    delivering one segment at a time brings everything written so far, and the ends of both streams, to
    the other side. What a sender takes for acknowledged is at most what the receiver has; a round moves it.
  \<^item> Two hosts never get stuck either, as long as what is written fits the receive capacity; and they
    transport no more than that: a host reports the payload of each segment but never reads the
    reassembled stream, so that its window closes for good.
  \<^item> Serializing and parsing are inverse for every format; parsers return on every input and accept only
    verified checksums; the checksum does not depend on how the data is divided and detects the change of
    a word.
  \<^item> An interface resolves addresses, is quiet about requests, and forgets exactly on time; a router
    forwards everything by longest prefix match, and ends. Datagrams cross any number of routers in order,
    and exactly those are lost whose TTL is too low.
  \<^item> No component panics, in any sequence of calls, on any input; nor do the two host programs, started
    with any command line, whatever the operating system returns, as long as the standard streams can be
    written; and no iteration of their loops hangs. \<open>webget\<close> prints exactly what it is sent, and \<open>tun_probe\<close>
    reports exactly the packets it reads.

  \<^bold>\<open>Bounds.\<close> An application writes fewer than \<open>2 ^ 64 - 2\<close> bytes to a stream. The configured payload is at most
  65495 bytes, which leaves room for both headers in a packet of 65535 bytes; the programs configure
  1000. Checksums are of at most 128 KiB, where the 32-bit sum cannot overflow.

  \<^bold>\<open>Parameters.\<close> The view of the IPv4 header that \<open>zerocopy\<close> derives is a parameter with the hypothesis
  \<open>layout_ok\<close>, that it reads the fields in the order of the struct, in network byte order; \<open>repr_c\<close> is the
  function that does. The kernel, files, the clock and the channel from standard input are parameters;
  \<open>os_ok\<close> and \<open>appends\<close> state what is relied on, and \<open>example_os\<close> satisfies them.

  \<^bold>\<open>Not modelled.\<close> The texts of error values, of which the programs use nothing but the kind (their own
  diagnostics, reports and help texts are modelled); the sleep between two iterations, which nothing
  observes; unit tests; \<open>lib.rs\<close>, which only names the modules. The memory sharing of \<open>Bytes\<close> is not visible
  to the code. Accessors that return a field are the field.
\<close>

end
